(* ===== verification/LeilFS_Prelude.thy ===== *)
theory LeilFS_Prelude
  imports Main "HOL-Library.Code_Target_Numeral" "HOL-Library.Word" "HOL-Library.Product_Lexorder" "HOL-Library.Multiset"
begin

text \<open>
  Shared vocabulary of the development: the parts of the C++ standard library the modelled code
  calls (\<open>std::lower_bound\<close>, \<open>std::upper_bound\<close>, \<open>std::merge\<close>, \<open>std::unique\<close>), the status codes
  of \<open>src/src/errors/leil_error_codes.h\<close> that the components return, and the generic
  lemmas on lists the component theories share.
\<close>

named_theorems bound_simps \<open>rewriting the binary searches of the standard library\<close>

type_synonym inode = nat

text \<open>
  The status codes of \<open>src/src/errors/leil_error_codes.h\<close> that the modelled operations return.
\<close>

type_synonym status = nat

abbreviation (input) SAUNAFS_STATUS_OK :: status where "SAUNAFS_STATUS_OK \<equiv> 0"
abbreviation (input) SAUNAFS_ERROR_EPERM :: status where "SAUNAFS_ERROR_EPERM \<equiv> 1"
abbreviation (input) SAUNAFS_ERROR_ENOTDIR :: status where "SAUNAFS_ERROR_ENOTDIR \<equiv> 2"
abbreviation (input) SAUNAFS_ERROR_ENOENT :: status where "SAUNAFS_ERROR_ENOENT \<equiv> 3"
abbreviation (input) SAUNAFS_ERROR_EACCES :: status where "SAUNAFS_ERROR_EACCES \<equiv> 4"
abbreviation (input) SAUNAFS_ERROR_EEXIST :: status where "SAUNAFS_ERROR_EEXIST \<equiv> 5"
abbreviation (input) SAUNAFS_ERROR_EINVAL :: status where "SAUNAFS_ERROR_EINVAL \<equiv> 6"
abbreviation (input) SAUNAFS_ERROR_ENOTEMPTY :: status where "SAUNAFS_ERROR_ENOTEMPTY \<equiv> 7"
abbreviation (input) SAUNAFS_ERROR_CHUNKLOST :: status where "SAUNAFS_ERROR_CHUNKLOST \<equiv> 8"
abbreviation (input) SAUNAFS_ERROR_OUTOFMEMORY :: status where "SAUNAFS_ERROR_OUTOFMEMORY \<equiv> 9"
abbreviation (input) SAUNAFS_ERROR_INDEXTOOBIG :: status where "SAUNAFS_ERROR_INDEXTOOBIG \<equiv> 10"
abbreviation (input) SAUNAFS_ERROR_LOCKED :: status where "SAUNAFS_ERROR_LOCKED \<equiv> 11"
abbreviation (input) SAUNAFS_ERROR_NOCHUNKSERVERS :: status where "SAUNAFS_ERROR_NOCHUNKSERVERS \<equiv> 12"
abbreviation (input) SAUNAFS_ERROR_NOCHUNK :: status where "SAUNAFS_ERROR_NOCHUNK \<equiv> 13"
abbreviation (input) SAUNAFS_ERROR_CHUNKBUSY :: status where "SAUNAFS_ERROR_CHUNKBUSY \<equiv> 14"
abbreviation (input) SAUNAFS_ERROR_NOTDONE :: status where "SAUNAFS_ERROR_NOTDONE \<equiv> 16"
abbreviation (input) SAUNAFS_ERROR_GROUPNOTREGISTERED :: status where "SAUNAFS_ERROR_GROUPNOTREGISTERED \<equiv> 17"
abbreviation (input) SAUNAFS_ERROR_WRONGVERSION :: status where "SAUNAFS_ERROR_WRONGVERSION \<equiv> 19"
abbreviation (input) SAUNAFS_ERROR_CHUNKEXIST :: status where "SAUNAFS_ERROR_CHUNKEXIST \<equiv> 20"
abbreviation (input) SAUNAFS_ERROR_NOSPACE :: status where "SAUNAFS_ERROR_NOSPACE \<equiv> 21"
abbreviation (input) SAUNAFS_ERROR_IO :: status where "SAUNAFS_ERROR_IO \<equiv> 22"
abbreviation (input) SAUNAFS_ERROR_DELAYED :: status where "SAUNAFS_ERROR_DELAYED \<equiv> 30"
abbreviation (input) SAUNAFS_ERROR_MISMATCH :: status where "SAUNAFS_ERROR_MISMATCH \<equiv> 32"
abbreviation (input) SAUNAFS_ERROR_EROFS :: status where "SAUNAFS_ERROR_EROFS \<equiv> 33"
abbreviation (input) SAUNAFS_ERROR_QUOTA :: status where "SAUNAFS_ERROR_QUOTA \<equiv> 34"
abbreviation (input) SAUNAFS_ERROR_ENOATTR :: status where "SAUNAFS_ERROR_ENOATTR \<equiv> 38"
abbreviation (input) SAUNAFS_ERROR_ENOTSUP :: status where "SAUNAFS_ERROR_ENOTSUP \<equiv> 39"
abbreviation (input) SAUNAFS_ERROR_NOTLOCKED :: status where "SAUNAFS_ERROR_NOTLOCKED \<equiv> 46"
abbreviation (input) SAUNAFS_ERROR_WRONGLOCKID :: status where "SAUNAFS_ERROR_WRONGLOCKID \<equiv> 47"
abbreviation (input) SAUNAFS_ERROR_NOTPOSSIBLE :: status where "SAUNAFS_ERROR_NOTPOSSIBLE \<equiv> 48"
abbreviation (input) SAUNAFS_ERROR_TEMP_NOTPOSSIBLE :: status where "SAUNAFS_ERROR_TEMP_NOTPOSSIBLE \<equiv> 49"
abbreviation (input) SAUNAFS_ERROR_WAITING :: status where "SAUNAFS_ERROR_WAITING \<equiv> 50"
abbreviation (input) SAUNAFS_ERROR_EBADF :: status where "SAUNAFS_ERROR_EBADF \<equiv> 54"
abbreviation (input) SAUNAFS_ERROR_E2BIG :: status where "SAUNAFS_ERROR_E2BIG \<equiv> 56"

subsection \<open>Binary searches\<close>

text \<open>
  On a range partitioned by the predicate, \<open>std::lower_bound\<close> and \<open>std::upper_bound\<close> return the
  position of the first element that does not satisfy it. The modelled callers only search such
  ranges; the component invariants say why.
\<close>

definition partition_point :: "('a \<Rightarrow> bool) \<Rightarrow> 'a list \<Rightarrow> nat" where
  "partition_point P xs = length (takeWhile P xs)"

lemma partition_point_le [simp]: "partition_point P xs \<le> length xs"
  by (simp add: partition_point_def length_takeWhile_le)

lemma take_partition_point [bound_simps]: "take (partition_point P xs) xs = takeWhile P xs"
  by (simp only: partition_point_def takeWhile_eq_take [symmetric])

lemma drop_partition_point [bound_simps]: "drop (partition_point P xs) xs = dropWhile P xs"
  by (simp only: partition_point_def dropWhile_eq_drop [symmetric])

lemma partition_point_simps [simp]:
  "partition_point P [] = 0"
  "partition_point P (x # xs) = (if P x then Suc (partition_point P xs) else 0)"
  by (simp_all add: partition_point_def)

lemma partition_point_mono:
  assumes "\<And>x. x \<in> set xs \<Longrightarrow> P x \<Longrightarrow> Q x"
  shows "partition_point P xs \<le> partition_point Q xs"
  using assms unfolding partition_point_def by (induction xs) auto

text \<open>A list ordered by a key is partitioned by every threshold on that key.\<close>

lemma takeWhile_sorted_filter:
  assumes "sorted_wrt R xs" "\<And>a b. R a b \<Longrightarrow> P b \<Longrightarrow> P a"
  shows "takeWhile P xs = filter P xs" and "dropWhile P xs = filter (\<lambda>x. \<not> P x) xs"
proof -
  have "takeWhile P xs = filter P xs \<and> dropWhile P xs = filter (\<lambda>x. \<not> P x) xs"
    using assms(1)
  proof (induction xs)
    case (Cons x xs)
    show ?case
    proof (cases "P x")
      case False
      with Cons.prems assms(2) have "\<forall>y \<in> set xs. \<not> P y" by auto
      with False show ?thesis
        by (simp add: filter_empty_conv filter_id_conv)
    qed (use Cons in simp)
  qed simp
  then show "takeWhile P xs = filter P xs" and "dropWhile P xs = filter (\<lambda>x. \<not> P x) xs"
    by auto
qed

subsection \<open>Merging and deduplicating sorted ranges\<close>

fun merge_by :: "('a \<Rightarrow> 'a \<Rightarrow> bool) \<Rightarrow> 'a list \<Rightarrow> 'a list \<Rightarrow> 'a list" where
  "merge_by lt [] ys = ys"
| "merge_by lt xs [] = xs"
| "merge_by lt (x # xs) (y # ys) =
     (if lt y x then y # merge_by lt (x # xs) ys else x # merge_by lt xs (y # ys))"

fun unique_by :: "('a \<Rightarrow> 'a \<Rightarrow> bool) \<Rightarrow> 'a list \<Rightarrow> 'a list" where
  "unique_by eq [] = []"
| "unique_by eq [x] = [x]"
| "unique_by eq (x # y # zs) = (if eq x y then unique_by eq (x # zs) else x # unique_by eq (y # zs))"

lemma set_merge_by [simp]: "set (merge_by lt xs ys) = set xs \<union> set ys"
  by (induction lt xs ys rule: merge_by.induct) auto

lemma merge_by_sorted:
  fixes key :: "'a \<Rightarrow> 'k::linorder"
  assumes "sorted (map key xs)" "sorted (map key ys)"
  shows "sorted (map key (merge_by (\<lambda>a b. key a < key b) xs ys))"
  using assms
  by (induction "\<lambda>a b. key a < key b" xs ys rule: merge_by.induct) (auto simp: not_less)

lemma unique_by_subset: "set (unique_by eq xs) \<subseteq> set xs"
  by (induction eq xs rule: unique_by.induct) auto

lemma unique_by_image:
  "key ` set (unique_by (\<lambda>a b. key a = key b) xs) = key ` set xs"
  by (induction "\<lambda>a b. key a = key b" xs rule: unique_by.induct) auto

lemma unique_by_sorted:
  fixes key :: "'a \<Rightarrow> 'k::linorder"
  assumes "sorted (map key xs)"
  shows "sorted_wrt (<) (map key (unique_by (\<lambda>a b. key a = key b) xs))"
  using assms
proof (induction "\<lambda>a b. key a = key b" xs rule: unique_by.induct)
  case (3 x y zs)
  let ?u = "unique_by (\<lambda>a b. key a = key b)"
  show ?case
  proof (cases "key x = key y")
    case True
    with 3 show ?thesis by simp
  next
    case False
    with 3(3) have lt: "\<forall>z \<in> set (y # zs). key x < key z"
      by auto
    have "set (?u (y # zs)) \<subseteq> set (y # zs)"
      by (rule unique_by_subset)
    with lt have "\<forall>z \<in> set (?u (y # zs)). key x < key z"
      by (meson subsetD)
    moreover have "sorted_wrt (<) (map key (?u (y # zs)))"
      using 3(2) [OF False] 3(3) by simp
    ultimately show ?thesis
      using False by simp
  qed
qed simp_all

lemma unique_by_Nil [simp]: "unique_by eq xs = [] \<longleftrightarrow> xs = []"
  by (induction eq xs rule: unique_by.induct) auto

text \<open>Erasing the element a binary search found removes exactly its key.\<close>

lemma erase_at_partition_point:
  fixes key :: "'a \<Rightarrow> 'k::linorder"
  assumes "sorted_wrt (<) (map key xs)" and "i = partition_point (\<lambda>y. key y < k) xs"
  shows "map key (if i < length xs \<and> key (xs ! i) = k then take i xs @ drop (Suc i) xs else xs)
    = filter (\<lambda>k'. k' \<noteq> k) (map key xs)"
  using assms
proof (induction xs arbitrary: i)
  case (Cons x xs)
  show ?case
  proof (cases "key x < k")
    case True
    with Cons.IH [OF _ refl] Cons.prems show ?thesis by (auto split: if_splits)
  next
    case False
    with Cons.prems have "filter (\<lambda>k'. k' \<noteq> k) (map key xs) = map key xs"
      by (fastforce simp: filter_id_conv)
    with False Cons.prems show ?thesis by auto
  qed
qed simp

subsection \<open>Lists\<close>

lemma take_drop_split: "i \<le> j \<Longrightarrow> take i xs @ take (j - i) (drop i xs) @ drop j xs = xs"
  by (metis append.assoc append_take_drop_id le_add_diff_inverse take_add)

lemma singleton_iff: "x \<in> S \<Longrightarrow> S = {k} \<longleftrightarrow> \<not> (\<exists>y \<in> S. y \<noteq> k)"
  by auto

text \<open>Inserting at the lower bound keeps a sequence ordered.\<close>

lemma insert_at_partition_point:
  fixes key :: "'a \<Rightarrow> 'k::linorder"
  assumes "sorted (map key xs)"
  shows "sorted (map key (take (partition_point (\<lambda>y. key y < key x) xs) xs @
           x # drop (partition_point (\<lambda>y. key y < key x) xs) xs))"
  using assms
  by (induction xs) (auto simp: bound_simps not_less dest: set_takeWhileD set_dropWhileD)

lemma mset_insert_at: "mset (take i xs @ x # drop i xs) = add_mset x (mset xs)"
  by (metis append_take_drop_id mset.simps(2) mset_append union_mset_add_mset_right)

lemma mset_cut:
  assumes "i \<le> j"
  shows "mset (take i xs @ drop j xs) + mset (take (j - i) (drop i xs)) = mset xs"
proof -
  have "mset (take i xs) + mset (take (j - i) (drop i xs)) + mset (drop j xs) = mset xs"
    using arg_cong [OF take_drop_split [OF assms, of xs], of mset] by (simp add: ac_simps)
  then show ?thesis by (simp add: ac_simps)
qed

end
