(* ===== verification/Locks.thy ===== *)
theory Locks
  imports LeilFS_Prelude
begin

text \<open>
  Byte-range locks of the metadata server, after \<open>src/src/master/locks.h\<close> and
  \<open>src/src/master/locks.cc\<close>: the lock record \<open>LockRange\<close>, the ordered set \<open>LockRanges\<close> with its
  splitting and merging \<open>insert\<close>, and what a set of ranges means: which owner holds which kind of
  lock at which byte. Offsets are \<open>uint64_t\<close> in the source and are only compared, never added, so
  they are natural numbers here.
\<close>

named_theorems range_defs \<open>the one-line predicates of a lock range\<close>

subsection \<open>Lock ranges\<close>

datatype LockType = kInvalid | kUnlock | kShared | kExclusive

record Owner =
  ow_owner :: nat
  ow_sessionid :: nat
  ow_reqid :: nat
  ow_msgid :: nat

definition owner_eq :: "Owner \<Rightarrow> Owner \<Rightarrow> bool" where
  "owner_eq a b \<longleftrightarrow> ow_owner a = ow_owner b \<and> ow_sessionid a = ow_sessionid b"

definition owner_less :: "Owner \<Rightarrow> Owner \<Rightarrow> bool" where
  "owner_less a b \<longleftrightarrow> ow_owner a < ow_owner b \<or>
     (ow_owner a = ow_owner b \<and> ow_sessionid a < ow_sessionid b)"

record LockRange =
  lr_type :: LockType
  lr_start :: nat
  lr_end :: nat
  lr_owners :: "Owner list"

definition mkLock :: "LockType \<Rightarrow> nat \<Rightarrow> nat \<Rightarrow> Owner \<Rightarrow> LockRange" where
  "mkLock ty s e first = \<lparr>lr_type = ty, lr_start = s, lr_end = e, lr_owners = [first]\<rparr>"

definition overlaps :: "LockRange \<Rightarrow> LockRange \<Rightarrow> bool" where
  "overlaps r other \<longleftrightarrow> lr_start r < lr_end other \<and> lr_start other < lr_end r"

definition sticks :: "LockRange \<Rightarrow> LockRange \<Rightarrow> bool" where
  "sticks r other \<longleftrightarrow> lr_start r = lr_end other \<or> lr_start other = lr_end r"

definition shared :: "LockRange \<Rightarrow> bool" where
  "shared r \<longleftrightarrow> lr_type r = kShared"

definition exclusive :: "LockRange \<Rightarrow> bool" where
  "exclusive r \<longleftrightarrow> lr_type r = kExclusive"

definition unlocking :: "LockRange \<Rightarrow> bool" where
  "unlocking r \<longleftrightarrow> lr_type r = kUnlock \<or> length (lr_owners r) = 0"

definition markUnlocking :: "LockRange \<Rightarrow> LockRange" where
  "markUnlocking r = r\<lparr>lr_type := kUnlock\<rparr>"

text \<open>\<open>owners == other.owners\<close> compares the vectors element by element with \<open>Owner::operator==\<close>.\<close>

definition owners_eq :: "Owner list \<Rightarrow> Owner list \<Rightarrow> bool" where
  "owners_eq xs ys \<longleftrightarrow> list_all2 owner_eq xs ys"

definition eraseOwner :: "Owner \<Rightarrow> LockRange \<Rightarrow> LockRange" where
  "eraseOwner candidate r =
     (let i = partition_point (\<lambda>o'. owner_less o' candidate) (lr_owners r)
      in if i < length (lr_owners r) \<and> owner_eq (lr_owners r ! i) candidate
         then r\<lparr>lr_owners := take i (lr_owners r) @ drop (Suc i) (lr_owners r)\<rparr>
         else r)"

definition addOwners :: "Owner list \<Rightarrow> LockRange \<Rightarrow> LockRange" where
  "addOwners other r =
     r\<lparr>lr_owners := unique_by owner_eq (merge_by owner_less (lr_owners r) other)\<rparr>"

text \<open>\<open>range.owner()\<close>: the only owner of a range with exactly one.\<close>

definition the_owner :: "LockRange \<Rightarrow> Owner" where
  "the_owner r = hd (lr_owners r)"

lemmas [range_defs] = overlaps_def sticks_def shared_def exclusive_def unlocking_def
  markUnlocking_def mkLock_def

subsection \<open>Sets of ranges\<close>

text \<open>
  \<open>LockRanges\<close> is a vector of ranges. \<open>findCollision\<close> and \<open>insert\<close> first find the window
  \<open>[start, end)\<close> of the vector that can touch the new range, one element before the first range
  that starts at or after it included.
\<close>

definition window_start :: "LockRange list \<Rightarrow> nat \<Rightarrow> nat" where
  "window_start data offset =
     (let i = partition_point (\<lambda>other. lr_start other < offset) data
      in if i \<noteq> 0 then i - 1 else i)"

definition window_end :: "LockRange list \<Rightarrow> nat \<Rightarrow> nat" where
  "window_end data offset = partition_point (\<lambda>other. \<not> offset < lr_start other) data"

definition window :: "LockRange list \<Rightarrow> LockRange \<Rightarrow> LockRange list" where
  "window data r = take (window_end data (lr_end r) - window_start data (lr_start r))
                     (drop (window_start data (lr_start r)) data)"

definition collides :: "LockRange \<Rightarrow> LockRange \<Rightarrow> bool" where
  "collides r other \<longleftrightarrow>
     overlaps r other \<and> (\<not> shared r \<or> \<not> shared other) \<and> \<not> owners_eq (lr_owners other) (lr_owners r)"

definition findCollision :: "LockRange list \<Rightarrow> LockRange \<Rightarrow> LockRange option" where
  "findCollision data r =
     (if unlocking r then None else List.find (collides r) (window data r))"

definition fits :: "LockRange list \<Rightarrow> LockRange \<Rightarrow> bool" where
  "fits data r \<longleftrightarrow> findCollision data r = None"

text \<open>
  The loop of \<open>LockRanges::insert\<close>. The window is held as the part before the iterator \<open>it\<close> and the
  part from it to \<open>end\<close>; \<open>insert(it, tmp)\<close> leaves \<open>it\<close> on the new element, which the loop's \<open>++it\<close>
  then passes.
\<close>

definition same_owners :: "LockRange \<Rightarrow> LockRange \<Rightarrow> bool" where
  "same_owners r other \<longleftrightarrow> owners_eq (lr_owners r) (lr_owners other)"

definition retype :: "LockRange \<Rightarrow> LockRange \<Rightarrow> LockRange" where
  "retype r x =
     (if same_owners r x then x\<lparr>lr_type := lr_type r\<rparr>
      else if unlocking r then eraseOwner (the_owner r) x
      else addOwners (lr_owners r) x)"

function insert_loop ::
  "LockRange \<Rightarrow> LockRange list \<Rightarrow> LockRange list \<Rightarrow> LockRange \<times> LockRange list \<times> LockRange list"
where
  "insert_loop r done [] = (r, done, [])"
| "insert_loop r done (other # rest) =
    (if \<not> lr_start r < lr_end r then (r, done, other # rest)
     else if sticks r other \<and> same_owners r other \<and> lr_type r = lr_type other then
       insert_loop
         (r\<lparr>lr_start := min (lr_start r) (lr_start other), lr_end := max (lr_end r) (lr_end other)\<rparr>)
         (done @ [markUnlocking other]) rest
     else if lr_end r \<le> lr_start other then (r, done, other # rest)
     else if \<not> overlaps r other then insert_loop r (done @ [other]) rest
     else if lr_start r < lr_start other then
       insert_loop (r\<lparr>lr_start := lr_start other\<rparr>)
         (done @ [r\<lparr>lr_end := lr_start other\<rparr>]) (other # rest)
     else if lr_start r = lr_start other then
       (if lr_end r < lr_end other then
          insert_loop (r\<lparr>lr_start := lr_end other\<rparr>)
            (done @ [retype r (other\<lparr>lr_end := lr_end r\<rparr>)]) (other\<lparr>lr_start := lr_end r\<rparr> # rest)
        else
          insert_loop (r\<lparr>lr_start := lr_end other\<rparr>) (done @ [retype r other]) rest)
     else
       insert_loop r (done @ [other\<lparr>lr_end := lr_start r\<rparr>]) (other\<lparr>lr_start := lr_start r\<rparr> # rest))"
  by pat_completeness auto
termination
  by (relation "measure (\<lambda>(r, done, rest). 3 * length rest +
        (if rest \<noteq> [] \<and> lr_start r < lr_end r
         then (if lr_start r = lr_start (hd rest) then 1 else 2) else 0))")
    (auto simp: hd_conv_nth)

declare insert_loop.simps [simp del]

text \<open>\<open>LockRanges::insert\<close>: the loop, what is left of the range, and the sweep of dead ranges.\<close>

definition insert_window :: "LockRange \<Rightarrow> LockRange list \<Rightarrow> LockRange list" where
  "insert_window r win =
     (let (r', before, after) = insert_loop r [] win;
          win' = (if lr_start r' < lr_end r' then before @ [r'] @ after else before @ after)
      in filter (\<lambda>x. \<not> unlocking x) win')"

definition insertRange :: "LockRange list \<Rightarrow> LockRange \<Rightarrow> LockRange list" where
  "insertRange data r =
     take (window_start data (lr_start r)) data @
     insert_window r (window data r) @
     drop (window_end data (lr_end r)) data"

subsection \<open>What a set of ranges means\<close>

text \<open>
  \<open>Owner\<close> is ordered and compared by its key alone. \<open>holds data x k t\<close> says that the owner with key
  \<open>k\<close> holds a lock of type \<open>t\<close> on byte \<open>x\<close>; this is the abstract state the operations are
  specified by.
\<close>

type_synonym owner_key = "nat \<times> nat"

definition owner_key :: "Owner \<Rightarrow> owner_key" where
  "owner_key ow = (ow_owner ow, ow_sessionid ow)"

definition keys :: "LockRange \<Rightarrow> owner_key list" where
  "keys r = map owner_key (lr_owners r)"

definition covers :: "LockRange \<Rightarrow> nat \<Rightarrow> bool" where
  "covers r x \<longleftrightarrow> lr_start r \<le> x \<and> x < lr_end r"

definition hold1 :: "LockRange \<Rightarrow> nat \<Rightarrow> owner_key \<Rightarrow> LockType \<Rightarrow> bool" where
  "hold1 r x k t \<longleftrightarrow> \<not> unlocking r \<and> covers r x \<and> k \<in> set (keys r) \<and> lr_type r = t"

definition holds :: "LockRange list \<Rightarrow> nat \<Rightarrow> owner_key \<Rightarrow> LockType \<Rightarrow> bool" where
  "holds data x k t \<longleftrightarrow> (\<exists>r \<in> set data. hold1 r x k t)"

text \<open>Well-formed stored ranges and sets of ranges: the representation invariant.\<close>

definition wf_range :: "LockRange \<Rightarrow> bool" where
  "wf_range r \<longleftrightarrow> lr_start r < lr_end r \<and> (shared r \<or> exclusive r) \<and> lr_owners r \<noteq> [] \<and>
     sorted_wrt (<) (keys r) \<and> (exclusive r \<longrightarrow> length (lr_owners r) = 1)"

definition before :: "LockRange \<Rightarrow> LockRange \<Rightarrow> bool" where
  "before a b \<longleftrightarrow> lr_end a \<le> lr_start b"

definition wf_locks :: "LockRange list \<Rightarrow> bool" where
  "wf_locks data \<longleftrightarrow> (\<forall>r \<in> set data. wf_range r) \<and> sorted_wrt before data"

text \<open>What a client may ask for: a non-empty range of one owner.\<close>

definition wf_request :: "LockRange \<Rightarrow> bool" where
  "wf_request r \<longleftrightarrow> lr_start r < lr_end r \<and> length (lr_owners r) = 1 \<and> lr_type r \<noteq> kInvalid"

subsection \<open>Owners\<close>

lemma owner_eq_key: "owner_eq = (\<lambda>a b. owner_key a = owner_key b)"
  by (auto simp: owner_eq_def owner_key_def fun_eq_iff)

lemma owner_less_key: "owner_less = (\<lambda>a b. owner_key a < owner_key b)"
  by (auto simp: owner_less_def owner_key_def fun_eq_iff less_prod_def')

lemma owners_eq_keys: "owners_eq xs ys \<longleftrightarrow> map owner_key xs = map owner_key ys"
  by (auto simp: owners_eq_def owner_eq_key list_eq_iff_nth_eq list_all2_conv_all_nth)

lemma same_owners_keys: "same_owners r x \<longleftrightarrow> keys r = keys x"
  by (simp add: same_owners_def owners_eq_keys keys_def)

lemma keys_update [simp]:
  "keys (r\<lparr>lr_start := s\<rparr>) = keys r" "keys (r\<lparr>lr_end := e\<rparr>) = keys r"
  "keys (r\<lparr>lr_type := t\<rparr>) = keys r" "keys (mkLock ty s e ow) = [owner_key ow]"
  by (simp_all add: keys_def mkLock_def)

lemma keys_eq_Nil [simp]: "keys r = [] \<longleftrightarrow> lr_owners r = []"
  by (simp add: keys_def)

lemma length_keys [simp]: "length (keys r) = length (lr_owners r)"
  by (simp add: keys_def)

lemma addOwners_fields [simp]:
  "lr_start (addOwners ws r) = lr_start r" "lr_end (addOwners ws r) = lr_end r"
  "lr_type (addOwners ws r) = lr_type r"
  by (simp_all add: addOwners_def)

lemma eraseOwner_fields [simp]:
  "lr_start (eraseOwner w r) = lr_start r" "lr_end (eraseOwner w r) = lr_end r"
  "lr_type (eraseOwner w r) = lr_type r"
  by (simp_all add: eraseOwner_def Let_def)

lemma addOwners_keys:
  assumes "sorted_wrt (<) (keys r)" "sorted_wrt (<) (map owner_key ws)"
  shows "sorted_wrt (<) (keys (addOwners ws r))"
    and "set (keys (addOwners ws r)) = set (keys r) \<union> owner_key ` set ws"
proof -
  let ?m = "merge_by (\<lambda>a b. owner_key a < owner_key b) (lr_owners r) ws"
  have "sorted (map owner_key ?m)"
    using assms by (intro merge_by_sorted) (auto simp: keys_def strict_sorted_iff)
  then show "sorted_wrt (<) (keys (addOwners ws r))"
    unfolding addOwners_def owner_less_key owner_eq_key keys_def
    by (simp add: unique_by_sorted)
  show "set (keys (addOwners ws r)) = set (keys r) \<union> owner_key ` set ws"
    unfolding addOwners_def owner_less_key owner_eq_key keys_def
    by (simp add: unique_by_image image_Un)
qed

lemma eraseOwner_keys:
  assumes "sorted_wrt (<) (keys r)"
  shows "keys (eraseOwner w r) = filter (\<lambda>k. k \<noteq> owner_key w) (keys r)"
  using erase_at_partition_point [OF assms [unfolded keys_def] refl, of "owner_key w"]
  by (auto simp: eraseOwner_def keys_def owner_less_key owner_eq_key Let_def split: if_splits)

subsection \<open>Laws of holding\<close>

lemma hold1_iff: "hold1 r x k t \<longleftrightarrow> lr_type r = t \<and> t \<noteq> kUnlock \<and> covers r x \<and> k \<in> set (keys r)"
  by (auto simp: hold1_def unlocking_def keys_def)

lemma holds_simps [simp]:
  "holds [] x k t \<longleftrightarrow> False"
  "holds (r # rs) x k t \<longleftrightarrow> hold1 r x k t \<or> holds rs x k t"
  "holds (rs @ rs') x k t \<longleftrightarrow> holds rs x k t \<or> holds rs' x k t"
  by (auto simp: holds_def)

lemma holds_live: "holds (filter (\<lambda>r. \<not> unlocking r) rs) x k t \<longleftrightarrow> holds rs x k t"
  by (auto simp: holds_def hold1_def)

lemma hold1_markUnlocking [simp]: "\<not> hold1 (markUnlocking r) x k t"
  by (simp add: hold1_def unlocking_def markUnlocking_def)

lemma unlocking_markUnlocking [simp]: "unlocking (markUnlocking r)"
  by (simp add: unlocking_def markUnlocking_def)

lemma unlocking_update [simp]:
  "unlocking (r\<lparr>lr_start := s\<rparr>) = unlocking r" "unlocking (r\<lparr>lr_end := e\<rparr>) = unlocking r"
  by (simp_all add: unlocking_def)

lemma wf_range_live [simp]: "wf_range r \<Longrightarrow> \<not> unlocking r"
  by (auto simp: wf_range_def unlocking_def shared_def exclusive_def)

lemma holds_covers: "holds rs x k t \<Longrightarrow> \<exists>r \<in> set rs. \<not> unlocking r \<and> covers r x"
  by (auto simp: holds_def hold1_def)

lemma wf_locks_simps [simp]:
  "wf_locks []"
  "wf_locks (r # rs) \<longleftrightarrow> wf_range r \<and> (\<forall>x \<in> set rs. before r x) \<and> wf_locks rs"
  "wf_locks (rs @ rs') \<longleftrightarrow>
     wf_locks rs \<and> wf_locks rs' \<and> (\<forall>x \<in> set rs. \<forall>y \<in> set rs'. before x y)"
  by (auto simp: wf_locks_def sorted_wrt_append)

text \<open>Changing the bounds of a stored range within themselves keeps it well formed.\<close>

lemma wf_range_update [simp]:
  "wf_range r \<Longrightarrow> s < lr_end r \<Longrightarrow> wf_range (r\<lparr>lr_start := s\<rparr>)"
  "wf_range r \<Longrightarrow> lr_start r < e \<Longrightarrow> wf_range (r\<lparr>lr_end := e\<rparr>)"
  by (auto simp: wf_range_def shared_def exclusive_def)

subsection \<open>The request a loop works on\<close>

text \<open>\<open>request_inv k0 t0 r\<close>: \<open>r\<close> is (what is left of) a request of owner \<open>k0\<close> for type \<open>t0\<close>.\<close>

definition request_inv :: "owner_key \<Rightarrow> LockType \<Rightarrow> LockRange \<Rightarrow> bool" where
  "request_inv k0 t0 r \<longleftrightarrow> keys r = [k0] \<and> lr_type r = t0 \<and> t0 \<noteq> kInvalid"

definition compat :: "owner_key \<Rightarrow> LockRange \<Rightarrow> LockRange \<Rightarrow> bool" where
  "compat k0 r b \<longleftrightarrow> unlocking r \<or> keys b = [k0] \<or> shared r \<and> shared b"

lemma request_inv_update [simp]:
  "request_inv k0 t0 (r\<lparr>lr_start := s\<rparr>) = request_inv k0 t0 r"
  "request_inv k0 t0 (r\<lparr>lr_end := e\<rparr>) = request_inv k0 t0 r"
  by (auto simp: request_inv_def)

lemma request_inv_unlocking: "request_inv k0 t0 r \<Longrightarrow> unlocking r \<longleftrightarrow> t0 = kUnlock"
  by (auto simp: request_inv_def unlocking_def keys_def)

lemma request_inv_wf:
  "request_inv k0 t0 r \<Longrightarrow> t0 \<noteq> kUnlock \<Longrightarrow> lr_start r < lr_end r \<Longrightarrow> wf_range r"
  by (cases t0) (auto simp: request_inv_def wf_range_def shared_def exclusive_def keys_def)

lemma retype_fields [simp]:
  "lr_start (retype r x) = lr_start x" "lr_end (retype r x) = lr_end x"
  by (simp_all add: retype_def)

text \<open>Retyping an overlapped range gives its bytes to the request and keeps all other owners.\<close>

lemma retype_hold1:
  assumes "request_inv k0 t0 r" "wf_range x" "compat k0 r x"
  shows "hold1 (retype r x) y k t \<longleftrightarrow>
    covers x y \<and> (if k = k0 then t0 \<noteq> kUnlock \<and> t = t0 else hold1 x y k t)"
proof -
  have u: "unlocking r \<longleftrightarrow> t0 = kUnlock"
    using assms(1) by (rule request_inv_unlocking)
  have k0: "owner_key (the_owner r) = k0" "owner_key ` set (lr_owners r) = {k0}"
    and srt: "sorted_wrt (<) (map owner_key (lr_owners r))"
    using assms(1) by (auto simp: request_inv_def keys_def the_owner_def)
  have wfk: "sorted_wrt (<) (keys x)" and live: "\<not> unlocking x"
    using assms(2) by (auto simp: wf_range_def)
  consider (same) "keys x = [k0]" | (erase) "keys x \<noteq> [k0]" "unlocking r"
    | (add) "keys x \<noteq> [k0]" "\<not> unlocking r" "shared r" "shared x"
    using assms(3) by (auto simp: compat_def)
  then show ?thesis
  proof cases
    case same
    then have "retype r x = x\<lparr>lr_type := t0\<rparr>"
      using assms(1) by (simp add: retype_def same_owners_keys request_inv_def)
    with same show ?thesis
      by (auto simp: hold1_iff covers_def)
  next
    case erase
    then have "retype r x = eraseOwner (the_owner r) x"
      using assms(1) by (simp add: retype_def same_owners_keys request_inv_def)
    moreover have "keys (eraseOwner (the_owner r) x) = filter (\<lambda>k. k \<noteq> k0) (keys x)"
      using eraseOwner_keys [OF wfk] k0 by simp
    ultimately show ?thesis
      using erase u live by (auto simp: hold1_iff covers_def unlocking_def)
  next
    case add
    then have "retype r x = addOwners (lr_owners r) x"
      using assms(1) by (simp add: retype_def same_owners_keys request_inv_def)
    moreover have "set (keys (addOwners (lr_owners r) x)) = insert k0 (set (keys x))"
      using addOwners_keys(2) [OF wfk srt] k0 by simp
    ultimately show ?thesis
      using add u live assms(1)
      by (auto simp: hold1_iff covers_def unlocking_def shared_def request_inv_def)
  qed
qed

lemma retype_wf:
  assumes "request_inv k0 t0 r" "wf_range x" "compat k0 r x" "\<not> unlocking (retype r x)"
  shows "wf_range (retype r x)"
proof -
  have u: "unlocking r \<longleftrightarrow> t0 = kUnlock"
    using assms(1) by (rule request_inv_unlocking)
  have k0: "owner_key (the_owner r) = k0" "owner_key ` set (lr_owners r) = {k0}"
    and srt: "sorted_wrt (<) (map owner_key (lr_owners r))"
    using assms(1) by (auto simp: request_inv_def keys_def the_owner_def)
  have wfk: "sorted_wrt (<) (keys x)" and b: "lr_start x < lr_end x"
    using assms(2) by (auto simp: wf_range_def)
  consider (same) "keys x = [k0]" | (erase) "keys x \<noteq> [k0]" "unlocking r"
    | (add) "keys x \<noteq> [k0]" "\<not> unlocking r" "shared r" "shared x"
    using assms(3) by (auto simp: compat_def)
  then show ?thesis
  proof cases
    case same
    then have eq: "retype r x = x\<lparr>lr_type := t0\<rparr>"
      using assms(1) by (simp add: retype_def same_owners_keys request_inv_def)
    then have "t0 \<noteq> kUnlock" "t0 \<noteq> kInvalid"
      using assms(1,4) same by (auto simp: unlocking_def request_inv_def keys_def)
    then show ?thesis
      using eq same b by (cases t0) (auto simp: wf_range_def shared_def exclusive_def keys_def)
  next
    case erase
    then have eq: "retype r x = eraseOwner (the_owner r) x"
      using assms(1) by (simp add: retype_def same_owners_keys request_inv_def)
    have ks: "keys (eraseOwner (the_owner r) x) = filter (\<lambda>k. k \<noteq> k0) (keys x)"
      using eraseOwner_keys [OF wfk] k0 by simp
    have ne: "lr_owners (retype r x) \<noteq> []"
      using assms(4) by (auto simp: unlocking_def)
    have "length (lr_owners (eraseOwner (the_owner r) x)) \<le> length (lr_owners x)"
      using ks length_filter_le by (metis length_keys)
    moreover have "sorted_wrt (<) (filter (\<lambda>k. k \<noteq> k0) (keys x))"
      using wfk by (rule sorted_wrt_filter)
    ultimately show ?thesis
      using ks ne eq assms(2) b
      by (auto simp: wf_range_def shared_def exclusive_def Suc_le_eq le_Suc_eq)
  next
    case add
    then have "retype r x = addOwners (lr_owners r) x"
      using assms(1) by (simp add: retype_def same_owners_keys request_inv_def)
    then show ?thesis
      using add assms(4) b addOwners_keys(1) [OF wfk srt]
      by (auto simp: wf_range_def shared_def exclusive_def unlocking_def)
  qed
qed

subsection \<open>The insertion loop\<close>

abbreviation live :: "LockRange list \<Rightarrow> LockRange list" where
  "live rs \<equiv> filter (\<lambda>x. \<not> unlocking x) rs"

text \<open>
  What is wanted of the final state, at every point of the loop: the bytes of the request that is
  left belong to the request, all others to the ranges as they are now.
\<close>

definition wants ::
  "owner_key \<Rightarrow> LockType \<Rightarrow> LockRange \<Rightarrow> LockRange list \<Rightarrow> nat \<Rightarrow> owner_key \<Rightarrow> LockType \<Rightarrow> bool" where
  "wants k0 t0 r data x k t \<longleftrightarrow>
     (if k = k0 \<and> covers r x then t0 \<noteq> kUnlock \<and> t = t0 else holds data x k t)"

text \<open>\<open>D\<close>: everything before the iterator, \<open>R\<close>: everything from it on, \<open>S\<close>: what is past the window.\<close>

definition ends_by :: "nat \<Rightarrow> LockRange list \<Rightarrow> bool" where
  "ends_by m rs \<longleftrightarrow> (\<forall>a \<in> set rs. lr_end a \<le> m)"

definition starts_from :: "nat \<Rightarrow> LockRange list \<Rightarrow> bool" where
  "starts_from m rs \<longleftrightarrow> (\<forall>b \<in> set rs. m \<le> lr_start b)"

definition compat_all :: "owner_key \<Rightarrow> LockRange \<Rightarrow> LockRange list \<Rightarrow> bool" where
  "compat_all k0 r rs \<longleftrightarrow> (\<forall>b \<in> set rs. overlaps r b \<longrightarrow> compat k0 r b)"

definition loop_inv ::
  "owner_key \<Rightarrow> LockType \<Rightarrow> LockRange list \<Rightarrow> LockRange \<Rightarrow> LockRange list \<Rightarrow> LockRange list \<Rightarrow> bool" where
  "loop_inv k0 t0 S r D R \<longleftrightarrow>
     request_inv k0 t0 r \<and> wf_locks (live D @ R @ S) \<and>
     (lr_start r < lr_end r \<longrightarrow> ends_by (lr_start r) (live D) \<and> starts_from (lr_end r) S) \<and>
     compat_all k0 r R"

lemma bounds_simps [simp]:
  "ends_by m []" "ends_by m (a # rs) \<longleftrightarrow> lr_end a \<le> m \<and> ends_by m rs"
  "ends_by m (rs @ rs') \<longleftrightarrow> ends_by m rs \<and> ends_by m rs'"
  "starts_from m []" "starts_from m (b # rs) \<longleftrightarrow> m \<le> lr_start b \<and> starts_from m rs"
  "starts_from m (rs @ rs') \<longleftrightarrow> starts_from m rs \<and> starts_from m rs'"
  by (auto simp: ends_by_def starts_from_def)

lemma bounds_mono:
  "ends_by m rs \<Longrightarrow> m \<le> n \<Longrightarrow> ends_by n rs"
  "starts_from n rs \<Longrightarrow> m \<le> n \<Longrightarrow> starts_from m rs"
  by (auto simp: ends_by_def starts_from_def)

lemma wf_locks_Cons:
  "wf_locks (b # rs) \<longleftrightarrow> wf_range b \<and> starts_from (lr_end b) rs \<and> wf_locks rs"
  by (auto simp: starts_from_def before_def)

lemma wf_locks_middle:
  "wf_locks (rs @ b # rs') \<longleftrightarrow> wf_range b \<and> ends_by (lr_start b) rs \<and> starts_from (lr_end b) rs' \<and>
     wf_locks (rs @ rs')"
  by (auto simp: ends_by_def starts_from_def before_def)

lemma wf_range_start_end: "wf_range b \<Longrightarrow> lr_start b < lr_end b"
  by (simp add: wf_range_def)

lemma wf_locks_range: "wf_locks rs \<Longrightarrow> b \<in> set rs \<Longrightarrow> wf_range b"
  by (simp add: wf_locks_def)

lemma compat_all_simps [simp]:
  "compat_all k0 r []"
  "compat_all k0 r (b # rs) \<longleftrightarrow> (overlaps r b \<longrightarrow> compat k0 r b) \<and> compat_all k0 r rs"
  by (auto simp: compat_all_def)

text \<open>Moving the start of the request forward, or growing it over bytes no later range has, keeps
  it compatible with the later ranges.\<close>

lemma compat_all_mono:
  assumes "compat_all k0 r rs" "compat k0 r = compat k0 r'"
    and "\<And>b. b \<in> set rs \<Longrightarrow> overlaps r' b \<Longrightarrow> overlaps r b"
  shows "compat_all k0 r' rs"
  using assms by (auto simp: compat_all_def)

lemma compat_update [simp]:
  "compat k0 (r\<lparr>lr_start := s\<rparr>) = compat k0 r" "compat k0 (r\<lparr>lr_end := e\<rparr>) = compat k0 r"
  "compat k0 r (x\<lparr>lr_start := s\<rparr>) = compat k0 r x" "compat k0 r (x\<lparr>lr_end := e\<rparr>) = compat k0 r x"
  by (auto simp: compat_def fun_eq_iff shared_def)

lemma no_hold_outside:
  assumes "ends_by x (live rs)"
  shows "\<not> holds rs x k t"
  using assms by (force simp: holds_def hold1_def covers_def ends_by_def)

lemma no_hold_before:
  assumes "starts_from m rs" "x < m"
  shows "\<not> holds rs x k t"
  using assms by (force simp: holds_def hold1_def covers_def starts_from_def)

lemma covers_no_hold:
  assumes "loop_inv k0 t0 S r D (other # R)" "covers other x"
  shows "\<not> holds (D @ R @ S) x k t"
proof -
  have "ends_by x (live D)" "starts_from (lr_end other) (R @ S)" "x < lr_end other"
    using assms by (auto simp: loop_inv_def covers_def wf_locks_middle elim!: bounds_mono simp del: wf_locks_simps)
  then show ?thesis
    using no_hold_outside [of x D] no_hold_before [of _ "R @ S"] by auto
qed

lemma loop_invE:
  assumes "loop_inv k0 t0 S r D (other # R)"
  obtains "request_inv k0 t0 r" "wf_range other" "lr_start other < lr_end other"
    "ends_by (lr_start other) (live D)" "starts_from (lr_end other) (R @ S)" "wf_locks (live D @ R @ S)"
    "compat_all k0 r (other # R)" "lr_start r < lr_end r \<Longrightarrow> ends_by (lr_start r) (live D)"
    "lr_start r < lr_end r \<Longrightarrow> starts_from (lr_end r) S"
  using assms unfolding loop_inv_def wf_locks_middle append_Cons
  by (auto intro: wf_range_start_end)

lemma step_merge:
  assumes inv: "loop_inv k0 t0 S r D (other # R)" and ne: "lr_start r < lr_end r"
    and st: "sticks r other" and same: "same_owners r other" "lr_type r = lr_type other"
  defines "r' \<equiv> r\<lparr>lr_start := min (lr_start r) (lr_start other), lr_end := max (lr_end r) (lr_end other)\<rparr>"
  shows "loop_inv k0 t0 S r' (D @ [markUnlocking other]) R"
    and "wants k0 t0 r' (D @ markUnlocking other # R @ S) = wants k0 t0 r (D @ other # R @ S)"
proof -
  from inv obtain ri: "request_inv k0 t0 r" and wf: "wf_range other"
    and oo: "lr_start other < lr_end other" and c: "compat_all k0 r (other # R)"
    and b: "ends_by (lr_start other) (live D)" "starts_from (lr_end other) (R @ S)"
      "wf_locks (live D @ R @ S)"
    and rb: "ends_by (lr_start r) (live D)" "starts_from (lr_end r) S"
    using ne by (elim loop_invE) auto
  have ks: "keys other = [k0]" and ty: "lr_type other = t0"
    using ri same by (auto simp: request_inv_def same_owners_keys)
  have R: "lr_end other \<le> lr_start z" "lr_start z < lr_end z" if "z \<in> set R" for z
    using that b(2) wf_range_start_end [OF wf_locks_range [OF b(3)], of z] by (auto simp: starts_from_def)
  have "compat_all k0 r' R"
  proof (rule compat_all_mono [of k0 r])
    show "overlaps r z" if "z \<in> set R" "overlaps r' z" for z
      using that(2) R [OF that(1)] oo ne st unfolding sticks_def r'_def overlaps_def
      by (elim disjE) simp_all
  qed (use c in \<open>auto simp: r'_def\<close>)
  then show "loop_inv k0 t0 S r' (D @ [markUnlocking other]) R"
    using ri b rb unfolding loop_inv_def by (simp add: r'_def min_def max_def del: wf_locks_simps)
  have t0: "t0 \<noteq> kUnlock"
    using wf ty by (auto simp: wf_range_def shared_def exclusive_def)
  have o: "hold1 other x k t \<longleftrightarrow> covers other x \<and> k = k0 \<and> t = t0" for x k t
    using ks ty t0 by (auto simp: hold1_iff)
  have "covers r' x \<longleftrightarrow> covers r x \<or> covers other x" for x
    using ne oo st unfolding sticks_def r'_def covers_def by (elim disjE) auto
  then show "wants k0 t0 r' (D @ markUnlocking other # R @ S) = wants k0 t0 r (D @ other # R @ S)"
    using covers_no_hold [OF inv] by (auto simp: wants_def fun_eq_iff o t0)
qed

lemma step_skip:
  assumes "loop_inv k0 t0 S r D (other # R)" "lr_start r < lr_end r"
    and "\<not> lr_end r \<le> lr_start other" "\<not> overlaps r other"
  shows "loop_inv k0 t0 S r (D @ [other]) R"
  using assms unfolding loop_inv_def append_Cons wf_locks_middle
  by (auto simp: overlaps_def wf_locks_middle simp del: wf_locks_simps)

lemma step_gap:
  assumes inv: "loop_inv k0 t0 S r D (other # R)" and ov: "overlaps r other"
    and lt: "lr_start r < lr_start other"
  defines "r' \<equiv> r\<lparr>lr_start := lr_start other\<rparr>"
    and "tmp \<equiv> r\<lparr>lr_end := lr_start other\<rparr>"
  shows "loop_inv k0 t0 S r' (D @ [tmp]) (other # R)"
    and "wants k0 t0 r' (D @ tmp # other # R @ S) = wants k0 t0 r (D @ other # R @ S)"
proof -
  have ne: "lr_start r < lr_end r" "lr_start other < lr_end r"
    using ov lt by (auto simp: overlaps_def)
  from inv obtain ri: "request_inv k0 t0 r" and wf: "wf_range other"
    and oo: "lr_start other < lr_end other" and c: "compat_all k0 r (other # R)"
    and b: "ends_by (lr_start other) (live D)" "starts_from (lr_end other) (R @ S)"
      "wf_locks (live D @ R @ S)"
    and rb: "ends_by (lr_start r) (live D)" "starts_from (lr_end r) S"
    using ne by (elim loop_invE) auto
  have "compat_all k0 r' (other # R)"
    using c by (rule compat_all_mono) (use lt in \<open>auto simp: r'_def overlaps_def\<close>)
  moreover have "wf_locks (live (D @ [tmp]) @ other # R @ S)"
  proof (cases "unlocking r")
    case True
    then show ?thesis using b wf by (simp add: tmp_def wf_locks_middle del: wf_locks_simps)
  next
    case False
    then have "wf_range tmp"
      using request_inv_wf [of k0 t0 tmp] ri lt by (auto simp: tmp_def request_inv_unlocking)
    moreover have "starts_from (lr_start other) (R @ S)"
      using b(2) by (rule bounds_mono) (use oo in simp)
    ultimately show ?thesis
      using False b wf rb by (simp add: tmp_def wf_locks_middle del: wf_locks_simps)
  qed
  ultimately show "loop_inv k0 t0 S r' (D @ [tmp]) (other # R)"
    using ri b rb ne unfolding loop_inv_def by (simp add: r'_def tmp_def del: wf_locks_simps)
  have "\<not> holds (D @ other # R @ S) x k t" if "covers tmp x" for x k t
  proof -
    have "ends_by x (live D)" "x < lr_start other"
      using that rb(1) by (auto simp: tmp_def covers_def elim!: bounds_mono)
    moreover have "starts_from (lr_start other) (R @ S)"
      using b(2) by (rule bounds_mono) (use oo in simp)
    ultimately show ?thesis
      using no_hold_outside [of x D] no_hold_before [of "lr_start other" "other # R @ S"] by auto
  qed
  moreover have "covers r x \<longleftrightarrow> covers tmp x \<or> covers r' x" "covers tmp x \<Longrightarrow> \<not> covers r' x" for x
    using ne lt by (auto simp: r'_def tmp_def covers_def)
  moreover have "hold1 tmp x k t \<longleftrightarrow> covers tmp x \<and> k = k0 \<and> t = t0 \<and> t0 \<noteq> kUnlock" for x k t
    using ri by (auto simp: hold1_iff tmp_def request_inv_def)
  ultimately show "wants k0 t0 r' (D @ tmp # other # R @ S) = wants k0 t0 r (D @ other # R @ S)"
    by (auto simp: wants_def fun_eq_iff)
qed

lemma step_split:
  assumes inv: "loop_inv k0 t0 S r D (other # R)" and ov: "overlaps r other"
    and ne: "lr_start r < lr_end r" and lt: "lr_start other < lr_start r"
  defines "o1 \<equiv> other\<lparr>lr_end := lr_start r\<rparr>"
    and "o2 \<equiv> other\<lparr>lr_start := lr_start r\<rparr>"
  shows "loop_inv k0 t0 S r (D @ [o1]) (o2 # R)"
    and "wants k0 t0 r (D @ o1 # o2 # R @ S) = wants k0 t0 r (D @ other # R @ S)"
proof -
  from inv obtain ri: "request_inv k0 t0 r" and wf: "wf_range other"
    and oo: "lr_start other < lr_end other" and c: "compat_all k0 r (other # R)"
    and b: "ends_by (lr_start other) (live D)" "starts_from (lr_end other) (R @ S)"
      "wf_locks (live D @ R @ S)"
    and rb: "ends_by (lr_start r) (live D)" "starts_from (lr_end r) S"
    using ne by (elim loop_invE) auto
  have "lr_start r < lr_end other" using ov by (simp add: overlaps_def)
  then have "wf_range o1" "wf_range o2" "starts_from (lr_start r) (R @ S)" "\<not> unlocking o1"
    using wf lt b(2) by (auto simp: o1_def o2_def elim: bounds_mono)
  then show "loop_inv k0 t0 S r (D @ [o1]) (o2 # R)"
    using ri b rb c ne ov lt unfolding loop_inv_def
    by (simp add: o1_def o2_def wf_locks_middle del: wf_locks_simps)
  have "hold1 other x k t \<longleftrightarrow> hold1 o1 x k t \<or> hold1 o2 x k t" for x k t
    using ov lt by (auto simp: hold1_iff o1_def o2_def covers_def overlaps_def)
  then show "wants k0 t0 r (D @ o1 # o2 # R @ S) = wants k0 t0 r (D @ other # R @ S)"
    by (auto simp: wants_def fun_eq_iff)
qed

lemma step_inside:
  assumes inv: "loop_inv k0 t0 S r D (other # R)" and ne: "lr_start r < lr_end r"
    and eq: "lr_start r = lr_start other" and lt: "lr_end r < lr_end other"
  defines "r' \<equiv> r\<lparr>lr_start := lr_end other\<rparr>"
    and "o1 \<equiv> retype r (other\<lparr>lr_end := lr_end r\<rparr>)"
    and "o2 \<equiv> other\<lparr>lr_start := lr_end r\<rparr>"
  shows "loop_inv k0 t0 S r' (D @ [o1]) (o2 # R)"
    and "wants k0 t0 r' (D @ o1 # o2 # R @ S) = wants k0 t0 r (D @ other # R @ S)"
proof -
  let ?x = "other\<lparr>lr_end := lr_end r\<rparr>"
  from inv obtain ri: "request_inv k0 t0 r" and wf: "wf_range other"
    and oo: "lr_start other < lr_end other" and c: "compat_all k0 r (other # R)"
    and b: "ends_by (lr_start other) (live D)" "starts_from (lr_end other) (R @ S)"
      "wf_locks (live D @ R @ S)"
    by (elim loop_invE) auto
  have wf': "wf_range ?x" "wf_range o2" and c': "compat k0 r ?x"
    using wf ne eq lt c by (auto simp: o2_def overlaps_def)
  have "starts_from (lr_end r) (R @ S)"
    using b(2) by (rule bounds_mono) (use lt in simp)
  moreover have "ends_by (lr_end r) (live D)"
    using b(1) by (rule bounds_mono) (use ne eq in simp)
  moreover have "compat_all k0 r' (o2 # R)"
    using c lt eq ne by (auto simp: r'_def o2_def compat_all_def overlaps_def)
  ultimately show "loop_inv k0 t0 S r' (D @ [o1]) (o2 # R)"
    using ri b wf' retype_wf [OF ri wf'(1) c'] lt eq ne unfolding loop_inv_def
    by (cases "unlocking o1") (simp_all add: r'_def o1_def o2_def wf_locks_middle del: wf_locks_simps)
  show "wants k0 t0 r' (D @ o1 # o2 # R @ S) = wants k0 t0 r (D @ other # R @ S)"
  proof (intro ext)
    fix x k t
    have "covers ?x x \<longleftrightarrow> covers r x" "\<not> covers r' x"
      "covers r x \<Longrightarrow> covers other x \<and> \<not> covers o2 x"
      using lt eq ne by (auto simp: o2_def r'_def covers_def)
    moreover have "hold1 other x k t \<longleftrightarrow> hold1 ?x x k t \<or> hold1 o2 x k t"
      using lt eq ne by (auto simp: hold1_iff o2_def covers_def)
    moreover have "hold1 o2 x k t \<Longrightarrow> covers o2 x" "hold1 ?x x k t \<Longrightarrow> covers ?x x"
      by (simp_all add: hold1_iff)
    ultimately show "wants k0 t0 r' (D @ o1 # o2 # R @ S) x k t = wants k0 t0 r (D @ other # R @ S) x k t"
      using covers_no_hold [OF inv, of x k t]
      by (cases "covers r x"; cases "k = k0")
        (auto simp: o1_def wants_def retype_hold1 [OF ri wf'(1) c'])
  qed
qed

lemma step_over:
  assumes inv: "loop_inv k0 t0 S r D (other # R)" and ne: "lr_start r < lr_end r"
    and eq: "lr_start r = lr_start other" and ge: "\<not> lr_end r < lr_end other"
  defines "r' \<equiv> r\<lparr>lr_start := lr_end other\<rparr>"
  shows "loop_inv k0 t0 S r' (D @ [retype r other]) R"
    and "wants k0 t0 r' (D @ retype r other # R @ S) = wants k0 t0 r (D @ other # R @ S)"
proof -
  from inv obtain ri: "request_inv k0 t0 r" and wf: "wf_range other"
    and oo: "lr_start other < lr_end other" and ca: "compat_all k0 r (other # R)"
    and b: "ends_by (lr_start other) (live D)" "starts_from (lr_end other) (R @ S)"
      "wf_locks (live D @ R @ S)"
    and rb: "starts_from (lr_end r) S"
    using ne by (elim loop_invE) auto
  have c: "compat k0 r other"
    using ca ne eq oo by (auto simp: overlaps_def)
  have "compat_all k0 r' R"
    using ca oo eq by (auto simp: r'_def compat_all_def overlaps_def)
  moreover have "ends_by (lr_end other) (live D)"
    using b(1) by (rule bounds_mono) (use oo in simp)
  ultimately show "loop_inv k0 t0 S r' (D @ [retype r other]) R"
    using ri b rb retype_wf [OF ri wf c] unfolding loop_inv_def
    by (cases "unlocking (retype r other)")
      (simp_all add: r'_def wf_locks_middle del: wf_locks_simps)
  show "wants k0 t0 r' (D @ retype r other # R @ S) = wants k0 t0 r (D @ other # R @ S)"
  proof (intro ext)
    fix x k t
    have "covers r x \<longleftrightarrow> covers other x \<or> covers r' x" "covers other x \<Longrightarrow> \<not> covers r' x"
      using eq ge oo by (auto simp: r'_def covers_def)
    moreover have "hold1 other x k t \<Longrightarrow> covers other x"
      by (simp add: hold1_iff)
    ultimately show "wants k0 t0 r' (D @ retype r other # R @ S) x k t = wants k0 t0 r (D @ other # R @ S) x k t"
      using covers_no_hold [OF inv, of x k t]
      by (cases "covers other x"; cases "k = k0")
        (auto simp: wants_def retype_hold1 [OF ri wf c])
  qed
qed

text \<open>What one run of the loop from a state satisfying the invariant establishes.\<close>

definition loop_post ::
  "owner_key \<Rightarrow> LockType \<Rightarrow> LockRange list \<Rightarrow> LockRange list \<Rightarrow>
   (nat \<Rightarrow> owner_key \<Rightarrow> LockType \<Rightarrow> bool) \<Rightarrow> LockRange \<times> LockRange list \<times> LockRange list \<Rightarrow> bool" where
  "loop_post k0 t0 S P w res \<longleftrightarrow> (case res of (r', D', R') \<Rightarrow>
     loop_inv k0 t0 S r' (P @ D') R' \<and> wants k0 t0 r' (P @ D' @ R' @ S) = w \<and>
     (lr_start r' < lr_end r' \<longrightarrow> starts_from (lr_end r') R'))"

lemma insert_loop_post:
  assumes "loop_inv k0 t0 S r (P @ D) R"
  shows "loop_post k0 t0 S P (wants k0 t0 r (P @ D @ R @ S)) (insert_loop r D R)"
  using assms
proof (induction r D R rule: insert_loop.induct)
  case (1 r D)
  then show ?case by (simp add: insert_loop.simps loop_post_def)
next
  case (2 r D other R)
  note inv = \<open>loop_inv k0 t0 S r (P @ D) (other # R)\<close>
  let ?m = "sticks r other \<and> same_owners r other \<and> lr_type r = lr_type other"
  show ?case
  proof (cases "lr_start r < lr_end r")
    case False
    then show ?thesis using inv by (simp add: insert_loop.simps loop_post_def)
  next
    case ne: True
    show ?thesis
    proof (cases ?m)
      case True
      note st = step_merge [OF inv ne]
      show ?thesis using "2.IH"(1) [OF _ True] ne True st by (simp add: insert_loop.simps)
    next
      case m: False
      show ?thesis
      proof (cases "lr_end r \<le> lr_start other")
        case True
        have "wf_locks (other # R)" using inv by (simp add: loop_inv_def)
        then have "starts_from (lr_end r) (other # R)"
          using True wf_range_start_end [of other] bounds_mono(2) [of "lr_end other" R "lr_end r"]
          by (simp add: wf_locks_Cons del: wf_locks_simps)
        then show ?thesis using inv ne m True by (auto simp: insert_loop.simps loop_post_def)
      next
        case le: False
        show ?thesis
        proof (cases "overlaps r other")
          case False
          note st = step_skip [OF inv ne le False]
          show ?thesis using "2.IH"(2) [OF _ m le False] ne le False st m by (auto simp: insert_loop.simps)
        next
          case ov: True
          note IH = "2.IH"(3-6) [OF _ m le]
          consider (lt) "lr_start r < lr_start other" | (eq) "lr_start r = lr_start other" 
            | (gt) "lr_start other < lr_start r" by linarith
          then show ?thesis
          proof cases
            case lt
            then show ?thesis using IH(1) step_gap [OF inv ov] ne le ov m by (auto simp: insert_loop.simps)
          next
            case eq
            then show ?thesis using IH(2,3) step_inside [OF inv ne] step_over [OF inv ne] ne le ov m 
              by (cases "lr_end r < lr_end other") (auto simp: insert_loop.simps)
          next
            case gt
            then show ?thesis using IH(4) step_split [OF inv ov ne] ne le ov m by (auto simp: insert_loop.simps)
          qed
        qed
      qed
    qed
  qed
qed

subsection \<open>The window\<close>

lemma window_split:
  assumes "lr_start r \<le> lr_end r"
  shows "take (window_start data (lr_start r)) data @ window data r @
           drop (window_end data (lr_end r)) data = data"
proof -
  have "window_start data (lr_start r) \<le> partition_point (\<lambda>other. lr_start other < lr_start r) data"
    by (simp add: window_start_def Let_def)
  also have "\<dots> \<le> window_end data (lr_end r)"
    unfolding window_end_def by (rule partition_point_mono) (use assms in auto)
  finally show ?thesis
    unfolding window_def by (simp add: take_drop_split)
qed

lemma window_prefix:
  assumes "wf_locks data"
  shows "ends_by m (take (window_start data m) data)"
proof -
  let ?i = "partition_point (\<lambda>other. lr_start other < m) data"
  show ?thesis
  proof (cases "?i = 0")
    case True
    then show ?thesis by (simp add: window_start_def)
  next
    case False
    then have i: "?i - 1 < length (takeWhile (\<lambda>other. lr_start other < m) data)"
      by (simp add: partition_point_def)
    then have "lr_start (data ! (?i - 1)) < m"
      using nth_mem [OF i] set_takeWhileD takeWhile_nth [OF i] by metis
    moreover have "?i - 1 < length data"
      using i length_takeWhile_le [of "\<lambda>other. lr_start other < m" data] by linarith
    moreover have "before (data ! j) (data ! (?i - 1))" if "j < ?i - 1" for j
      using assms that \<open>?i - 1 < length data\<close> by (auto simp: wf_locks_def sorted_wrt_iff_nth_less)
    ultimately show ?thesis
      using False by (fastforce simp: ends_by_def window_start_def in_set_conv_nth before_def)
  qed
qed

lemma wf_locks_sorted: "wf_locks data \<Longrightarrow> sorted_wrt (\<lambda>a b. lr_start a < lr_start b) data"
  by (induction data) (auto simp: before_def dest!: wf_range_start_end)

lemma window_suffix:
  assumes "wf_locks data"
  shows "starts_from m (drop (window_end data m) data)"
  using takeWhile_sorted_filter(2) [OF wf_locks_sorted [OF assms], of "\<lambda>other. \<not> m < lr_start other"]
  by (auto simp: window_end_def bound_simps starts_from_def)

text \<open>Every stored range that overlaps a request is in its window.\<close>

lemma window_overlaps:
  assumes "wf_locks data" "lr_start r \<le> lr_end r" "b \<in> set data" "overlaps r b"
  shows "b \<in> set (window data r)"
proof -
  have "b \<notin> set (take (window_start data (lr_start r)) data)"
    using window_prefix [OF assms(1)] assms(4) by (fastforce simp: ends_by_def overlaps_def)
  moreover have "b \<notin> set (drop (window_end data (lr_end r)) data)"
    using window_suffix [OF assms(1)] assms(4) by (fastforce simp: starts_from_def overlaps_def)
  ultimately show ?thesis
    using assms(3) window_split [OF assms(2), of data] by (metis Un_iff set_append)
qed

lemma window_subset: "set (window data r) \<subseteq> set data"
  unfolding window_def by (meson order_trans set_drop_subset set_take_subset)

subsection \<open>Collisions and insertion\<close>

definition conflict :: "LockRange \<Rightarrow> LockRange list \<Rightarrow> bool" where
  "conflict r data \<longleftrightarrow> (\<exists>x k t. covers r x \<and> holds data x k t \<and> k \<noteq> owner_key (the_owner r) \<and>
     \<not> (lr_type r = kShared \<and> t = kShared))"

lemma collides_iff:
  assumes "wf_range b" "wf_request r" 
  shows "collides r b \<longleftrightarrow> overlaps r b \<and> \<not> compat (owner_key (the_owner r)) r b \<or>
    collides r b \<and> unlocking r"
proof -
  have "keys r = [owner_key (the_owner r)]"
    using assms(2) by (auto simp: wf_request_def keys_def the_owner_def length_Suc_conv)
  then show ?thesis
    by (auto simp: collides_def compat_def owners_eq_keys keys_def [symmetric])
qed

lemma fits_compat:
  assumes "wf_locks data" "wf_request r" "fits data r"
  shows "compat_all (owner_key (the_owner r)) r (window data r)"
proof (cases "unlocking r")
  case True
  then show ?thesis by (simp add: compat_all_def compat_def)
next
  case False
  then have "\<forall>b \<in> set (window data r). \<not> collides r b"
    using assms(3) by (auto simp: fits_def findCollision_def find_None_iff)
  moreover have "wf_range b" if "b \<in> set (window data r)" for b
    using that window_subset assms(1) wf_locks_range by blast
  ultimately show ?thesis
    using assms(2) False collides_iff by (auto simp: compat_all_def)
qed

lemma wf_request_inv:
  "wf_request r \<Longrightarrow> request_inv (owner_key (the_owner r)) (lr_type r) r"
  by (auto simp: wf_request_def request_inv_def keys_def the_owner_def length_Suc_conv)

lemma insertRange_loop:
  assumes "wf_locks data" "wf_request r" "fits data r"
  defines "k0 \<equiv> owner_key (the_owner r)" and "t0 \<equiv> lr_type r"
  shows "wf_locks (insertRange data r)"
    and "holds (insertRange data r) = wants k0 t0 r data"
proof -
  let ?P = "take (window_start data (lr_start r)) data"
  let ?S = "drop (window_end data (lr_end r)) data"
  have split: "?P @ window data r @ ?S = data"
    by (rule window_split) (use assms(2) in \<open>simp add: wf_request_def\<close>)
  have P: "live ?P = ?P" and S: "live ?S = ?S" 
    using assms(1) by (auto simp: filter_id_conv wf_locks_def dest: in_set_takeD in_set_dropD)
  have "loop_inv k0 t0 ?S r (?P @ []) (window data r)"
    using assms(1,2) wf_request_inv [OF assms(2)] fits_compat [OF assms(1-3)] 
      window_prefix [OF assms(1)] window_suffix [OF assms(1)] split P
    unfolding loop_inv_def k0_def t0_def by simp
  then have "loop_post k0 t0 ?S ?P (wants k0 t0 r data) (insert_loop r [] (window data r))"
    using insert_loop_post split by fastforce
  moreover obtain r' D' R' where res: "insert_loop r [] (window data r) = (r', D', R')"
    by (cases "insert_loop r [] (window data r)")
  ultimately have inv: "loop_inv k0 t0 ?S r' (?P @ D') R'"
    and w: "wants k0 t0 r' (?P @ D' @ R' @ ?S) = wants k0 t0 r data"
    and e: "lr_start r' < lr_end r' \<Longrightarrow> starts_from (lr_end r') (R' @ ?S) \<and> ends_by (lr_start r') (live (?P @ D'))"
    by (auto simp: loop_post_def loop_inv_def)
  define mid where "mid = (if lr_start r' < lr_end r' then [r'] else [])"
  have ins: "insertRange data r = live (?P @ D' @ mid @ R' @ ?S)"
    using P S by (simp add: insertRange_def insert_window_def res mid_def)
  have R: "live R' = R'"
    using inv wf_locks_range [of R'] by (simp add: filter_id_conv loop_inv_def)
  show "wf_locks (insertRange data r)"
  proof (cases "mid = [] \<or> unlocking r'")
    case True
    then have "live mid = []" by (auto simp: mid_def)
    then show ?thesis
      using inv P S R unfolding ins loop_inv_def by simp
  next
    case False
    then have mid: "mid = [r']" "lr_start r' < lr_end r'" "\<not> unlocking r'"
      by (auto simp: mid_def split: if_splits)
    moreover have "wf_range r'"
      using inv mid by (auto simp: loop_inv_def request_inv_unlocking request_inv_wf)
    ultimately show ?thesis
      using inv e P S R wf_locks_middle [of "?P @ live D'" r' "R' @ ?S"] unfolding ins loop_inv_def
      by (simp del: wf_locks_simps)
  qed
  have no: "\<not> holds (?P @ D' @ R' @ ?S) x k t" if "covers r' x" for x k t
  proof -
    have "ends_by x (live (?P @ D'))" "starts_from (lr_end r') (R' @ ?S)" "x < lr_end r'"
      using that e by (auto simp: covers_def elim: bounds_mono)
    then show ?thesis
      using no_hold_outside [of x "?P @ D'"] no_hold_before [of "lr_end r'" "R' @ ?S"] by auto
  qed
  have h: "holds mid x k t \<longleftrightarrow> covers r' x \<and> k = k0 \<and> t = t0 \<and> t0 \<noteq> kUnlock" for x k t
    using inv by (auto simp: mid_def hold1_iff covers_def loop_inv_def request_inv_def)
  show "holds (insertRange data r) = wants k0 t0 r data"
    unfolding ins holds_live w [symmetric]
    using no by (auto simp: fun_eq_iff wants_def h)
qed

lemma wf_range_keys:
  assumes "wf_range b"
  shows "keys b = [k] \<longleftrightarrow> set (keys b) = {k}"
proof
  assume "set (keys b) = {k}"
  moreover have "distinct (keys b)"
    using assms by (simp add: wf_range_def strict_sorted_iff)
  ultimately have "length (keys b) = 1"
    using distinct_card [of "keys b"] by simp
  with \<open>set (keys b) = {k}\<close> show "keys b = [k]"
    by (cases "keys b") auto
qed simp

lemma not_compat_holder:
  assumes "wf_range b" "\<not> unlocking r" "wf_request r"
  shows "\<not> compat k0 r b \<longleftrightarrow> (\<exists>k \<in> set (keys b). k \<noteq> k0) \<and> \<not> (lr_type r = kShared \<and> lr_type b = kShared)"
proof -
  have "keys b \<noteq> []" using assms(1) by (simp add: wf_range_def)
  then have "hd (keys b) \<in> set (keys b)" by (rule hd_in_set)
  then have "keys b = [k0] \<longleftrightarrow> \<not> (\<exists>k \<in> set (keys b). k \<noteq> k0)"
    unfolding wf_range_keys [OF assms(1)] by (rule singleton_iff)
  then show ?thesis
    using assms(2) by (simp add: compat_def shared_def)
qed

lemma fits_iff_no_conflict:
  assumes "wf_locks data" "wf_request r"
  shows "fits data r \<longleftrightarrow> unlocking r \<or> \<not> conflict r data"
proof (cases "unlocking r")
  case True
  then show ?thesis by (simp add: fits_def findCollision_def)
next
  case False
  let ?k0 = "owner_key (the_owner r)"
  have le: "lr_start r \<le> lr_end r" "lr_start r < lr_end r" using assms(2) by (simp_all add: wf_request_def)
  have wf: "wf_range b" if "b \<in> set data" for b
    using that assms(1) by (rule wf_locks_range [rotated])
  have "fits data r \<longleftrightarrow> (\<forall>b \<in> set (window data r). \<not> collides r b)"
    using False by (auto simp: fits_def findCollision_def find_None_iff)
  also have "\<dots> \<longleftrightarrow> (\<forall>b \<in> set data. overlaps r b \<longrightarrow> compat ?k0 r b)"
    using window_overlaps [OF assms(1) le(1)] window_subset [of data r] wf collides_iff [OF _ assms(2)] False
    by (metis collides_def subsetD)
  also have "\<dots> \<longleftrightarrow> \<not> conflict r data"
  proof -
    have "conflict r data \<longleftrightarrow> (\<exists>b \<in> set data. (\<exists>x. covers r x \<and> covers b x) \<and> \<not> compat ?k0 r b)"
      unfolding conflict_def holds_def hold1_def
      using not_compat_holder [OF wf False assms(2)] wf wf_range_live by blast
    moreover have "(\<exists>x. covers r x \<and> covers b x) \<longleftrightarrow> overlaps r b" if "b \<in> set data" for b
    proof
      assume "overlaps r b"
      then have "covers r (max (lr_start r) (lr_start b)) \<and> covers b (max (lr_start r) (lr_start b))"
        using le wf_range_start_end [OF wf [OF that]] by (auto simp: covers_def overlaps_def)
      then show "\<exists>x. covers r x \<and> covers b x" by blast
    qed (auto simp: covers_def overlaps_def)
    ultimately show ?thesis by blast
  qed
  finally show ?thesis using False by simp
qed

text \<open>In a well-formed set no two owners hold a byte unless both hold it shared.\<close>

lemma wf_locks_exclusion:
  assumes "wf_locks data" "holds data x k t" "holds data x k' t'" "k \<noteq> k'"
  shows "t = kShared \<and> t' = kShared"
proof -
  from assms(2,3) obtain a b where a: "a \<in> set data" "hold1 a x k t" and b: "b \<in> set data" "hold1 b x k' t'"
    by (auto simp: holds_def)
  have "covers a x" "covers b x" using a b by (auto simp: hold1_iff)
  moreover have "before a b \<or> before b a \<or> a = b"
    using assms(1) a(1) b(1) by (induction data) auto
  ultimately have "a = b"
    by (auto simp: before_def covers_def)
  moreover have "wf_range a" using assms(1) a(1) by (rule wf_locks_range)
  ultimately show ?thesis
    using a(2) b(2) assms(4)
    by (auto simp: hold1_iff wf_range_def shared_def exclusive_def keys_def length_Suc_conv)
qed

end
