(* ===== verification/FileLocks.thy ===== *)
theory FileLocks
  imports Locks
begin

text \<open>
  The lock manager of the metadata server: class \<open>FileLocks\<close> of \<open>src/src/master/locks.h\<close> and
  \<open>src/src/master/locks.cc\<close>, which keeps for every inode the set of active ranges and a queue of
  requests that wait. Inode numbers are the keys of the two hash maps; the maps are partial
  functions, and the order in which a hash map is iterated is an argument where it matters.
\<close>

subsection \<open>State and operations\<close>

record FileLocks =
  active_locks :: "inode \<rightharpoonup> LockRange list"
  pending_locks :: "inode \<rightharpoonup> LockRange list"

definition emptyFileLocks :: FileLocks where
  "emptyFileLocks = \<lparr>active_locks = Map.empty, pending_locks = Map.empty\<rparr>"

definition uint64_max :: nat where
  "uint64_max = 18446744073709551615"

text \<open>\<open>operator<\<close> on ranges orders the queue by start and then by end.\<close>

definition range_less :: "LockRange \<Rightarrow> LockRange \<Rightarrow> bool" where
  "range_less r other \<longleftrightarrow> lr_start r < lr_start other \<or>
     (lr_start r = lr_start other \<and> lr_end r < lr_end other)"

definition enqueue :: "inode \<Rightarrow> LockRange \<Rightarrow> FileLocks \<Rightarrow> FileLocks" where
  "enqueue inode lock fl =
     (let queue = (case pending_locks fl inode of None \<Rightarrow> [] | Some q \<Rightarrow> q);
          i = partition_point (\<lambda>x. range_less x lock) queue
      in fl\<lparr>pending_locks := (pending_locks fl)(inode \<mapsto> take i queue @ lock # drop i queue)\<rparr>)"

definition applyLock :: "inode \<Rightarrow> LockRange \<Rightarrow> bool \<Rightarrow> FileLocks \<Rightarrow> bool \<times> FileLocks" where
  "applyLock inode lock nonblocking fl =
     (let locks = (case active_locks fl inode of None \<Rightarrow> [] | Some ls \<Rightarrow> ls);
          fl1 = fl\<lparr>active_locks := (active_locks fl)(inode \<mapsto> locks)\<rparr>
      in if fits locks lock then
           (let locks' = insertRange locks lock
            in (True, fl1\<lparr>active_locks :=
                 (if length locks' = 0 then (active_locks fl1)(inode := None)
                  else (active_locks fl1)(inode \<mapsto> locks'))\<rparr>))
         else if \<not> nonblocking \<and> \<not> unlocking lock then (False, enqueue inode lock fl1)
         else (False, fl1))"

definition sharedLock :: "inode \<Rightarrow> nat \<Rightarrow> nat \<Rightarrow> Owner \<Rightarrow> bool \<Rightarrow> FileLocks \<Rightarrow> bool \<times> FileLocks" where
  "sharedLock inode s e ow nonblocking = applyLock inode (mkLock kShared s e ow) nonblocking"

definition exclusiveLock :: "inode \<Rightarrow> nat \<Rightarrow> nat \<Rightarrow> Owner \<Rightarrow> bool \<Rightarrow> FileLocks \<Rightarrow> bool \<times> FileLocks" where
  "exclusiveLock inode s e ow nonblocking = applyLock inode (mkLock kExclusive s e ow) nonblocking"

definition findCollisionAt ::
  "inode \<Rightarrow> LockType \<Rightarrow> nat \<Rightarrow> nat \<Rightarrow> Owner \<Rightarrow> FileLocks \<Rightarrow> LockRange option" where
  "findCollisionAt inode ty s e ow fl =
     (case active_locks fl inode of None \<Rightarrow> None | Some ls \<Rightarrow> findCollision ls (mkLock ty s e ow))"

definition unlockRange :: "inode \<Rightarrow> nat \<Rightarrow> nat \<Rightarrow> Owner \<Rightarrow> FileLocks \<Rightarrow> bool \<times> FileLocks" where
  "unlockRange inode s e ow = applyLock inode (mkLock kUnlock s e ow) False"

definition unlockInode :: "inode \<Rightarrow> FileLocks \<Rightarrow> FileLocks" where
  "unlockInode inode fl = fl\<lparr>active_locks := (active_locks fl)(inode := None)\<rparr>"

text \<open>
  \<open>unlock(inode, pred)\<close>: \<open>std::remove_if\<close> visits every range once; the lambda erases the owners that
  satisfy the predicate, widens the affected interval when it erased one, and drops a range left
  without owners.
\<close>

definition eraseOwners :: "(Owner \<Rightarrow> bool) \<Rightarrow> LockRange \<Rightarrow> LockRange" where
  "eraseOwners p lock = lock\<lparr>lr_owners := filter (\<lambda>ow. \<not> p ow) (lr_owners lock)\<rparr>"

definition affected :: "(Owner \<Rightarrow> bool) \<Rightarrow> LockRange list \<Rightarrow> nat \<times> nat" where
  "affected p locks =
     fold (\<lambda>lock (s, e). if list_ex p (lr_owners lock) then (min s (lr_start lock), max e (lr_end lock))
                         else (s, e)) locks (uint64_max, 0)"

definition unlockIf :: "inode \<Rightarrow> (Owner \<Rightarrow> bool) \<Rightarrow> FileLocks \<Rightarrow> (nat \<times> nat) \<times> FileLocks" where
  "unlockIf inode p fl =
     (case active_locks fl inode of
        None \<Rightarrow> ((uint64_max, 0), fl)
      | Some locks \<Rightarrow>
          (affected p locks,
           fl\<lparr>active_locks := (active_locks fl)(inode \<mapsto>
             filter (\<lambda>lock. lr_owners lock \<noteq> []) (map (eraseOwners p) locks))\<rparr>))"

definition gatherCandidates :: "inode \<Rightarrow> nat \<Rightarrow> nat \<Rightarrow> FileLocks \<Rightarrow> LockRange list \<times> FileLocks" where
  "gatherCandidates inode s e fl =
     (case pending_locks fl inode of
        None \<Rightarrow> ([], fl)
      | Some queue \<Rightarrow>
          (let i = window_start queue s; j = window_end queue e
           in (take (j - i) (drop i queue),
               fl\<lparr>pending_locks := (pending_locks fl)(inode \<mapsto> take i queue @ drop j queue)\<rparr>)))"

definition removePending :: "inode \<Rightarrow> (LockRange \<Rightarrow> bool) \<Rightarrow> FileLocks \<Rightarrow> FileLocks" where
  "removePending inode p fl =
     (case pending_locks fl inode of
        None \<Rightarrow> fl
      | Some queue \<Rightarrow>
          (let queue' = filter (\<lambda>x. \<not> p x) queue
           in fl\<lparr>pending_locks := (if queue' = [] then (pending_locks fl)(inode := None)
                                  else (pending_locks fl)(inode \<mapsto> queue'))\<rparr>))"

definition clearLocks :: "FileLocks \<Rightarrow> FileLocks" where
  "clearLocks fl = fl\<lparr>active_locks := Map.empty\<rparr>"

definition insertActive :: "inode \<Rightarrow> LockRange \<Rightarrow> FileLocks \<Rightarrow> FileLocks" where
  "insertActive inode lock fl =
     fl\<lparr>active_locks := (active_locks fl)(inode \<mapsto>
       insertRange (case active_locks fl inode of None \<Rightarrow> [] | Some ls \<Rightarrow> ls) lock)\<rparr>"

definition insertPending :: "inode \<Rightarrow> LockRange \<Rightarrow> FileLocks \<Rightarrow> FileLocks" where
  "insertPending inode lock fl =
     (let queue = (case pending_locks fl inode of None \<Rightarrow> [] | Some q \<Rightarrow> q);
          i = partition_point (\<lambda>x. range_less x lock) queue
      in fl\<lparr>pending_locks := (pending_locks fl)(inode \<mapsto> take i queue @ lock # drop i queue)\<rparr>)"

text \<open>
  Listing for the administration tools. \<open>pos\<close>, \<open>index\<close> and \<open>count\<close> are \<open>int64_t\<close>; every owner of a
  range is an entry of its own. The third component of the results says that the function returned
  from inside the loop.
\<close>

record Info =
  inf_version :: nat
  inf_inode :: inode
  inf_owner :: nat
  inf_sessionid :: nat
  inf_type :: LockType
  inf_start :: nat
  inf_end :: nat

definition lockInfo :: "inode \<Rightarrow> LockRange \<Rightarrow> Owner \<Rightarrow> Info" where
  "lockInfo inode lock ow =
     \<lparr>inf_version = 0, inf_inode = inode, inf_owner = ow_owner ow, inf_sessionid = ow_sessionid ow,
      inf_type = lr_type lock, inf_start = lr_start lock, inf_end = lr_end lock\<rparr>"

fun copy_owners ::
  "inode \<Rightarrow> LockRange \<Rightarrow> Owner list \<Rightarrow> int \<Rightarrow> Info list \<Rightarrow> Info list \<times> int \<times> bool" where
  "copy_owners inode lock [] cnt data = (data, cnt, False)"
| "copy_owners inode lock (ow # ows) cnt data =
    (if cnt - 1 \<le> 0 then (data @ [lockInfo inode lock ow], cnt - 1, True)
     else copy_owners inode lock ows (cnt - 1) (data @ [lockInfo inode lock ow]))"

fun copy_locks ::
  "inode \<Rightarrow> LockRange list \<Rightarrow> int \<Rightarrow> int \<Rightarrow> int \<Rightarrow> Info list \<Rightarrow> Info list \<times> int \<times> int \<times> bool" where
  "copy_locks inode [] index pos cnt data = (data, pos, cnt, False)"
| "copy_locks inode (lock # locks) index pos cnt data =
    (if pos + int (length (lr_owners lock)) \<le> index then
       copy_locks inode locks index (pos + int (length (lr_owners lock))) cnt data
     else
       (let skip = max (index - pos) 0 in
        case copy_owners inode lock (drop (nat skip) (lr_owners lock)) cnt data of
          (data', cnt', True) \<Rightarrow> (data', pos + skip, cnt', True)
        | (data', cnt', False) \<Rightarrow> copy_locks inode locks index (pos + skip) cnt' data'))"

fun copy_entries ::
  "(inode \<times> LockRange list) list \<Rightarrow> int \<Rightarrow> int \<Rightarrow> int \<Rightarrow> Info list \<Rightarrow> Info list" where
  "copy_entries [] index pos cnt data = data"
| "copy_entries ((inode, locks) # entries) index pos cnt data =
    (case copy_locks inode locks index pos cnt data of
       (data', pos', cnt', True) \<Rightarrow> data'
     | (data', pos', cnt', False) \<Rightarrow> copy_entries entries index pos' cnt' data')"

definition copyToVector :: "(inode \<times> LockRange list) list \<Rightarrow> int \<Rightarrow> int \<Rightarrow> Info list" where
  "copyToVector full_data index cnt =
     (if cnt \<le> 0 then [] else copy_entries full_data index 0 cnt [])"

definition copyInodeToVector :: "LockRange list \<Rightarrow> inode \<Rightarrow> int \<Rightarrow> int \<Rightarrow> Info list" where
  "copyInodeToVector lock_data inode index cnt =
     (if cnt \<le> 0 then [] else fst (copy_locks inode lock_data index 0 cnt []))"

definition copyActiveInode :: "inode \<Rightarrow> int \<Rightarrow> int \<Rightarrow> FileLocks \<Rightarrow> Info list" where
  "copyActiveInode inode index cnt fl =
     (case active_locks fl inode of None \<Rightarrow> [] | Some ls \<Rightarrow> copyInodeToVector ls inode index cnt)"

definition copyPendingInode :: "inode \<Rightarrow> int \<Rightarrow> int \<Rightarrow> FileLocks \<Rightarrow> Info list" where
  "copyPendingInode inode index cnt fl =
     (case pending_locks fl inode of None \<Rightarrow> [] | Some q \<Rightarrow> copyInodeToVector q inode index cnt)"

text \<open>
  The metadata image: \<open>store\<close> writes the number of entries and one \<open>Info\<close> per owner, \<open>load\<close> reads
  that many back and inserts them one by one. The bytes of an \<open>Info\<close> are left to the serializer.
\<close>

definition entry_infos :: "inode \<times> LockRange list \<Rightarrow> Info list" where
  "entry_infos e = concat (map (\<lambda>lock. map (lockInfo (fst e) lock) (lr_owners lock)) (snd e))"

definition storeLocks :: "(inode \<times> LockRange list) list \<Rightarrow> nat \<times> Info list" where
  "storeLocks data =
     (sum_list (map (\<lambda>e. sum_list (map (\<lambda>lock. length (lr_owners lock)) (snd e))) data),
      concat (map entry_infos data))"

definition infoLock :: "Info \<Rightarrow> LockRange" where
  "infoLock info = mkLock (inf_type info) (inf_start info) (inf_end info)
     \<lparr>ow_owner = inf_owner info, ow_sessionid = inf_sessionid info, ow_reqid = 0, ow_msgid = 0\<rparr>"

text \<open>Reading past the end of the stream is the error \<open>None\<close>.\<close>

fun load_loop :: "nat \<Rightarrow> Info list \<Rightarrow> (inode \<Rightarrow> LockRange \<Rightarrow> FileLocks \<Rightarrow> FileLocks) \<Rightarrow> FileLocks
    \<Rightarrow> (FileLocks \<times> Info list) option" where
  "load_loop 0 stream ins fl = Some (fl, stream)"
| "load_loop (Suc n) [] ins fl = None"
| "load_loop (Suc n) (info # stream) ins fl =
     load_loop n stream ins (ins (inf_inode info) (infoLock info) fl)"

definition pushPending :: "inode \<Rightarrow> LockRange \<Rightarrow> FileLocks \<Rightarrow> FileLocks" where
  "pushPending inode lock fl =
     fl\<lparr>pending_locks := (pending_locks fl)(inode \<mapsto>
       (case pending_locks fl inode of None \<Rightarrow> [] | Some q \<Rightarrow> q) @ [lock])\<rparr>"

definition loadLocks :: "nat \<times> Info list \<Rightarrow> nat \<times> Info list \<Rightarrow> FileLocks \<Rightarrow> FileLocks option" where
  "loadLocks active pending fl =
     (case load_loop (fst active) (snd active) insertActive fl of
        None \<Rightarrow> None
      | Some (fl', _) \<Rightarrow>
          (case load_loop (fst pending) (snd pending) pushPending fl' of
             None \<Rightarrow> None
           | Some (fl'', _) \<Rightarrow> Some fl''))"

subsection \<open>Invariant\<close>

text \<open>
  Active sets are well formed; queues hold lock requests, ordered by start and then by end.
\<close>

definition range_key :: "LockRange \<Rightarrow> nat \<times> nat" where
  "range_key r = (lr_start r, lr_end r)"

definition wf_pending :: "LockRange \<Rightarrow> bool" where
  "wf_pending l \<longleftrightarrow> wf_request l \<and> \<not> unlocking l"

definition wf_queue :: "LockRange list \<Rightarrow> bool" where
  "wf_queue q \<longleftrightarrow> (\<forall>l \<in> set q. wf_pending l) \<and> sorted (map range_key q)"

definition active_of :: "FileLocks \<Rightarrow> inode \<Rightarrow> LockRange list" where
  "active_of fl inode = (case active_locks fl inode of None \<Rightarrow> [] | Some ls \<Rightarrow> ls)"

definition pending_of :: "FileLocks \<Rightarrow> inode \<Rightarrow> LockRange list" where
  "pending_of fl inode = (case pending_locks fl inode of None \<Rightarrow> [] | Some q \<Rightarrow> q)"

definition fl_inv :: "FileLocks \<Rightarrow> bool" where
  "fl_inv fl \<longleftrightarrow> (\<forall>i. wf_locks (active_of fl i)) \<and> (\<forall>i. wf_queue (pending_of fl i))"

text \<open>The abstract state: who holds what at which byte of which inode.\<close>

definition who :: "FileLocks \<Rightarrow> inode \<Rightarrow> nat \<Rightarrow> owner_key \<Rightarrow> LockType \<Rightarrow> bool" where
  "who fl i = holds (active_of fl i)"

lemma range_less_key: "range_less a b \<longleftrightarrow> range_key a < range_key b"
  by (auto simp: range_less_def range_key_def less_prod_def')

lemma of_update [simp]:
  "active_of (fl\<lparr>pending_locks := p\<rparr>) = active_of fl"
  "pending_of (fl\<lparr>active_locks := a\<rparr>) = pending_of fl"
  "active_of (fl\<lparr>active_locks := m(i \<mapsto> ls)\<rparr>) = (active_of (fl\<lparr>active_locks := m\<rparr>))(i := ls)"
  "pending_of (fl\<lparr>pending_locks := m(i \<mapsto> ls)\<rparr>) = (pending_of (fl\<lparr>pending_locks := m\<rparr>))(i := ls)"
  "active_of (fl\<lparr>active_locks := m(i := None)\<rparr>) = (active_of (fl\<lparr>active_locks := m\<rparr>))(i := [])"
  "pending_of (fl\<lparr>pending_locks := m(i := None)\<rparr>) = (pending_of (fl\<lparr>pending_locks := m\<rparr>))(i := [])"
  "active_of (fl\<lparr>active_locks := active_locks fl\<rparr>) = active_of fl"
  "pending_of (fl\<lparr>pending_locks := pending_locks fl\<rparr>) = pending_of fl"
  by (auto simp: active_of_def pending_of_def fun_eq_iff)

lemma enqueue_active [simp]: "active_of (enqueue i lock fl) = active_of fl"
  by (simp add: enqueue_def Let_def)

lemma enqueue_pending:
  "pending_of (enqueue i lock fl) = (pending_of fl)(i :=
     (let n = partition_point (\<lambda>x. range_less x lock) (pending_of fl i)
      in take n (pending_of fl i) @ lock # drop n (pending_of fl i)))"
  by (simp add: enqueue_def Let_def pending_of_def [of fl i])

lemma wf_queue_insert:
  assumes "wf_queue q" "wf_pending lock"
  shows "wf_queue (let n = partition_point (\<lambda>x. range_less x lock) q in take n q @ lock # drop n q)"
  using assms insert_at_partition_point [of range_key q lock] unfolding wf_queue_def Let_def range_less_key
  by (auto dest: in_set_takeD in_set_dropD simp del: map_append)

text \<open>The four outcomes of \<open>applyLock\<close>.\<close>

lemma applyLock_granted: "fst (applyLock i lock nb fl) \<longleftrightarrow> fits (active_of fl i) lock"
  by (simp add: applyLock_def active_of_def Let_def)

lemma applyLock_active:
  "active_of (snd (applyLock i lock nb fl)) =
     (active_of fl)(i := if fits (active_of fl i) lock then insertRange (active_of fl i) lock
                         else active_of fl i)"
  by (simp add: applyLock_def active_of_def [of fl i, symmetric] Let_def)

lemma applyLock_pending:
  "pending_of (snd (applyLock i lock nb fl)) =
     (if fits (active_of fl i) lock \<or> nb \<or> unlocking lock then pending_of fl
      else pending_of (enqueue i lock fl))"
  by (simp add: applyLock_def active_of_def [of fl i, symmetric] Let_def enqueue_pending)

lemma applyLock_inv:
  assumes "fl_inv fl" "wf_request lock"
  shows "fl_inv (snd (applyLock i lock nb fl))"
proof -
  have "wf_locks (insertRange (active_of fl i) lock)" if "fits (active_of fl i) lock"
    using insertRange_loop(1) that assms by (simp add: fl_inv_def)
  moreover have "wf_queue (pending_of (enqueue i lock fl) j)" if "\<not> unlocking lock" for j
    using wf_queue_insert [of "pending_of fl i" lock] that assms
    by (simp add: fl_inv_def wf_pending_def enqueue_pending)
  ultimately show ?thesis
    using assms(1) by (simp add: fl_inv_def applyLock_active applyLock_pending)
qed

lemma applyLock_who:
  assumes "fl_inv fl" "wf_request lock"
  shows "who (snd (applyLock i lock nb fl)) =
     (if fst (applyLock i lock nb fl)
      then (who fl)(i := wants (owner_key (the_owner lock)) (lr_type lock) lock (active_of fl i))
      else who fl)"
  using insertRange_loop(2) [of "active_of fl i" lock] assms
  by (auto simp: who_def applyLock_active applyLock_granted fun_eq_iff fl_inv_def)

lemma applyLock_waiting:
  "mset (pending_of (snd (applyLock i lock nb fl)) j) =
     (if j = i \<and> \<not> fst (applyLock i lock nb fl) \<and> \<not> nb \<and> \<not> unlocking lock
      then add_mset lock (mset (pending_of fl j)) else mset (pending_of fl j))"
  unfolding applyLock_pending applyLock_granted enqueue_pending
  by (simp add: Let_def mset_insert_at del: mset_append)

lemma sorted_take_drop: "i \<le> j \<Longrightarrow> sorted (map f xs) \<Longrightarrow> sorted (map f (take i xs @ drop j xs))"
proof -
  assume "i \<le> j" "sorted (map f xs)"
  then have "sorted (map f (take i xs @ take (j - i) (drop i xs) @ drop j xs))"
    by (simp only: take_drop_split)
  then show ?thesis by (simp add: sorted_append)
qed

lemma window_le:
  assumes "s \<le> e"
  shows "window_start q s \<le> window_end q e"
proof -
  have "window_start q s \<le> partition_point (\<lambda>other. lr_start other < s) q"
    by (simp add: window_start_def Let_def)
  also have "\<dots> \<le> window_end q e"
    unfolding window_end_def by (rule partition_point_mono) (use assms in auto)
  finally show ?thesis .
qed

lemma gatherCandidates_active [simp]: "active_of (snd (gatherCandidates i s e fl)) = active_of fl"
  by (simp add: gatherCandidates_def Let_def split: option.splits)

lemma gatherCandidates_eq:
  "fst (gatherCandidates i s e fl) =
     take (window_end (pending_of fl i) e - window_start (pending_of fl i) s)
       (drop (window_start (pending_of fl i) s) (pending_of fl i))"
  "pending_of (snd (gatherCandidates i s e fl)) = (pending_of fl)(i :=
     take (window_start (pending_of fl i) s) (pending_of fl i) @
     drop (window_end (pending_of fl i) e) (pending_of fl i))"
  by (auto simp: gatherCandidates_def Let_def pending_of_def [of fl i] window_start_def
      window_end_def pending_of_def fun_eq_iff split: option.splits)

lemma gatherCandidates_waiting:
  assumes "s \<le> e"
  shows "mset (pending_of (snd (gatherCandidates i s e fl)) j) +
      (if j = i then mset (fst (gatherCandidates i s e fl)) else {#}) = mset (pending_of fl j)"
  using mset_cut [OF window_le [OF assms], of "pending_of fl i" "pending_of fl i"]
  by (simp add: gatherCandidates_eq del: mset_append)

lemma gatherCandidates_inv:
  assumes "fl_inv fl" "s \<le> e"
  shows "fl_inv (snd (gatherCandidates i s e fl))"
    and "\<forall>c \<in> set (fst (gatherCandidates i s e fl)). wf_pending c"
proof -
  have q: "wf_queue (pending_of fl i)" using assms(1) by (simp add: fl_inv_def)
  then have "wf_queue (take (window_start (pending_of fl i) s) (pending_of fl i) @
     drop (window_end (pending_of fl i) e) (pending_of fl i))"
    using sorted_take_drop [OF window_le [OF assms(2)], of range_key "pending_of fl i" "pending_of fl i"]
    by (auto simp: wf_queue_def dest: in_set_takeD in_set_dropD simp del: map_append)
  then show "fl_inv (snd (gatherCandidates i s e fl))"
    using assms(1) by (simp add: fl_inv_def gatherCandidates_eq)
  show "\<forall>c \<in> set (fst (gatherCandidates i s e fl)). wf_pending c"
    using q by (auto simp: gatherCandidates_eq wf_queue_def dest!: in_set_takeD in_set_dropD)
qed

text \<open>Of the queue, all requests that start in the freed interval are candidates.\<close>

lemma gatherCandidates_complete:
  assumes "fl_inv fl" "c \<in> set (pending_of fl i)" "s \<le> lr_start c" "lr_start c \<le> e"
  shows "c \<in> set (fst (gatherCandidates i s e fl))"
proof -
  let ?q = "pending_of fl i"
  have "sorted (map range_key ?q)" using assms(1) by (simp add: fl_inv_def wf_queue_def)
  then have srt: "sorted_wrt (\<lambda>a b. lr_start a \<le> lr_start b) ?q"
    unfolding sorted_map by (rule sorted_wrt_mono_rel [rotated]) (auto simp: range_key_def less_eq_prod_def)
  have "c \<notin> set (drop (window_end ?q e) ?q)"
    using takeWhile_sorted_filter(2) [OF srt, of "\<lambda>x. \<not> e < lr_start x"] assms(4)
    by (auto simp: window_end_def bound_simps)
  moreover have "c \<notin> set (take (window_start ?q s) ?q)"
  proof
    assume "c \<in> set (take (window_start ?q s) ?q)"
    moreover have "window_start ?q s \<le> partition_point (\<lambda>x. lr_start x < s) ?q"
      by (simp add: window_start_def Let_def)
    ultimately have "c \<in> set (take (partition_point (\<lambda>x. lr_start x < s) ?q) ?q)"
      by (meson set_take_subset_set_take subsetD)
    then have "c \<in> set (takeWhile (\<lambda>x. lr_start x < s) ?q)"
      by (simp only: bound_simps)
    from set_takeWhileD [OF this] show False using assms(3) by simp
  qed
  moreover have "window_start ?q s \<le> window_end ?q e"
    by (rule window_le) (use assms(3,4) in simp)
  from arg_cong [OF take_drop_split [OF this, of ?q], of set]
  have "set ?q = set (take (window_start ?q s) ?q) \<union> set (fst (gatherCandidates i s e fl)) \<union>
      set (drop (window_end ?q e) ?q)"
    unfolding gatherCandidates_eq(1) set_append by blast
  ultimately show ?thesis
    using assms(2) by blast
qed

lemma removePending_active [simp]: "active_of (removePending i p fl) = active_of fl"
  by (simp add: removePending_def Let_def split: option.splits)

lemma removePending_pending:
  "pending_of (removePending i p fl) = (pending_of fl)(i := filter (\<lambda>x. \<not> p x) (pending_of fl i))"
  by (auto simp: removePending_def Let_def pending_of_def fun_eq_iff split: option.splits)

lemma removePending_inv: "fl_inv fl \<Longrightarrow> fl_inv (removePending i p fl)"
  by (auto simp: fl_inv_def removePending_pending wf_queue_def sorted_filter)

lemma unlockInode_eq [simp]:
  "active_of (unlockInode i fl) = (active_of fl)(i := [])" "pending_of (unlockInode i fl) = pending_of fl"
  by (simp_all add: unlockInode_def)

lemma unlockIf_pending [simp]: "pending_of (snd (unlockIf i p fl)) = pending_of fl"
  by (simp add: unlockIf_def split: option.splits)

lemma unlockIf_active:
  "active_of (snd (unlockIf i p fl)) =
     (active_of fl)(i := filter (\<lambda>lock. lr_owners lock \<noteq> []) (map (eraseOwners p) (active_of fl i)))"
  by (auto simp: unlockIf_def active_of_def fun_eq_iff split: option.splits)

lemma wf_range_eraseOwners:
  assumes "wf_range r" "lr_owners (eraseOwners p r) \<noteq> []"
  shows "wf_range (eraseOwners p r)"
proof -
  have "length (filter (\<lambda>ow. \<not> p ow) (lr_owners r)) \<le> length (lr_owners r)" by simp
  moreover have "sorted_wrt (<) (map owner_key (filter (\<lambda>ow. \<not> p ow) (lr_owners r)))"
    using assms(1) by (simp add: wf_range_def keys_def sorted_wrt_map sorted_wrt_filter)
  ultimately show ?thesis
    using assms by (auto simp: wf_range_def eraseOwners_def shared_def exclusive_def keys_def
        length_Suc_conv le_Suc_eq Suc_le_eq)
qed

lemma wf_locks_erase:
  assumes "wf_locks ls"
  shows "wf_locks (filter (\<lambda>lock. lr_owners lock \<noteq> []) (map (eraseOwners p) ls))"
  using assms
proof (induction ls)
  case (Cons r ls)
  have "before (eraseOwners p r) (eraseOwners p x) = before r x" for x
    by (simp add: before_def eraseOwners_def)
  with Cons show ?case by (auto simp: wf_range_eraseOwners)
qed simp

lemma unlockIf_inv: "fl_inv fl \<Longrightarrow> fl_inv (snd (unlockIf i p fl))"
  by (simp add: fl_inv_def unlockIf_active wf_locks_erase)

lemma unlockIf_who:
  assumes "\<And>ow. p ow \<longleftrightarrow> P (owner_key ow)"
  shows "who (snd (unlockIf i p fl)) j x k t \<longleftrightarrow> who fl j x k t \<and> \<not> (j = i \<and> P k)"
proof -
  have "hold1 (eraseOwners p r) x k t \<longleftrightarrow> hold1 r x k t \<and> \<not> P k" for r
    using assms by (auto simp: hold1_iff eraseOwners_def keys_def covers_def)
  then show ?thesis
    by (auto simp: who_def unlockIf_active holds_def hold1_def unlocking_def)
qed

subsection \<open>Listing\<close>

lemma copy_owners_eq:
  assumes "0 < cnt"
  shows "copy_owners i lock ows cnt data =
    (data @ map (lockInfo i lock) (take (nat cnt) ows), cnt - min cnt (int (length ows)),
     cnt \<le> int (length ows))"
  using assms
proof (induction ows arbitrary: cnt data)
  case (Cons ow ows)
  show ?case
  proof (cases "cnt - 1 \<le> 0")
    case True
    with Cons.prems have "cnt = 1" by simp
    then show ?thesis by simp
  next
    case False
    moreover from False have "nat cnt = Suc (nat (cnt - 1))" by simp
    ultimately show ?thesis using Cons.IH [of "cnt - 1"] by auto
  qed
qed auto

definition infos_of :: "inode \<Rightarrow> LockRange list \<Rightarrow> Info list" where
  "infos_of i locks = entry_infos (i, locks)"

lemma infos_of_simps [simp]:
  "infos_of i [] = []"
  "infos_of i (lock # locks) = map (lockInfo i lock) (lr_owners lock) @ infos_of i locks"
  by (simp_all add: infos_of_def entry_infos_def)

lemma copy_locks_eq:
  assumes "0 < cnt" "pos \<le> index"
  shows "case copy_locks i locks index pos cnt data of (data', pos', cnt', ret) \<Rightarrow>
    data' = data @ take (nat cnt) (drop (nat (index - pos)) (infos_of i locks)) \<and>
    (ret \<longleftrightarrow> cnt \<le> int (length (infos_of i locks)) - (index - pos)) \<and>
    (\<not> ret \<longrightarrow> pos' = min index (pos + int (length (infos_of i locks))) \<and>
       cnt' = cnt - max 0 (int (length (infos_of i locks)) - (index - pos)))"
  using assms
proof (induction locks arbitrary: pos cnt data)
  case (Cons lock locks)
  let ?n = "int (length (lr_owners lock))"
  show ?case
  proof (cases "pos + ?n \<le> index")
    case True
    then have "nat (index - pos) - length (lr_owners lock) = nat (index - (pos + ?n))" by simp
    with True show ?thesis
      using Cons.IH [of cnt "pos + ?n" data] Cons.prems
      by (auto simp: drop_map algebra_simps split: prod.splits)
  next
    case False
    define skip where "skip = nat (index - pos)"
    have m: "max (index - pos) 0 = int skip" "nat (max (index - pos) 0) = skip" "index - pos = int skip"
      "pos + int skip = index"
      using Cons.prems by (auto simp: skip_def)
    have lt: "skip < length (lr_owners lock)" using False m by simp
    show ?thesis
    proof (cases "cnt \<le> ?n - int skip")
      case True
      then show ?thesis
        using Cons.prems False lt
        by (auto simp: m copy_owners_eq Let_def drop_map take_map)
    next
      case cnt: False
      let ?d = "data @ map (lockInfo i lock) (drop skip (lr_owners lock))"
      have t: "take (nat cnt) (drop skip (lr_owners lock)) = drop skip (lr_owners lock)"
        using cnt lt by simp
      have "copy_locks i (lock # locks) index pos cnt data =
          copy_locks i locks index index (cnt - (?n - int skip)) ?d"
        using Cons.prems False cnt lt m by (auto simp: copy_owners_eq Let_def t of_nat_diff)
      moreover have "nat cnt - (length (lr_owners lock) - skip) = nat (cnt - (?n - int skip))"
        using lt by (simp add: nat_diff_distrib' of_nat_diff)
      ultimately show ?thesis
        using Cons.IH [of "cnt - (?n - int skip)" index ?d] cnt lt m
        by (auto simp: drop_map take_map t skip_def [symmetric] of_nat_diff split: prod.splits)
    qed
  qed
qed auto

lemma copyInodeToVector_page:
  assumes "0 \<le> index"
  shows "copyInodeToVector locks i index cnt = take (nat cnt) (drop (nat index) (infos_of i locks))"
  using copy_locks_eq [where cnt = cnt and pos = 0 and index = index and i = i and locks = locks and data = "[]"] assms
  by (auto simp: copyInodeToVector_def split: prod.splits)

lemma copy_entries_eq:
  assumes "0 < cnt" "pos \<le> index"
  shows "copy_entries entries index pos cnt data =
    data @ take (nat cnt) (drop (nat (index - pos)) (concat (map entry_infos entries)))"
  using assms
proof (induction entries arbitrary: pos cnt data)
  case (Cons e entries)
  obtain i locks where e: "e = (i, locks)" by force
  obtain data' pos' cnt' ret where res: "copy_locks i locks index pos cnt data = (data', pos', cnt', ret)"
    by (cases "copy_locks i locks index pos cnt data")
  let ?l = "int (length (infos_of i locks))"
  note eq = copy_locks_eq [OF Cons.prems, where i = i and locks = locks and data = data, unfolded res split]
  show ?case
  proof (cases ret)
    case True
    then have "nat cnt \<le> length (infos_of i locks) - nat (index - pos)" using eq Cons.prems by auto
    then show ?thesis using True eq by (simp add: e res infos_of_def)
  next
    case False
    then have c: "0 < cnt'" "pos' \<le> index" using eq Cons.prems by auto
    have "nat (index - pos') = nat (index - pos) - length (infos_of i locks)"
      "nat cnt' = nat cnt - (length (infos_of i locks) - nat (index - pos))"
      "length (infos_of i locks) - nat (index - pos) \<le> nat cnt"
      using False eq Cons.prems by auto
    then show ?thesis
      using False eq Cons.IH [OF c, of data'] by (simp add: e res infos_of_def)
  qed
qed simp

lemma copyToVector_page:
  assumes "0 \<le> index"
  shows "copyToVector entries index cnt = take (nat cnt) (drop (nat index) (concat (map entry_infos entries)))"
  using assms by (auto simp: copyToVector_def copy_entries_eq)

subsection \<open>Saving and restoring\<close>

lemma storeLocks_count: "fst (storeLocks entries) = length (snd (storeLocks entries))"
  by (simp add: storeLocks_def length_concat entry_infos_def comp_def)

lemma load_loop_eq:
  "load_loop (length stream) stream ins fl =
     Some (fold (\<lambda>info. ins (inf_inode info) (infoLock info)) stream fl, [])"
  by (induction stream arbitrary: fl) auto

lemma fold_insertActive:
  "active_of (fold (\<lambda>info. insertActive (inf_inode info) (infoLock info)) stream fl) j =
     fold (\<lambda>info acc. insertRange acc (infoLock info))
       (filter (\<lambda>info. inf_inode info = j) stream) (active_of fl j)"
  "pending_of (fold (\<lambda>info. insertActive (inf_inode info) (infoLock info)) stream fl) = pending_of fl"
  by (induction stream arbitrary: fl)
     (auto simp: insertActive_def active_of_def [of _ "inf_inode _", symmetric])

lemma fold_pushPending:
  "pending_of (fold (\<lambda>info. pushPending (inf_inode info) (infoLock info)) stream fl) j =
     pending_of fl j @ map infoLock (filter (\<lambda>info. inf_inode info = j) stream)"
  "active_of (fold (\<lambda>info. pushPending (inf_inode info) (infoLock info)) stream fl) = active_of fl"
  by (induction stream arbitrary: fl)
     (auto simp: pushPending_def pending_of_def [of _ "inf_inode _", symmetric])

lemma filter_infos_of:
  "filter (\<lambda>info. inf_inode info = j) (infos_of i locks) = (if i = j then infos_of i locks else [])"
  by (induction locks) (auto simp: lockInfo_def filter_map comp_def)

lemma filter_entries:
  assumes "distinct (map fst entries)"
  shows "filter (\<lambda>info. inf_inode info = j) (concat (map entry_infos entries)) =
    infos_of j (case map_of entries j of None \<Rightarrow> [] | Some ls \<Rightarrow> ls)"
proof -
  have none: "filter (\<lambda>info. inf_inode info = j) (concat (map entry_infos es)) = []"
    if "j \<notin> fst ` set es" for es
    using that filter_infos_of [of j] by (induction es) (auto simp: infos_of_def)
  show ?thesis
    using assms
  proof (induction entries)
    case (Cons e es)
    then show ?case
      using filter_infos_of [of j "fst e" "snd e"] none [of es]
      by (cases "fst e = j") (auto simp: infos_of_def)
  qed simp
qed

text \<open>Inserting the owners of a well-formed set one by one gives back a set with the same meaning.\<close>

definition owner_pairs :: "LockRange list \<Rightarrow> (LockRange \<times> Owner) list" where
  "owner_pairs ls = concat (map (\<lambda>r. map (Pair r) (lr_owners r)) ls)"

definition pair_lock :: "LockRange \<times> Owner \<Rightarrow> LockRange" where
  "pair_lock p = infoLock (lockInfo 0 (fst p) (snd p))"

definition pairs_hold :: "(LockRange \<times> Owner) set \<Rightarrow> nat \<Rightarrow> owner_key \<Rightarrow> LockType \<Rightarrow> bool" where
  "pairs_hold ps x k t \<longleftrightarrow> (\<exists>(r, ow) \<in> ps. covers r x \<and> owner_key ow = k \<and> lr_type r = t)"

lemma set_owner_pairs: "(r, ow) \<in> set (owner_pairs ls) \<longleftrightarrow> r \<in> set ls \<and> ow \<in> set (lr_owners r)"
  by (auto simp: owner_pairs_def)

lemma infos_of_pairs:
  "map infoLock (infos_of i ls) = map pair_lock (owner_pairs ls)"
  by (induction ls) (auto simp: owner_pairs_def pair_lock_def infoLock_def lockInfo_def)

lemma pair_lock_fields:
  "wf_range r \<Longrightarrow> wf_request (pair_lock (r, ow))" "covers (pair_lock (r, ow)) = covers r"
  "lr_type (pair_lock (r, ow)) = lr_type r" "owner_key (the_owner (pair_lock (r, ow))) = owner_key ow"
  by (auto simp: pair_lock_def infoLock_def lockInfo_def mkLock_def wf_request_def wf_range_def
      shared_def exclusive_def covers_def fun_eq_iff the_owner_def owner_key_def)

lemma wf_locks_same_byte:
  assumes "wf_locks ls" "a \<in> set ls" "b \<in> set ls" "covers a x" "covers b x"
  shows "a = b"
proof -
  have "before a b \<or> before b a \<or> a = b"
    using assms(1-3) by (induction ls) auto
  with assms(4,5) show ?thesis by (auto simp: before_def covers_def)
qed

lemma fold_pairs:
  assumes "wf_locks ls" "owner_pairs ls = pre @ post"
    and "wf_locks acc" "holds acc = pairs_hold (set pre)"
  shows "wf_locks (fold (\<lambda>p acc. insertRange acc (pair_lock p)) post acc) \<and>
    holds (fold (\<lambda>p acc. insertRange acc (pair_lock p)) post acc) = pairs_hold (set (owner_pairs ls))"
  using assms(2-)
proof (induction post arbitrary: pre acc)
  case (Cons p post)
  obtain r ow where p: "p = (r, ow)" by force
  let ?q = "pair_lock (r, ow)"
  have mem: "r' \<in> set ls \<and> ow' \<in> set (lr_owners r')" if "(r', ow') \<in> set (pre @ [p])" for r' ow'
    using that set_owner_pairs [of r' ow' ls] Cons.prems(1) by auto
  have r: "r \<in> set ls" "ow \<in> set (lr_owners r)" "wf_range r"
    using mem [of r ow] p wf_locks_range [OF assms(1)] by auto
  have same: "r' = r" if "(r', ow') \<in> set pre" "covers r' x" "covers r x" for r' ow' x
    using wf_locks_same_byte [OF assms(1) _ r(1) that(2,3)] mem [of r' ow'] that(1) by simp
  have excl: "lr_type r = kShared \<and> lr_type r' = kShared"
    if "(r', ow') \<in> set pre" "covers r' x" "covers r x" "owner_key ow' \<noteq> owner_key ow" for r' ow' x
  proof -
    have "r' = r" using that(1-3) by (rule same)
    then show ?thesis
      using mem [of r ow'] that(1,4) r
      by (auto simp: wf_range_def shared_def exclusive_def length_Suc_conv)
  qed
  have "\<not> conflict ?q acc"
    using excl unfolding conflict_def Cons.prems(3) pair_lock_fields pairs_hold_def
    by (auto simp del: split_paired_Ex)
  then have f: "fits acc ?q"
    using fits_iff_no_conflict [OF Cons.prems(2)] pair_lock_fields(1) [OF r(3)] by blast
  note ins = insertRange_loop [OF Cons.prems(2) pair_lock_fields(1) [OF r(3)] f]
  have "lr_type r \<noteq> kUnlock" using r(3) by (auto simp: wf_range_def shared_def exclusive_def)
  then have "holds (insertRange acc ?q) = pairs_hold (set (pre @ [p]))"
    using same unfolding ins(2) Cons.prems(3) pair_lock_fields
    by (auto simp: wants_def pairs_hold_def fun_eq_iff p pair_lock_fields Cons.prems(3))
  then show ?case
    using Cons.IH [of "pre @ [p]" "insertRange acc ?q"] Cons.prems(1) ins(1) by (simp add: p)
qed simp

lemma pairs_hold_owner_pairs:
  assumes "wf_locks ls"
  shows "pairs_hold (set (owner_pairs ls)) = holds ls"
proof -
  have "lr_type r \<noteq> kUnlock" if "r \<in> set ls" for r
    using wf_locks_range [OF assms that] by (auto simp: wf_range_def shared_def exclusive_def)
  then have "(\<exists>(r, ow) \<in> set (owner_pairs ls). covers r x \<and> owner_key ow = k \<and> lr_type r = t) \<longleftrightarrow>
      (\<exists>r \<in> set ls. lr_type r = t \<and> t \<noteq> kUnlock \<and> covers r x \<and> k \<in> set (keys r))" for x k t
    by (force simp: set_owner_pairs keys_def)
  then show ?thesis
    by (simp only: pairs_hold_def holds_def hold1_iff fun_eq_iff simp_thms)
qed

lemma fold_infos_of:
  assumes "wf_locks ls"
  shows "wf_locks (fold (\<lambda>info acc. insertRange acc (infoLock info)) (infos_of i ls) [])"
    and "holds (fold (\<lambda>info acc. insertRange acc (infoLock info)) (infos_of i ls) []) = holds ls"
proof -
  have "fold (\<lambda>info acc. insertRange acc (infoLock info)) (infos_of i ls) [] =
    fold (\<lambda>r acc. insertRange acc r) (map infoLock (infos_of i ls)) []"
    by (simp add: fold_map comp_def)
  also have "\<dots> = fold (\<lambda>p acc. insertRange acc (pair_lock p)) (owner_pairs ls) []"
    unfolding infos_of_pairs by (simp add: fold_map comp_def)
  finally show "wf_locks (fold (\<lambda>info acc. insertRange acc (infoLock info)) (infos_of i ls) [])"
    and "holds (fold (\<lambda>info acc. insertRange acc (infoLock info)) (infos_of i ls) []) = holds ls"
    using fold_pairs [OF assms, of "[]" "owner_pairs ls" "[]"] pairs_hold_owner_pairs [OF assms]
    by (simp_all add: fun_eq_iff pairs_hold_def)
qed

text \<open>Request and message numbers are not part of the image.\<close>

definition strip_owner :: "Owner \<Rightarrow> Owner" where
  "strip_owner ow = ow\<lparr>ow_reqid := 0, ow_msgid := 0\<rparr>"

definition strip :: "LockRange \<Rightarrow> LockRange" where
  "strip r = r\<lparr>lr_owners := map strip_owner (lr_owners r)\<rparr>"

lemma infos_of_pending:
  assumes "\<forall>l \<in> set q. wf_request l"
  shows "map infoLock (infos_of i q) = map strip q"
  using assms
  by (induction q) (auto simp: wf_request_def length_Suc_conv infoLock_def lockInfo_def mkLock_def
      strip_def strip_owner_def)

lemma wf_queue_strip: "wf_queue q \<Longrightarrow> wf_queue (map strip q)"
proof -
  have "range_key \<circ> strip = range_key" "wf_pending (strip l) = wf_pending l" for l
    by (auto simp: range_key_def strip_def wf_pending_def wf_request_def unlocking_def)
  then show "wf_queue q \<Longrightarrow> wf_queue (map strip q)" by (simp add: wf_queue_def)
qed

lemma loadLocks_storeLocks:
  assumes "fl_inv fl"
    and "distinct (map fst act)" "map_of act = active_locks fl"
    and "distinct (map fst pend)" "map_of pend = pending_locks fl"
  shows "\<exists>fl'. loadLocks (storeLocks act) (storeLocks pend) emptyFileLocks = Some fl' \<and> fl_inv fl' \<and>
    who fl' = who fl \<and> (\<forall>i. pending_of fl' i = map strip (pending_of fl i))"
proof -
  define f1 where "f1 = fold (\<lambda>info. insertActive (inf_inode info) (infoLock info))
    (snd (storeLocks act)) emptyFileLocks"
  define f2 where "f2 = fold (\<lambda>info. pushPending (inf_inode info) (infoLock info))
    (snd (storeLocks pend)) f1"
  have load: "loadLocks (storeLocks act) (storeLocks pend) emptyFileLocks = Some f2"
    by (simp add: loadLocks_def storeLocks_count load_loop_eq f1_def f2_def)
  have e: "active_of emptyFileLocks j = []" "pending_of emptyFileLocks j = []" for j
    by (simp_all add: active_of_def pending_of_def emptyFileLocks_def)
  have a: "active_of f2 j = fold (\<lambda>info acc. insertRange acc (infoLock info)) (infos_of j (active_of fl j)) []" for j
    using filter_entries [OF assms(2), of j]
    by (simp add: f2_def f1_def fold_pushPending fold_insertActive e storeLocks_def assms(3) active_of_def [of fl])
  have p: "pending_of f2 j = map strip (pending_of fl j)" for j
  proof -
    have "\<forall>l \<in> set (pending_of fl j). wf_request l"
      using assms(1) by (simp add: fl_inv_def wf_queue_def wf_pending_def)
    then show ?thesis
      using filter_entries [OF assms(4), of j] infos_of_pending [of "pending_of fl j" j]
      by (simp add: f2_def f1_def fold_pushPending fold_insertActive e storeLocks_def assms(5) pending_of_def [of fl])
  qed
  have "fl_inv f2"
    using assms(1) fold_infos_of(1) wf_queue_strip by (simp add: fl_inv_def a p)
  moreover have "who f2 = who fl"
    using assms(1) fold_infos_of(2) by (simp add: who_def a fun_eq_iff fl_inv_def)
  ultimately show ?thesis using load p by blast
qed

end
