(* ===== verification/LockService.thy ===== *)
theory LockService
  imports FileLocks "HOL-Library.Sublist"
begin

text \<open>
  The lock operations of the metadata server, after \<open>src/src/master/filesystem_operations.cc\<close>
  (\<open>checkLockPermissions\<close> to \<open>locksRemovePending\<close>), the request handlers of
  \<open>src/src/master/matoclserv.cc\<close> that call them and the replay of their changelog entries in
  \<open>src/src/master/restore.cc\<close>. The node lookup with its permission check is the argument
  \<open>getNode\<close>: mode mask and inode to status.
\<close>

subsection \<open>Requests\<close>

datatype LockKind = kFlock | kPosix | kAll

abbreviation (input) op_unlock :: nat where "op_unlock \<equiv> 1"
abbreviation (input) op_shared :: nat where "op_shared \<equiv> 2"
abbreviation (input) op_exclusive :: nat where "op_exclusive \<equiv> 4"
abbreviation (input) op_interrupt :: nat where "op_interrupt \<equiv> 8"
abbreviation (input) op_nonblock :: nat where "op_nonblock \<equiv> 16"
abbreviation (input) op_release :: nat where "op_release \<equiv> 32"

definition typeOfOp :: "nat \<Rightarrow> LockType" where
  "typeOfOp oper = (if oper = op_unlock then kUnlock else if oper = op_shared then kShared
     else if oper = op_exclusive then kExclusive else kInvalid)"

fun typeCode :: "LockType \<Rightarrow> int" where
  "typeCode kInvalid = 0"
| "typeCode kUnlock = 1"
| "typeCode kShared = 2"
| "typeCode kExclusive = 4"

record FlockWrapper =
  l_type :: int
  l_start :: int
  l_len :: int
  l_pid :: int

definition mkOwner :: "nat \<Rightarrow> nat \<Rightarrow> nat \<Rightarrow> nat \<Rightarrow> Owner" where
  "mkOwner owner sessionid reqid msgid =
     \<lparr>ow_owner = owner, ow_sessionid = sessionid, ow_reqid = reqid, ow_msgid = msgid\<rparr>"

definition checkLockPermissions :: "(nat \<Rightarrow> inode \<Rightarrow> status) \<Rightarrow> inode \<Rightarrow> nat \<Rightarrow> status" where
  "checkLockPermissions getNode inode oper =
     (let modemask = (if oper = op_exclusive then 2 else if oper = op_shared then 4 else 0)
      in getNode modemask inode)"

definition posixLockProbe ::
  "(nat \<Rightarrow> inode \<Rightarrow> status) \<Rightarrow> FileLocks \<Rightarrow> inode \<Rightarrow> nat \<Rightarrow> nat \<Rightarrow> Owner \<Rightarrow> nat \<Rightarrow> FlockWrapper
   \<Rightarrow> status \<times> FlockWrapper" where
  "posixLockProbe getNode locks inode s e ow oper info =
     (if oper \<noteq> op_shared \<and> oper \<noteq> op_exclusive \<and> oper \<noteq> op_unlock then (SAUNAFS_ERROR_EINVAL, info)
      else let st = checkLockPermissions getNode inode oper in
        if st \<noteq> SAUNAFS_STATUS_OK then (st, info)
        else case findCollisionAt inode (typeOfOp oper) s e ow locks of
          None \<Rightarrow> (SAUNAFS_STATUS_OK, info\<lparr>l_type := typeCode kUnlock\<rparr>)
        | Some c \<Rightarrow> (SAUNAFS_ERROR_WAITING,
            info\<lparr>l_type := typeCode (lr_type c), l_start := int (lr_start c),
                 l_len := int (min (lr_end c - lr_start c) (2 ^ 63 - 1))\<rparr>))"

text \<open>The loop over the candidates: each is applied again, and queued again when it still waits.\<close>

definition tryCandidates :: "inode \<Rightarrow> LockRange list \<Rightarrow> FileLocks \<Rightarrow> FileLocks \<times> Owner list" where
  "tryCandidates inode queue fl =
     fold (\<lambda>candidate (fl, applied).
             case applyLock inode candidate False fl of (ok, fl') \<Rightarrow>
               (fl', if ok then applied @ lr_owners candidate else applied))
       queue (fl, [])"

definition manageLockTryLockPending :: "FileLocks \<Rightarrow> inode \<Rightarrow> nat \<Rightarrow> nat \<Rightarrow> FileLocks \<times> Owner list" where
  "manageLockTryLockPending locks inode s e =
     (case gatherCandidates inode s e locks of (queue, locks') \<Rightarrow> tryCandidates inode queue locks')"

text \<open>The switch of \<open>lockOperation\<close>: success, new state, and the bounds after \<open>kRelease\<close> reset them.\<close>

definition lockSwitch ::
  "FileLocks \<Rightarrow> inode \<Rightarrow> nat \<Rightarrow> nat \<Rightarrow> Owner \<Rightarrow> nat \<Rightarrow> bool \<Rightarrow> (bool \<times> FileLocks \<times> nat \<times> nat) option" where
  "lockSwitch locks inode s e ow oper nonblocking =
     (if oper = op_shared then
        (case sharedLock inode s e ow nonblocking locks of (ok, locks') \<Rightarrow> Some (ok, locks', s, e))
      else if oper = op_exclusive then
        (case exclusiveLock inode s e ow nonblocking locks of (ok, locks') \<Rightarrow> Some (ok, locks', s, e))
      else if oper = op_release then
        (case unlockRange inode 0 uint64_max ow
                (removePending inode
                   (\<lambda>lock. ow_sessionid (the_owner lock) = ow_sessionid ow \<and>
                           ow_owner (the_owner lock) = ow_owner ow) locks) of
           (ok, locks') \<Rightarrow> Some (ok, locks', 0, uint64_max))
      else if oper = op_unlock then
        (case unlockRange inode s e ow locks of (ok, locks') \<Rightarrow> Some (ok, locks', s, e))
      else None)"

definition lockOperation ::
  "(nat \<Rightarrow> inode \<Rightarrow> status) \<Rightarrow> FileLocks \<Rightarrow> inode \<Rightarrow> nat \<Rightarrow> nat \<Rightarrow> Owner \<Rightarrow> nat \<Rightarrow> bool
   \<Rightarrow> status \<times> FileLocks \<times> Owner list" where
  "lockOperation getNode locks inode s e ow oper nonblocking =
     (let st = checkLockPermissions getNode inode oper in
      if st \<noteq> SAUNAFS_STATUS_OK then (st, locks, [])
      else case lockSwitch locks inode s e ow oper nonblocking of
        None \<Rightarrow> (SAUNAFS_ERROR_EINVAL, locks, [])
      | Some (success, locks', s', e') \<Rightarrow>
          (let st' = (if success then SAUNAFS_STATUS_OK else SAUNAFS_ERROR_WAITING) in
           if oper = op_exclusive then (st', locks', [])
           else case gatherCandidates inode s' e' locks' of (queue, locks'') \<Rightarrow>
             (case tryCandidates inode queue locks'' of (locks3, applied) \<Rightarrow> (st', locks3, applied))))"

subsection \<open>Metadata and changelog\<close>

datatype lock_change =
  FLCK LockKind inode nat nat nat nat nat
| CLRLCK LockKind inode nat
| FLCKINODE LockKind inode
| RMPLOCK LockKind nat nat inode nat

record LockMetadata =
  flockLocks :: FileLocks
  posixLocks :: FileLocks
  metadataVersion :: nat
  changelog :: "lock_change list"

text \<open>A master logs the change, which also takes a version; others only count it.\<close>

definition changeLog :: "bool \<Rightarrow> lock_change \<Rightarrow> LockMetadata \<Rightarrow> LockMetadata" where
  "changeLog master entry m =
     (if master then m\<lparr>metadataVersion := metadataVersion m + 1, changelog := changelog m @ [entry]\<rparr>
      else m\<lparr>metadataVersion := metadataVersion m + 1\<rparr>)"

definition flockOperation ::
  "bool \<Rightarrow> (nat \<Rightarrow> inode \<Rightarrow> status) \<Rightarrow> inode \<Rightarrow> Owner \<Rightarrow> nat \<Rightarrow> bool \<Rightarrow> LockMetadata
   \<Rightarrow> status \<times> LockMetadata \<times> Owner list" where
  "flockOperation master getNode inode ow oper nonblocking m =
     (case lockOperation getNode (flockLocks m) inode 0 1 ow oper nonblocking of
        (lockResult, locks, applied) \<Rightarrow>
          (lockResult,
           changeLog master (FLCK kFlock inode 0 1 (ow_owner ow) (ow_sessionid ow) oper)
             (m\<lparr>flockLocks := locks\<rparr>), applied))"

definition posixLockOperation ::
  "bool \<Rightarrow> (nat \<Rightarrow> inode \<Rightarrow> status) \<Rightarrow> inode \<Rightarrow> nat \<Rightarrow> nat \<Rightarrow> Owner \<Rightarrow> nat \<Rightarrow> bool \<Rightarrow> LockMetadata
   \<Rightarrow> status \<times> LockMetadata \<times> Owner list" where
  "posixLockOperation master getNode inode s e ow oper nonblocking m =
     (case lockOperation getNode (posixLocks m) inode s e ow oper nonblocking of
        (lockResult, locks, applied) \<Rightarrow>
          (lockResult,
           changeLog master (FLCK kPosix inode s e (ow_owner ow) (ow_sessionid ow) oper)
             (m\<lparr>posixLocks := locks\<rparr>), applied))"

definition getLocks :: "LockKind \<Rightarrow> LockMetadata \<Rightarrow> FileLocks" where
  "getLocks kind m = (if kind = kFlock then flockLocks m else posixLocks m)"

definition setLocks :: "LockKind \<Rightarrow> FileLocks \<Rightarrow> LockMetadata \<Rightarrow> LockMetadata" where
  "setLocks kind locks m = (if kind = kFlock then m\<lparr>flockLocks := locks\<rparr> else m\<lparr>posixLocks := locks\<rparr>)"

definition locksClearSession ::
  "bool \<Rightarrow> LockKind \<Rightarrow> inode \<Rightarrow> nat \<Rightarrow> LockMetadata \<Rightarrow> status \<times> LockMetadata \<times> Owner list" where
  "locksClearSession master kind inode sessionid m =
     (if kind \<noteq> kFlock \<and> kind \<noteq> kPosix then (SAUNAFS_ERROR_EINVAL, m, [])
      else
        (let locks = removePending inode (\<lambda>lock. ow_sessionid (the_owner lock) = sessionid) (getLocks kind m)
         in case unlockIf inode (\<lambda>ow. ow_sessionid ow = sessionid) locks of
           ((first, second), locks') \<Rightarrow>
             (case (if first < second then gatherCandidates inode first second locks' else ([], locks')) of
                (queue, locks'') \<Rightarrow>
                  (SAUNAFS_STATUS_OK,
                   changeLog master (CLRLCK kind inode sessionid) (setLocks kind locks'' m),
                   concat (map lr_owners queue)))))"

definition locksListInode ::
  "LockKind \<Rightarrow> bool \<Rightarrow> inode \<Rightarrow> int \<Rightarrow> int \<Rightarrow> LockMetadata \<Rightarrow> status \<times> Info list" where
  "locksListInode kind pending inode start max' m =
     (if kind \<noteq> kFlock \<and> kind \<noteq> kPosix then (SAUNAFS_ERROR_EINVAL, [])
      else (SAUNAFS_STATUS_OK,
            if pending then copyPendingInode inode start max' (getLocks kind m)
            else copyActiveInode inode start max' (getLocks kind m)))"

definition locksUnlockInode ::
  "bool \<Rightarrow> LockKind \<Rightarrow> inode \<Rightarrow> LockMetadata \<Rightarrow> status \<times> LockMetadata \<times> Owner list" where
  "locksUnlockInode master kind inode m =
     (if kind = kFlock then
        (case manageLockTryLockPending (unlockInode inode (flockLocks m)) inode 0 1 of
           (locks, applied) \<Rightarrow>
             (SAUNAFS_STATUS_OK, changeLog master (FLCKINODE kind inode) (m\<lparr>flockLocks := locks\<rparr>), applied))
      else if kind = kPosix then
        (case manageLockTryLockPending (unlockInode inode (posixLocks m)) inode 0 uint64_max of
           (locks, applied) \<Rightarrow>
             (SAUNAFS_STATUS_OK, changeLog master (FLCKINODE kind inode) (m\<lparr>posixLocks := locks\<rparr>), applied))
      else (SAUNAFS_ERROR_EINVAL, m, []))"

definition locksRemovePending ::
  "bool \<Rightarrow> LockKind \<Rightarrow> nat \<Rightarrow> nat \<Rightarrow> inode \<Rightarrow> nat \<Rightarrow> LockMetadata \<Rightarrow> status \<times> LockMetadata" where
  "locksRemovePending master kind ownerid sessionid inode reqid m =
     (if kind \<noteq> kFlock \<and> kind \<noteq> kPosix then (SAUNAFS_ERROR_EINVAL, m)
      else
        (let locks = removePending inode (\<lambda>range. let ow = the_owner range in
               ow_owner ow = ownerid \<and> ow_sessionid ow = sessionid \<and> ow_reqid ow = reqid)
               (getLocks kind m)
         in (SAUNAFS_STATUS_OK,
             changeLog master (RMPLOCK kind ownerid sessionid inode reqid) (setLocks kind locks m))))"

text \<open>
  Replay (\<open>do_lock_op\<close>, \<open>do_lock_clear_session\<close>, \<open>do_lock_unlock_inode\<close>, \<open>do_remove_pending_op\<close>):
  lock requests are replayed as blocking ones, with request and message number zero.
\<close>

definition do_lock_op ::
  "(nat \<Rightarrow> inode \<Rightarrow> status) \<Rightarrow> LockKind \<Rightarrow> inode \<Rightarrow> nat \<Rightarrow> nat \<Rightarrow> nat \<Rightarrow> nat \<Rightarrow> nat \<Rightarrow> LockMetadata
   \<Rightarrow> status \<times> LockMetadata" where
  "do_lock_op getNode kind inode s e owner sessionid oper m =
     (case (case kind of
              kFlock \<Rightarrow> flockOperation False getNode inode (mkOwner owner sessionid 0 0) oper False m
            | kPosix \<Rightarrow> posixLockOperation False getNode inode s e (mkOwner owner sessionid 0 0) oper False m
            | kAll \<Rightarrow> (SAUNAFS_ERROR_EINVAL, m, [])) of
        (st, m', _) \<Rightarrow> (if st = SAUNAFS_ERROR_WAITING then SAUNAFS_STATUS_OK else st, m'))"

fun replay :: "(nat \<Rightarrow> inode \<Rightarrow> status) \<Rightarrow> lock_change \<Rightarrow> LockMetadata \<Rightarrow> status \<times> LockMetadata" where
  "replay getNode (FLCK kind inode s e owner sessionid oper) m =
     do_lock_op getNode kind inode s e owner sessionid oper m"
| "replay getNode (CLRLCK kind inode sessionid) m =
     (case locksClearSession False kind inode sessionid m of (st, m', _) \<Rightarrow> (st, m'))"
| "replay getNode (FLCKINODE kind inode) m =
     (case locksUnlockInode False kind inode m of (st, m', _) \<Rightarrow> (st, m'))"
| "replay getNode (RMPLOCK kind ownerid sessionid inode reqid) m =
     locksRemovePending False kind ownerid sessionid inode reqid m"

text \<open>The byte range of a \<open>fcntl\<close> request as \<open>matoclserv_fuse_setlk\<close> computes it.\<close>

definition setlkRange :: "FlockWrapper \<Rightarrow> (nat \<times> nat) option" where
  "setlkRange info =
     (if l_start info < 0 \<or> l_len info < 0 then None
      else Some (nat (l_start info),
        if l_len info = 0 then uint64_max
        else (nat (l_start info) + nat (l_len info)) mod 2 ^ 64))"

definition fuse_setlk ::
  "(nat \<Rightarrow> inode \<Rightarrow> status) \<Rightarrow> inode \<Rightarrow> nat \<Rightarrow> nat \<Rightarrow> nat \<Rightarrow> nat \<Rightarrow> FlockWrapper \<Rightarrow> LockMetadata
   \<Rightarrow> status option \<times> LockMetadata \<times> Owner list" where
  "fuse_setlk getNode inode owner sessionid request_id message_id info m =
     (case setlkRange info of
        None \<Rightarrow> (Some SAUNAFS_ERROR_EINVAL, m, [])
      | Some (s, e) \<Rightarrow>
          (let op0 = nat (l_type info mod 65536);
               nonblocking = odd (op0 div op_nonblock);
               oper = (if nonblocking then op0 - op_nonblock else op0)
           in case posixLockOperation True getNode inode s e
                     (mkOwner owner sessionid request_id message_id) oper nonblocking m of
             (st, m', applied) \<Rightarrow>
               (let applied' = (if st \<noteq> SAUNAFS_STATUS_OK \<and> st \<noteq> SAUNAFS_ERROR_WAITING then [] else applied)
                in (if oper = op_release then None
                    else if nonblocking \<or> st \<noteq> SAUNAFS_ERROR_WAITING then Some st else None,
                    m', applied'))))"

subsection \<open>Retrying a queue\<close>

text \<open>
  What the retry loops rely on: an attempt keeps the invariant, a granted request is not queued and
  a refused one goes back to the queue.
\<close>

locale lock_queue =
  fixes attempt :: "'r \<Rightarrow> 's \<Rightarrow> bool \<times> 's"
    and inv :: "'s \<Rightarrow> bool"
    and request :: "'r \<Rightarrow> bool"
    and waiting :: "'s \<Rightarrow> 'r multiset"
    and owners :: "'r \<Rightarrow> 'o list"
  assumes attempt_inv: "inv s \<Longrightarrow> request r \<Longrightarrow> inv (snd (attempt r s))"
    and attempt_granted: "attempt r s = (True, s') \<Longrightarrow> waiting s' = waiting s"
    and attempt_refused: "request r \<Longrightarrow> attempt r s = (False, s') \<Longrightarrow> waiting s' = add_mset r (waiting s)"
begin

lemma retry_inv:
  assumes "inv s" "\<forall>r \<in> set queue. request r"
  shows "inv (fst (fold (\<lambda>c (s, applied). case attempt c s of (ok, s') \<Rightarrow>
           (s', if ok then applied @ owners c else applied)) queue (s, applied)))"
  using assms
proof (induction queue arbitrary: s applied)
  case (Cons c queue)
  then show ?case using attempt_inv [of s c] by (auto split: prod.splits)
qed simp

text \<open>Every request of the queue is either granted and reported, in queue order, or waits again.\<close>

lemma retry_conserves:
  assumes "\<forall>r \<in> set queue. request r"
    and "fold (\<lambda>c (s, applied). case attempt c s of (ok, s') \<Rightarrow>
           (s', if ok then applied @ owners c else applied)) queue (s, applied) = (s', applied')"
  shows "\<exists>granted. subseq granted queue \<and> applied' = applied @ concat (map owners granted) \<and>
    waiting s' + mset granted = waiting s + mset queue"
  using assms
proof (induction queue arbitrary: s applied)
  case Nil
  then show ?case by auto
next
  case (Cons c queue)
  obtain ok s1 where a: "attempt c s = (ok, s1)" by force
  let ?ap = "if ok then applied @ owners c else applied"
  from Cons.IH [of s1 ?ap] Cons.prems a obtain granted where g: "subseq granted queue"
    "applied' = ?ap @ concat (map owners granted)" "waiting s' + mset granted = waiting s1 + mset queue"
    by auto
  show ?case
  proof (cases ok)
    case True
    then show ?thesis
      using g attempt_granted [of c s s1] a by (intro exI [of _ "c # granted"]) auto
  next
    case False
    then show ?thesis
      using g attempt_refused [of c s s1] a Cons.prems(1)
      by (intro exI [of _ granted]) auto
  qed
qed

end

interpretation retry: lock_queue "\<lambda>r. applyLock i r False" fl_inv wf_pending
    "\<lambda>fl. mset (pending_of fl i)" lr_owners for i
proof
  fix s r s'
  show "fl_inv s \<Longrightarrow> wf_pending r \<Longrightarrow> fl_inv (snd (applyLock i r False s))"
    by (simp add: applyLock_inv wf_pending_def)
  show "applyLock i r False s = (True, s') \<Longrightarrow> mset (pending_of s' i) = mset (pending_of s i)"
    using applyLock_waiting [of i r False s i] by simp
  show "wf_pending r \<Longrightarrow> applyLock i r False s = (False, s') \<Longrightarrow>
      mset (pending_of s' i) = add_mset r (mset (pending_of s i))"
    using applyLock_waiting [of i r False s i] by (simp add: wf_pending_def)
qed

lemma tryCandidates_inv:
  assumes "fl_inv fl" "\<forall>c \<in> set queue. wf_pending c"
  shows "fl_inv (fst (tryCandidates i queue fl))"
  unfolding tryCandidates_def using assms by (rule retry.retry_inv)

lemma tryCandidates_conserves:
  assumes "\<forall>c \<in> set queue. wf_pending c" "tryCandidates i queue fl = (fl', applied)"
  shows "\<exists>granted. subseq granted queue \<and> applied = concat (map lr_owners granted) \<and>
    mset (pending_of fl' i) + mset granted = mset (pending_of fl i) + mset queue"
  using retry.retry_conserves [OF assms(1) assms(2) [unfolded tryCandidates_def]] by simp

lemma manageLockTryLockPending_inv:
  assumes "fl_inv fl" "s \<le> e"
  shows "fl_inv (fst (manageLockTryLockPending fl i s e))"
  using gatherCandidates_inv [OF assms, of i]
    tryCandidates_inv [of "snd (gatherCandidates i s e fl)" "fst (gatherCandidates i s e fl)" i]
  by (auto simp: manageLockTryLockPending_def split: prod.splits)

lemma manageLockTryLockPending_conserves:
  assumes "fl_inv fl" "s \<le> e" "manageLockTryLockPending fl i s e = (fl', applied)"
  shows "\<exists>granted. applied = concat (map lr_owners granted) \<and>
    mset (pending_of fl' i) + mset granted = mset (pending_of fl i)"
proof -
  obtain queue fl1 where g: "gatherCandidates i s e fl = (queue, fl1)" by force
  from tryCandidates_conserves [of queue i fl1 fl' applied] gatherCandidates_inv(2) [OF assms(1,2), of i] g assms(3)
  obtain granted where "applied = concat (map lr_owners granted)"
    "mset (pending_of fl' i) + mset granted = mset (pending_of fl1 i) + mset queue"
    by (auto simp: manageLockTryLockPending_def)
  then show ?thesis using gatherCandidates_waiting [OF assms(2), of i fl i] g by auto
qed

subsection \<open>The operations keep the invariant\<close>

lemma wf_request_mkLock:
  "ty \<noteq> kInvalid \<Longrightarrow> s < e \<Longrightarrow> wf_request (mkLock ty s e ow)"
  by (simp add: wf_request_def mkLock_def)

lemma uint64_max_pos [simp]: "0 < uint64_max"
  by (simp add: uint64_max_def)

lemma lockSwitch_inv:
  assumes "fl_inv fl" "s < e" "lockSwitch fl i s e ow oper nb = Some (ok, fl', s', e')"
  shows "fl_inv fl'" "s' < e'"
proof -
  have a: "fl_inv (snd (applyLock i (mkLock ty a b ow) nb f))" if "fl_inv f" "a < b" "ty \<noteq> kInvalid" for f a b ty nb
    using that by (intro applyLock_inv wf_request_mkLock)
  show "fl_inv fl'"
    using assms
    by (auto simp: lockSwitch_def sharedLock_def exclusiveLock_def unlockRange_def case_prod_unfold
        split: if_splits intro!: a removePending_inv)
  show "s' < e'"
    using assms by (auto simp: lockSwitch_def split: if_splits prod.splits)
qed

lemma lockOperation_inv:
  assumes "fl_inv fl" "s < e" "lockOperation getNode fl i s e ow oper nb = (st, fl', applied)"
  shows "fl_inv fl'"
proof (cases "checkLockPermissions getNode i oper = SAUNAFS_STATUS_OK \<and> (\<exists>r. lockSwitch fl i s e ow oper nb = Some r)")
  case True
  then obtain ok fl1 s' e' where sw: "lockSwitch fl i s e ow oper nb = Some (ok, fl1, s', e')" by force
  note inv = lockSwitch_inv [OF assms(1,2) sw]
  show ?thesis
    using assms(3) True sw inv(1) gatherCandidates_inv [OF inv(1), of s' e' i] inv(2)
      tryCandidates_inv [of "snd (gatherCandidates i s' e' fl1)" "fst (gatherCandidates i s' e' fl1)" i]
    by (auto simp: lockOperation_def Let_def split: if_splits prod.splits)
next
  case False
  then show ?thesis using assms by (auto simp: lockOperation_def Let_def split: if_splits option.splits)
qed

definition lm_inv :: "LockMetadata \<Rightarrow> bool" where
  "lm_inv m \<longleftrightarrow> fl_inv (flockLocks m) \<and> fl_inv (posixLocks m)"

lemma changeLog_fields [simp]:
  "flockLocks (changeLog master c m) = flockLocks m" "posixLocks (changeLog master c m) = posixLocks m"
  by (simp_all add: changeLog_def)

lemma getLocks_set [simp]:
  "getLocks kind (setLocks kind fl m) = fl"
  "flockLocks (setLocks kind fl m) = (if kind = kFlock then fl else flockLocks m)"
  "posixLocks (setLocks kind fl m) = (if kind = kFlock then posixLocks m else fl)"
  by (simp_all add: getLocks_def setLocks_def)

text \<open>
  Every change of the lock tables is one of these; byte ranges are not empty, which the handlers
  guarantee.
\<close>

inductive lock_step :: "(nat \<Rightarrow> inode \<Rightarrow> status) \<Rightarrow> LockMetadata \<Rightarrow> LockMetadata \<Rightarrow> bool"
  for getNode where
  flock: "flockOperation master getNode i ow oper nb m = (st, m', applied) \<Longrightarrow> lock_step getNode m m'"
| posix: "s < e \<Longrightarrow> posixLockOperation master getNode i s e ow oper nb m = (st, m', applied) \<Longrightarrow>
    lock_step getNode m m'"
| clear_session: "locksClearSession master kind i sessionid m = (st, m', applied) \<Longrightarrow> lock_step getNode m m'"
| unlock_inode: "locksUnlockInode master kind i m = (st, m', applied) \<Longrightarrow> lock_step getNode m m'"
| remove_pending: "locksRemovePending master kind owner sessionid i reqid m = (st, m') \<Longrightarrow>
    lock_step getNode m m'"


lemma locksClearSession_inv:
  assumes "lm_inv m" "locksClearSession master kind i sessionid m = (st, m', applied)"
  shows "lm_inv m'"
proof -
  define l1 where "l1 = removePending i (\<lambda>lock. ow_sessionid (the_owner lock) = sessionid) (getLocks kind m)"
  define u where "u = unlockIf i (\<lambda>ow. ow_sessionid ow = sessionid) l1"
  have "fl_inv (getLocks kind m)" using assms(1) by (simp add: lm_inv_def getLocks_def)
  then have u: "fl_inv (snd u)" unfolding u_def l1_def by (intro unlockIf_inv removePending_inv)
  have g: "fl_inv (snd (gatherCandidates i a b (snd u)))" if "a < b" for a b
    using gatherCandidates_inv(1) [OF u] that by simp
  show ?thesis
    using assms u g
    by (auto simp: locksClearSession_def lm_inv_def Let_def l1_def [symmetric] u_def [symmetric]
        case_prod_unfold split: if_splits)
qed

lemma lock_step_inv:
  assumes "lock_step getNode m m'" "lm_inv m"
  shows "lm_inv m'"
  using assms
proof (cases rule: lock_step.cases)
  case (flock master i ow oper nb st applied)
  then show ?thesis
    using assms(2) lockOperation_inv [of "flockLocks m" 0 1 getNode i ow oper nb]
    by (auto simp: flockOperation_def lm_inv_def split: prod.splits)
next
  case (posix s e master i ow oper nb st applied)
  then show ?thesis
    using assms(2) lockOperation_inv [of "posixLocks m" s e getNode i ow oper nb]
    by (auto simp: posixLockOperation_def lm_inv_def split: prod.splits)
next
  case (clear_session master kind i sessionid st applied)
  then show ?thesis using locksClearSession_inv assms(2) by blast
next
  case (unlock_inode master kind i st applied)
  have "fl_inv (unlockInode i fl)" if "fl_inv fl" for fl
    using that by (simp add: fl_inv_def)
  then show ?thesis
    using unlock_inode assms(2) manageLockTryLockPending_inv [of "unlockInode i _" _ _ i]
    by (auto simp: locksUnlockInode_def lm_inv_def case_prod_unfold split: if_splits)
next
  case (remove_pending master kind owner sessionid i reqid st)
  then show ?thesis
    using assms(2) removePending_inv
    by (auto simp: locksRemovePending_def lm_inv_def getLocks_def Let_def split: if_splits)
qed

definition initLocks :: LockMetadata where
  "initLocks = \<lparr>flockLocks = emptyFileLocks, posixLocks = emptyFileLocks, metadataVersion = 0,
     changelog = []\<rparr>"

lemma lm_inv_init: "lm_inv initLocks"
  by (simp add: lm_inv_def initLocks_def fl_inv_def active_of_def pending_of_def emptyFileLocks_def
      wf_queue_def)

lemma lock_steps_inv: "(lock_step getNode)\<^sup>*\<^sup>* m m' \<Longrightarrow> lm_inv m \<Longrightarrow> lm_inv m'"
  by (induction rule: rtranclp_induct) (auto intro: lock_step_inv)

subsection \<open>Replay\<close>

text \<open>
  A replica knows the locks without request and message numbers. Nothing but \<open>locksRemovePending\<close>
  looks at them, so the operations commute with \<open>strip\<close>.
\<close>

lemma strip_fields [simp]:
  "lr_type (strip r) = lr_type r" "lr_start (strip r) = lr_start r" "lr_end (strip r) = lr_end r"
  "lr_owners (strip r) = map strip_owner (lr_owners r)"
  "strip (r\<lparr>lr_start := a\<rparr>) = (strip r)\<lparr>lr_start := a\<rparr>"
  "strip (r\<lparr>lr_end := a\<rparr>) = (strip r)\<lparr>lr_end := a\<rparr>"
  "strip (r\<lparr>lr_type := t\<rparr>) = (strip r)\<lparr>lr_type := t\<rparr>"
  "strip (mkLock ty s e ow) = mkLock ty s e (strip_owner ow)"
  by (simp_all add: strip_def mkLock_def)

lemma strip_owner_fields [simp]:
  "ow_owner (strip_owner ow) = ow_owner ow" "ow_sessionid (strip_owner ow) = ow_sessionid ow"
  "owner_key (strip_owner ow) = owner_key ow"
  by (simp_all add: strip_owner_def owner_key_def)

lemma strip_keys [simp]: "keys (strip r) = keys r"
  by (simp add: keys_def)

lemma strip_preds [simp]:
  "overlaps (strip r) (strip s) = overlaps r s" "sticks (strip r) (strip s) = sticks r s"
  "same_owners (strip r) (strip s) = same_owners r s" "shared (strip r) = shared r"
  "unlocking (strip r) = unlocking r" "markUnlocking (strip r) = strip (markUnlocking r)"
  "collides (strip r) (strip s) = collides r s"
  by (simp_all add: overlaps_def sticks_def same_owners_keys shared_def unlocking_def
      markUnlocking_def collides_def owners_eq_keys comp_def)

lemma partition_point_map: "partition_point P (map f xs) = partition_point (P \<circ> f) xs"
  by (induction xs) auto

lemma merge_by_map:
  "merge_by lt (map f xs) (map f ys) = map f (merge_by (\<lambda>a b. lt (f a) (f b)) xs ys)"
  by (induction "\<lambda>a b. lt (f a) (f b)" xs ys rule: merge_by.induct) auto

lemma unique_by_map: "unique_by eq (map f xs) = map f (unique_by (\<lambda>a b. eq (f a) (f b)) xs)"
  by (induction "\<lambda>a b. eq (f a) (f b)" xs rule: unique_by.induct) auto

lemma strip_retype:
  assumes "lr_owners r \<noteq> []"
  shows "retype (strip r) (strip x) = strip (retype r x)"
proof -
  have a: "addOwners (map strip_owner ws) (strip x) = strip (addOwners ws x)" for ws
    by (simp add: addOwners_def strip_def merge_by_map unique_by_map owner_less_key owner_eq_key)
  have e: "eraseOwner (strip_owner w) (strip x) = strip (eraseOwner w x)" for w
    by (auto simp: eraseOwner_def Let_def partition_point_map owner_less_key owner_eq_key comp_def
        strip_def take_map drop_map)
  show ?thesis
    using assms by (simp add: retype_def a e the_owner_def hd_map)
qed

lemma strip_insert_loop:
  assumes "lr_owners r \<noteq> []"
  shows "insert_loop (strip r) (map strip D) (map strip R) =
    (case insert_loop r D R of (r', D', R') \<Rightarrow> (strip r', map strip D', map strip R'))"
  using assms
proof (induction r D R rule: insert_loop.induct)
  case (1 r D)
  then show ?case by (simp add: insert_loop.simps)
next
  case (2 r D other R)
  note e = insert_loop.simps(2) [of r D other R]
    insert_loop.simps(2) [of "strip r" "map strip D" "strip other" "map strip R"]
  show ?case
    unfolding list.map e
    using "2.prems" "2.IH" strip_retype [of r other] strip_retype [of r "other\<lparr>lr_end := lr_end r\<rparr>"]
    by (simp split del: if_split cong: if_cong) (auto split: if_splits)
qed

definition strip_map :: "(inode \<rightharpoonup> LockRange list) \<Rightarrow> inode \<rightharpoonup> LockRange list" where
  "strip_map m = (\<lambda>i. map_option (map strip) (m i))"

definition strip_fl :: "FileLocks \<Rightarrow> FileLocks" where
  "strip_fl fl = \<lparr>active_locks = strip_map (active_locks fl), pending_locks = strip_map (pending_locks fl)\<rparr>"

lemma strip_map_simps [simp]:
  "strip_map (m(i \<mapsto> x)) = (strip_map m)(i \<mapsto> map strip x)"
  "strip_map (m(i := None)) = (strip_map m)(i := None)"
  "strip_map m i = map_option (map strip) (m i)"
  by (auto simp: strip_map_def fun_eq_iff)

lemma strip_fl_simps [simp]:
  "active_locks (strip_fl fl) = strip_map (active_locks fl)"
  "pending_locks (strip_fl fl) = strip_map (pending_locks fl)"
  "strip_fl (fl\<lparr>active_locks := a\<rparr>) = (strip_fl fl)\<lparr>active_locks := strip_map a\<rparr>"
  "strip_fl (fl\<lparr>pending_locks := a\<rparr>) = (strip_fl fl)\<lparr>pending_locks := strip_map a\<rparr>"
  by (simp_all add: strip_fl_def)

lemma strip_window [simp]:
  "window_start (map strip d) n = window_start d n" "window_end (map strip d) n = window_end d n"
  "window (map strip d) (strip r) = map strip (window d r)"
  by (simp_all add: window_def window_start_def window_end_def partition_point_map comp_def take_map drop_map)

lemma find_map: "List.find P (map f xs) = map_option f (List.find (P \<circ> f) xs)"
  by (induction xs) auto

lemma strip_findCollision: "findCollision (map strip d) (strip r) = map_option strip (findCollision d r)"
  by (simp add: findCollision_def find_map comp_def)

lemma strip_fits [simp]: "fits (map strip d) (strip r) = fits d r"
  by (simp add: fits_def strip_findCollision)

lemma strip_insertRange:
  assumes "lr_owners r \<noteq> []"
  shows "insertRange (map strip d) (strip r) = map strip (insertRange d r)"
  using strip_insert_loop [OF assms, of "[]" "window d r"]
  by (auto simp: insertRange_def insert_window_def take_map drop_map filter_map comp_def Let_def
      split: prod.splits)

lemma strip_enqueue: "enqueue i (strip r) (strip_fl fl) = strip_fl (enqueue i r fl)"
  by (auto simp: enqueue_def Let_def partition_point_map comp_def range_less_def take_map drop_map
      split: option.splits)

lemma strip_applyLock:
  assumes "lr_owners r \<noteq> []"
  shows "applyLock i (strip r) nb (strip_fl fl) = map_prod id strip_fl (applyLock i r nb fl)"
proof -
  have "enqueue i (strip r) ((strip_fl fl)\<lparr>active_locks := strip_map a\<rparr>) =
      strip_fl (enqueue i r (fl\<lparr>active_locks := a\<rparr>))" for a
    using strip_enqueue [of i r "fl\<lparr>active_locks := a\<rparr>"] by simp
  note q = this [of "(active_locks fl)(i \<mapsto> x)" for x, simplified]
  show ?thesis
  proof (cases "active_locks fl i")
    case None
    then show ?thesis
      using strip_insertRange [OF assms, of "[]"] strip_fits [of "[]" r] q [of "[]"]
      by (simp add: applyLock_def Let_def)
  next
    case (Some ls)
    then show ?thesis
      using strip_insertRange [OF assms, of ls] q [of ls] by (simp add: applyLock_def Let_def)
  qed
qed

lemma strip_removePending:
  assumes "\<And>r. r \<in> set (pending_of fl i) \<Longrightarrow> p (strip r) = p r"
  shows "removePending i p (strip_fl fl) = strip_fl (removePending i p fl)"
  using assms
  by (auto simp: removePending_def Let_def filter_map comp_def pending_of_def filter_empty_conv
      cong: filter_cong split: option.splits)

lemma strip_gatherCandidates:
  "gatherCandidates i s e (strip_fl fl) = map_prod (map strip) strip_fl (gatherCandidates i s e fl)"
  by (auto simp: gatherCandidates_def Let_def take_map drop_map split: option.splits)

lemma strip_unlockInode: "unlockInode i (strip_fl fl) = strip_fl (unlockInode i fl)"
  by (simp add: unlockInode_def)

lemma strip_unlockIf:
  assumes "\<And>ow. p (strip_owner ow) = p ow"
  shows "unlockIf i p (strip_fl fl) = map_prod id strip_fl (unlockIf i p fl)"
proof -
  have "affected p (map strip ls) = affected p ls" for ls
    unfolding affected_def fold_map comp_def using assms
    by (simp add: list_ex_iff cong: if_cong)
  moreover have "eraseOwners p (strip r) = strip (eraseOwners p r)" for r
    using assms by (simp add: eraseOwners_def strip_def filter_map comp_def)
  ultimately show ?thesis
    by (auto simp: unlockIf_def filter_map comp_def split: option.splits)
qed

lemma strip_tryCandidates:
  assumes "\<forall>c \<in> set queue. lr_owners c \<noteq> []"
  shows "tryCandidates i (map strip queue) (strip_fl fl) =
    map_prod strip_fl (map strip_owner) (tryCandidates i queue fl)"
proof -
  have "fold (\<lambda>c (fl, applied). case applyLock i c False fl of (ok, fl') \<Rightarrow>
            (fl', if ok then applied @ lr_owners c else applied)) (map strip queue) (strip_fl fl, map strip_owner ap) =
        map_prod strip_fl (map strip_owner) (fold (\<lambda>c (fl, applied). case applyLock i c False fl of (ok, fl') \<Rightarrow>
            (fl', if ok then applied @ lr_owners c else applied)) queue (fl, ap))" for ap
    using assms
  proof (induction queue arbitrary: fl ap)
    case (Cons c queue)
    obtain ok fl1 where a: "applyLock i c False fl = (ok, fl1)" by force
    then show ?case
      using Cons.IH [of fl1 "if ok then ap @ lr_owners c else ap"] Cons.prems strip_applyLock [of c i False fl]
      by (cases ok) auto
  qed simp
  from this [of "[]"] show ?thesis by (simp add: tryCandidates_def)
qed

definition strip_meta :: "LockMetadata \<Rightarrow> LockMetadata" where
  "strip_meta m = m\<lparr>flockLocks := strip_fl (flockLocks m), posixLocks := strip_fl (posixLocks m),
     changelog := []\<rparr>"

lemma pending_owners:
  assumes "fl_inv fl" "r \<in> set (pending_of fl i)"
  shows "lr_owners r \<noteq> []"
  using assms unfolding fl_inv_def wf_queue_def wf_pending_def wf_request_def by fastforce

lemma strip_the_owner: "lr_owners r \<noteq> [] \<Longrightarrow> the_owner (strip r) = strip_owner (the_owner r)"
  by (simp add: the_owner_def hd_map)

lemma strip_lockSwitch:
  assumes "fl_inv fl"
  shows "lockSwitch (strip_fl fl) i s e (strip_owner ow) oper nb =
    map_option (map_prod id (map_prod strip_fl id)) (lockSwitch fl i s e ow oper nb)"
proof -
  have a: "applyLock i (mkLock ty s e (strip_owner ow)) nb (strip_fl fl) =
      map_prod id strip_fl (applyLock i (mkLock ty s e ow) nb fl)" for ty s e nb fl
  proof -
    have "lr_owners (mkLock ty s e ow) \<noteq> []" by (simp add: mkLock_def)
    from strip_applyLock [OF this] show ?thesis by simp
  qed
  let ?p = "\<lambda>lock. ow_sessionid (the_owner lock) = ow_sessionid ow \<and> ow_owner (the_owner lock) = ow_owner ow"
  have "removePending i ?p (strip_fl fl) = strip_fl (removePending i ?p fl)"
    by (rule strip_removePending) (simp add: strip_the_owner pending_owners [OF assms])
  then show ?thesis
    by (simp add: lockSwitch_def sharedLock_def exclusiveLock_def unlockRange_def a case_prod_unfold)
qed

lemma strip_retry:
  assumes "fl_inv fl" "s \<le> e"
  shows "tryCandidates i (map strip (fst (gatherCandidates i s e fl))) (strip_fl (snd (gatherCandidates i s e fl))) =
    map_prod strip_fl (map strip_owner)
      (tryCandidates i (fst (gatherCandidates i s e fl)) (snd (gatherCandidates i s e fl)))"
proof (rule strip_tryCandidates)
  show "\<forall>c \<in> set (fst (gatherCandidates i s e fl)). lr_owners c \<noteq> []"
    using gatherCandidates_inv(2) [OF assms] by (fastforce simp: wf_pending_def wf_request_def)
qed

lemma strip_lockOperation:
  assumes "fl_inv fl" "s < e"
  shows "lockOperation getNode (strip_fl fl) i s e (strip_owner ow) oper nb =
    map_prod id (map_prod strip_fl (map strip_owner)) (lockOperation getNode fl i s e ow oper nb)"
proof (cases "lockSwitch fl i s e ow oper nb")
  case None
  then show ?thesis using strip_lockSwitch [OF assms(1)] by (simp add: lockOperation_def Let_def)
next
  case (Some r)
  obtain ok fl1 s' e' where r: "r = (ok, fl1, s', e')" by (cases r)
  note inv = lockSwitch_inv [OF assms Some [unfolded r]]
  have sw: "lockSwitch (strip_fl fl) i s e (strip_owner ow) oper nb = Some (ok, strip_fl fl1, s', e')"
    using strip_lockSwitch [OF assms(1)] Some r by simp
  have "tryCandidates i (map strip (fst (gatherCandidates i s' e' fl1))) (strip_fl (snd (gatherCandidates i s' e' fl1))) =
    map_prod strip_fl (map strip_owner)
      (tryCandidates i (fst (gatherCandidates i s' e' fl1)) (snd (gatherCandidates i s' e' fl1)))"
    by (rule strip_retry) (use inv in simp_all)
  then show ?thesis
    by (simp add: lockOperation_def Let_def sw Some r strip_gatherCandidates case_prod_unfold)
qed

text \<open>A request that is not refused does the same whether it may wait or not.\<close>

lemma lockOperation_nonblocking:
  assumes "fst (lockOperation getNode fl i s e ow oper nb) \<noteq> SAUNAFS_ERROR_WAITING"
  shows "lockOperation getNode fl i s e ow oper nb = lockOperation getNode fl i s e ow oper False"
proof -
  have a: "applyLock i r nb fl = applyLock i r False fl" if "fst (applyLock i r nb fl)" for r fl
    using that by (auto simp: applyLock_def Let_def split: if_splits)
  show ?thesis
  proof (cases "lockSwitch fl i s e ow oper nb = lockSwitch fl i s e ow oper False")
    case True
    then show ?thesis by (simp only: lockOperation_def)
  next
    case False
    then have "\<not> fst (the (lockSwitch fl i s e ow oper nb))" "lockSwitch fl i s e ow oper nb \<noteq> None"
      "oper = op_shared \<or> oper = op_exclusive"
      using a by (auto simp: lockSwitch_def sharedLock_def exclusiveLock_def case_prod_unfold split: if_splits)
    then show ?thesis
      using assms by (auto simp: lockOperation_def Let_def case_prod_unfold split: if_splits option.splits)
  qed
qed

text \<open>The requests of a master and what they do.\<close>

datatype lock_request =
  ReqFlock inode Owner nat bool
| ReqPosix inode nat nat Owner nat bool
| ReqClearSession LockKind inode nat
| ReqUnlockInode LockKind inode

fun serve :: "(nat \<Rightarrow> inode \<Rightarrow> status) \<Rightarrow> lock_request \<Rightarrow> LockMetadata \<Rightarrow> status \<times> LockMetadata" where
  "serve getNode (ReqFlock i ow oper nb) m =
     (case flockOperation True getNode i ow oper nb m of (st, m', _) \<Rightarrow> (st, m'))"
| "serve getNode (ReqPosix i s e ow oper nb) m =
     (case posixLockOperation True getNode i s e ow oper nb m of (st, m', _) \<Rightarrow> (st, m'))"
| "serve getNode (ReqClearSession kind i sessionid) m =
     (case locksClearSession True kind i sessionid m of (st, m', _) \<Rightarrow> (st, m'))"
| "serve getNode (ReqUnlockInode kind i) m =
     (case locksUnlockInode True kind i m of (st, m', _) \<Rightarrow> (st, m'))"

fun nonblocking_req :: "lock_request \<Rightarrow> bool" where
  "nonblocking_req (ReqFlock i ow oper nb) = nb"
| "nonblocking_req (ReqPosix i s e ow oper nb) = nb"
| "nonblocking_req r = False"

fun wf_req :: "lock_request \<Rightarrow> bool" where
  "wf_req (ReqPosix i s e ow oper nb) = (s < e)"
| "wf_req r = True"

text \<open>The log of a run describes the run: no request was refused instead of queued.\<close>

fun all_logged :: "(nat \<Rightarrow> inode \<Rightarrow> status) \<Rightarrow> lock_request list \<Rightarrow> LockMetadata \<Rightarrow> bool" where
  "all_logged getNode [] m = True"
| "all_logged getNode (r # rs) m =
     (wf_req r \<and> (nonblocking_req r \<longrightarrow> fst (serve getNode r m) \<noteq> SAUNAFS_ERROR_WAITING) \<and>
      all_logged getNode rs (snd (serve getNode r m)))"

definition serve_all :: "(nat \<Rightarrow> inode \<Rightarrow> status) \<Rightarrow> lock_request list \<Rightarrow> LockMetadata \<Rightarrow> LockMetadata" where
  "serve_all getNode rs m = fold (\<lambda>r m. snd (serve getNode r m)) rs m"

definition replay_all :: "(nat \<Rightarrow> inode \<Rightarrow> status) \<Rightarrow> lock_change list \<Rightarrow> LockMetadata \<Rightarrow> LockMetadata" where
  "replay_all getNode es m = fold (\<lambda>e m. snd (replay getNode e m)) es m"

lemma strip_mkOwner: "mkOwner (ow_owner ow) (ow_sessionid ow) 0 0 = strip_owner ow"
  by (cases ow) (simp add: mkOwner_def strip_owner_def)

lemma serve_inv: "lm_inv m \<Longrightarrow> wf_req r \<Longrightarrow> lm_inv (snd (serve getNode r m))"
  by (cases r) (auto split: prod.splits intro: lock_step_inv [OF lock_step.flock]
      lock_step_inv [OF lock_step.posix] lock_step_inv [OF lock_step.clear_session]
      lock_step_inv [OF lock_step.unlock_inode])

lemma replay_flock:
  assumes "lm_inv m" "nb \<longrightarrow> st \<noteq> SAUNAFS_ERROR_WAITING"
    and "flockOperation True getNode i ow oper nb m = (st, m', applied)"
  shows "changelog m' = changelog m @ [FLCK kFlock i 0 1 (ow_owner ow) (ow_sessionid ow) oper]"
    and "snd (replay getNode (FLCK kFlock i 0 1 (ow_owner ow) (ow_sessionid ow) oper) (strip_meta m)) =
      strip_meta m'"
proof -
  have inv: "fl_inv (flockLocks m)" using assms(1) by (simp add: lm_inv_def)
  obtain fl ap where op: "lockOperation getNode (flockLocks m) i 0 1 ow oper nb = (st, fl, ap)"
    using assms(3) by (auto simp: flockOperation_def split: prod.splits)
  then have "lockOperation getNode (flockLocks m) i 0 1 ow oper False = (st, fl, ap)"
    using lockOperation_nonblocking [of getNode "flockLocks m" i 0 1 ow oper nb] assms(2)
    by (cases nb) auto
  then have "lockOperation getNode (strip_fl (flockLocks m)) i 0 1 (strip_owner ow) oper False =
      (st, strip_fl fl, map strip_owner ap)"
    using strip_lockOperation [OF inv, of 0 1 getNode i ow oper False] by simp
  then show "snd (replay getNode (FLCK kFlock i 0 1 (ow_owner ow) (ow_sessionid ow) oper) (strip_meta m)) =
      strip_meta m'"
    using assms(3) op
    by (simp add: do_lock_op_def flockOperation_def strip_mkOwner strip_meta_def changeLog_def)
       (auto simp: strip_meta_def)
  show "changelog m' = changelog m @ [FLCK kFlock i 0 1 (ow_owner ow) (ow_sessionid ow) oper]"
    using assms(3) op by (auto simp: flockOperation_def changeLog_def)
qed

lemma replay_posix:
  assumes "lm_inv m" "s < e" "nb \<longrightarrow> st \<noteq> SAUNAFS_ERROR_WAITING"
    and "posixLockOperation True getNode i s e ow oper nb m = (st, m', applied)"
  shows "changelog m' = changelog m @ [FLCK kPosix i s e (ow_owner ow) (ow_sessionid ow) oper]"
    and "snd (replay getNode (FLCK kPosix i s e (ow_owner ow) (ow_sessionid ow) oper) (strip_meta m)) =
      strip_meta m'"
proof -
  have inv: "fl_inv (posixLocks m)" using assms(1) by (simp add: lm_inv_def)
  obtain fl ap where op: "lockOperation getNode (posixLocks m) i s e ow oper nb = (st, fl, ap)"
    using assms(4) by (auto simp: posixLockOperation_def split: prod.splits)
  then have "lockOperation getNode (posixLocks m) i s e ow oper False = (st, fl, ap)"
    using lockOperation_nonblocking [of getNode "posixLocks m" i s e ow oper nb] assms(3)
    by (cases nb) auto
  then have "lockOperation getNode (strip_fl (posixLocks m)) i s e (strip_owner ow) oper False =
      (st, strip_fl fl, map strip_owner ap)"
    using strip_lockOperation [OF inv assms(2), of getNode i ow oper False] by simp
  then show "snd (replay getNode (FLCK kPosix i s e (ow_owner ow) (ow_sessionid ow) oper) (strip_meta m)) =
      strip_meta m'"
    using assms(4) op
    by (simp add: do_lock_op_def posixLockOperation_def strip_mkOwner strip_meta_def changeLog_def)
       (auto simp: strip_meta_def)
  show "changelog m' = changelog m @ [FLCK kPosix i s e (ow_owner ow) (ow_sessionid ow) oper]"
    using assms(4) op by (auto simp: posixLockOperation_def changeLog_def)
qed

lemma getLocks_strip: "getLocks kind (strip_meta m) = strip_fl (getLocks kind m)"
  by (simp add: getLocks_def strip_meta_def)

lemma setLocks_strip:
  "changeLog False c (setLocks kind (strip_fl fl) (strip_meta m)) =
     strip_meta (changeLog True c' (setLocks kind fl m))"
  by (simp add: setLocks_def strip_meta_def changeLog_def)

lemma replay_clear_session:
  assumes "lm_inv m" "kind = kFlock \<or> kind = kPosix"
    and "locksClearSession True kind i sessionid m = (st, m', applied)"
  shows "changelog m' = changelog m @ [CLRLCK kind i sessionid]"
    and "snd (replay getNode (CLRLCK kind i sessionid) (strip_meta m)) = strip_meta m'"
proof -
  have inv: "fl_inv (getLocks kind m)" using assms(1) by (simp add: lm_inv_def getLocks_def)
  let ?p = "\<lambda>lock. ow_sessionid (the_owner lock) = sessionid"
  have "removePending i ?p (strip_fl (getLocks kind m)) = strip_fl (removePending i ?p (getLocks kind m))"
    by (rule strip_removePending) (simp add: strip_the_owner pending_owners [OF inv])
  then show "snd (replay getNode (CLRLCK kind i sessionid) (strip_meta m)) = strip_meta m'"
    using assms(2,3)
    by (auto simp: locksClearSession_def Let_def getLocks_strip strip_unlockIf strip_gatherCandidates
        setLocks_strip [where c' = "CLRLCK kind i sessionid"] case_prod_unfold)
  show "changelog m' = changelog m @ [CLRLCK kind i sessionid]"
    using assms(2,3)
    by (auto simp: locksClearSession_def Let_def changeLog_def setLocks_def case_prod_unfold)
qed

lemma replay_unlock_inode:
  assumes "lm_inv m" "kind = kFlock \<or> kind = kPosix"
    and "locksUnlockInode True kind i m = (st, m', applied)"
  shows "changelog m' = changelog m @ [FLCKINODE kind i]"
    and "snd (replay getNode (FLCKINODE kind i) (strip_meta m)) = strip_meta m'"
proof -
  have r: "manageLockTryLockPending (unlockInode i (strip_fl fl)) i 0 e =
      map_prod strip_fl (map strip_owner) (manageLockTryLockPending (unlockInode i fl) i 0 e)"
    if "fl_inv fl" for fl e
    using strip_retry [of "unlockInode i fl" 0 e i] that
    by (simp add: manageLockTryLockPending_def strip_unlockInode strip_gatherCandidates fl_inv_def
        case_prod_unfold)
  have inv: "fl_inv (flockLocks m)" "fl_inv (posixLocks m)" using assms(1) by (simp_all add: lm_inv_def)
  show "snd (replay getNode (FLCKINODE kind i) (strip_meta m)) = strip_meta m'"
    using assms(2,3) r [OF inv(1)] r [OF inv(2)]
    by (auto simp: locksUnlockInode_def case_prod_unfold strip_meta_def changeLog_def)
  show "changelog m' = changelog m @ [FLCKINODE kind i]"
    using assms(2,3) by (auto simp: locksUnlockInode_def changeLog_def case_prod_unfold)
qed

lemma replay_serve:
  assumes "lm_inv m" "wf_req r" "nonblocking_req r \<longrightarrow> fst (serve getNode r m) \<noteq> SAUNAFS_ERROR_WAITING"
  shows "\<exists>es. changelog (snd (serve getNode r m)) = changelog m @ es \<and>
    replay_all getNode es (strip_meta m) = strip_meta (snd (serve getNode r m))"
proof (cases r)
  case (ReqFlock i ow oper nb)
  obtain st m' ap where op: "flockOperation True getNode i ow oper nb m = (st, m', ap)"
    by (cases "flockOperation True getNode i ow oper nb m")
  have "nb \<longrightarrow> st \<noteq> SAUNAFS_ERROR_WAITING" using assms(3) op ReqFlock by auto
  from replay_flock [OF assms(1) this op] show ?thesis
    using op ReqFlock
    by (intro exI [of _ "[FLCK kFlock i 0 1 (ow_owner ow) (ow_sessionid ow) oper]"])
       (simp add: replay_all_def)
next
  case (ReqPosix i s e ow oper nb)
  obtain st m' ap where op: "posixLockOperation True getNode i s e ow oper nb m = (st, m', ap)"
    by (cases "posixLockOperation True getNode i s e ow oper nb m")
  have "s < e" "nb \<longrightarrow> st \<noteq> SAUNAFS_ERROR_WAITING" using assms(2,3) op ReqPosix by auto
  from replay_posix [OF assms(1) this op] show ?thesis
    using op ReqPosix
    by (intro exI [of _ "[FLCK kPosix i s e (ow_owner ow) (ow_sessionid ow) oper]"])
       (simp add: replay_all_def)
next
  case (ReqClearSession kind i sessionid)
  obtain st m' ap where op: "locksClearSession True kind i sessionid m = (st, m', ap)"
    by (cases "locksClearSession True kind i sessionid m")
  show ?thesis
  proof (cases "kind = kFlock \<or> kind = kPosix")
    case True
    then show ?thesis
      using replay_clear_session [OF assms(1) True op] op ReqClearSession
      by (intro exI [of _ "[CLRLCK kind i sessionid]"]) (simp add: replay_all_def)
  next
    case False
    then show ?thesis
      using op ReqClearSession by (intro exI [of _ "[]"]) (auto simp: locksClearSession_def replay_all_def)
  qed
next
  case (ReqUnlockInode kind i)
  obtain st m' ap where op: "locksUnlockInode True kind i m = (st, m', ap)"
    by (cases "locksUnlockInode True kind i m")
  show ?thesis
  proof (cases "kind = kFlock \<or> kind = kPosix")
    case True
    then show ?thesis
      using replay_unlock_inode [OF assms(1) True op] op ReqUnlockInode
      by (intro exI [of _ "[FLCKINODE kind i]"]) (simp add: replay_all_def)
  next
    case False
    then show ?thesis
      using op ReqUnlockInode by (intro exI [of _ "[]"]) (auto simp: locksUnlockInode_def replay_all_def)
  qed
qed

lemma replay_serve_all:
  assumes "lm_inv m" "all_logged getNode rs m"
  shows "\<exists>es. changelog (serve_all getNode rs m) = changelog m @ es \<and>
    replay_all getNode es (strip_meta m) = strip_meta (serve_all getNode rs m)"
  using assms
proof (induction rs arbitrary: m)
  case Nil
  then show ?case by (simp add: serve_all_def replay_all_def)
next
  case (Cons r rs)
  let ?m = "snd (serve getNode r m)"
  have ok: "wf_req r" "nonblocking_req r \<longrightarrow> fst (serve getNode r m) \<noteq> SAUNAFS_ERROR_WAITING"
    "all_logged getNode rs ?m"
    using Cons.prems(2) by simp_all
  from replay_serve [OF Cons.prems(1) ok(1,2)] obtain es where es:
    "changelog ?m = changelog m @ es" "replay_all getNode es (strip_meta m) = strip_meta ?m" by blast
  from Cons.IH [OF serve_inv [OF Cons.prems(1) ok(1)] ok(3)] obtain es' where es':
    "changelog (serve_all getNode rs ?m) = changelog ?m @ es'"
    "replay_all getNode es' (strip_meta ?m) = strip_meta (serve_all getNode rs ?m)" by blast
  show ?case
    using es es' by (intro exI [of _ "es @ es'"]) (simp add: serve_all_def replay_all_def)
qed

subsection \<open>Properties\<close>

text \<open>
  C1. Inserting a request that fits keeps the set of ranges well formed and does exactly what was
  asked: inside the requested bytes the requester holds the requested type (nothing after an
  unlock), and every other owner and every other byte is as before. All splitting, retyping and
  merging of ranges is invisible.
\<close>

theorem insertRange_refines:
  assumes "wf_locks data" "wf_request r" "fits data r"
  shows "wf_locks (insertRange data r) \<and>
    (holds (insertRange data r) x k t \<longleftrightarrow>
      (if k = owner_key (the_owner r) \<and> lr_start r \<le> x \<and> x < lr_end r
       then lr_type r \<noteq> kUnlock \<and> t = lr_type r else holds data x k t))"
  using insertRange_loop [OF assms] by (auto simp: wants_def covers_def)

theorem insertRange_refines_witness:
  "let a = mkOwner 1 1 0 0; b = mkOwner 2 1 0 0;
       data = [mkLock kShared 0 10 a, mkLock kExclusive 20 30 a]; r = mkLock kShared 5 15 b
   in insertRange data r = [mkLock kShared 0 5 a,
        \<lparr>lr_type = kShared, lr_start = 5, lr_end = 10, lr_owners = [a, b]\<rparr>,
        mkLock kShared 10 15 b, mkLock kExclusive 20 30 a] \<and> wf_locks (insertRange data r)"
proof -
  let ?a = "mkOwner 1 1 0 0" and ?b = "mkOwner 2 1 0 0"
  let ?data = "[mkLock kShared 0 10 ?a, mkLock kExclusive 20 30 ?a]" and ?r = "mkLock kShared 5 15 ?b"
  have "wf_locks ?data" "wf_request ?r" "fits ?data ?r"
    by (simp_all add: wf_range_def before_def wf_request_def mkLock_def mkOwner_def shared_def
        exclusive_def keys_def fits_def findCollision_def unlocking_def window_def window_start_def
        window_end_def collides_def overlaps_def)
  from insertRange_refines [OF this] have "wf_locks (insertRange ?data ?r)" by blast
  moreover have "insertRange ?data ?r = [mkLock kShared 0 5 ?a,
        \<lparr>lr_type = kShared, lr_start = 5, lr_end = 10, lr_owners = [?a, ?b]\<rparr>,
        mkLock kShared 10 15 ?b, mkLock kExclusive 20 30 ?a]"
    by code_simp
  ultimately show ?thesis by (simp add: Let_def)
qed

text \<open>
  C2. A request fits exactly when no other owner holds a byte of its range in a way that excludes
  it (only shared and shared go together); unlocking always fits.
\<close>

theorem fits_correct:
  assumes "wf_locks data" "wf_request r"
  shows "fits data r \<longleftrightarrow> lr_type r = kUnlock \<or>
    \<not> (\<exists>x k t. lr_start r \<le> x \<and> x < lr_end r \<and> k \<noteq> owner_key (the_owner r) \<and> holds data x k t \<and>
        \<not> (lr_type r = kShared \<and> t = kShared))"
proof -
  have "unlocking r \<longleftrightarrow> lr_type r = kUnlock"
    using assms(2) by (auto simp: unlocking_def wf_request_def)
  then show ?thesis
    unfolding fits_iff_no_conflict [OF assms] conflict_def covers_def by blast
qed

theorem fits_correct_witness:
  "let data = [mkLock kShared 0 10 (mkOwner 1 1 0 0)]; r = mkLock kExclusive 5 15 (mkOwner 2 1 0 0)
   in \<exists>x k t. lr_start r \<le> x \<and> x < lr_end r \<and> k \<noteq> owner_key (the_owner r) \<and> holds data x k t \<and>
        \<not> (lr_type r = kShared \<and> t = kShared)"
proof -
  let ?data = "[mkLock kShared 0 10 (mkOwner 1 1 0 0)]" and ?r = "mkLock kExclusive 5 15 (mkOwner 2 1 0 0)"
  have wf: "wf_locks ?data" "wf_request ?r"
    by (simp_all add: wf_range_def wf_request_def mkLock_def mkOwner_def shared_def exclusive_def keys_def)
  have "\<not> fits ?data ?r" "lr_type ?r \<noteq> kUnlock" by code_simp+
  then show ?thesis
    using fits_correct [OF wf] unfolding Let_def by blast
qed

text \<open>
  C3. Mutual exclusion: whatever sequence of lock, unlock, release, session clean-up, administrative
  unlock and interrupt operations the server performs from an empty state, two owners hold the same
  byte of the same inode only if both hold it shared. This is for both kinds of locks.
\<close>

theorem locks_mutual_exclusion:
  assumes "(lock_step getNode)\<^sup>*\<^sup>* initLocks m" "kind = kFlock \<or> kind = kPosix"
    and "who (getLocks kind m) i x k t" "who (getLocks kind m) i x k' t'" "k \<noteq> k'"
  shows "t = kShared \<and> t' = kShared"
proof -
  have "lm_inv m" using lock_steps_inv [OF assms(1) lm_inv_init] .
  then have "wf_locks (active_of (getLocks kind m) i)"
    by (auto simp: lm_inv_def getLocks_def fl_inv_def)
  then show ?thesis
    using assms(3-5) unfolding who_def by (rule wf_locks_exclusion)
qed

definition two_readers :: LockMetadata where
  "two_readers = fst (snd (flockOperation True (\<lambda>_ _. 0) 7 (mkOwner 2 1 0 0) op_shared False
     (fst (snd (flockOperation True (\<lambda>_ _. 0) 7 (mkOwner 1 1 0 0) op_shared False initLocks)))))"

theorem locks_mutual_exclusion_witness:
  "(kShared::LockType) = kShared \<and> who (getLocks kFlock two_readers) 7 0 (1, 1) kShared \<and>
   who (getLocks kFlock two_readers) 7 0 (2, 1) kShared"
proof -
  let ?op = "\<lambda>n m. flockOperation True (\<lambda>_ _. 0) 7 (mkOwner n 1 0 0) op_shared False m"
  have "lock_step (\<lambda>_ _. 0) m (fst (snd (?op n m)))" for n m
    by (rule lock_step.flock [of True _ 7 "mkOwner n 1 0 0" op_shared False _ "fst (?op n m)"
          _ "snd (snd (?op n m))"]) simp
  then have r: "(lock_step (\<lambda>_ _. 0))\<^sup>*\<^sup>* initLocks two_readers"
    unfolding two_readers_def by (intro rtranclp.rtrancl_into_rtrancl [OF r_into_rtranclp])
  have h: "who (getLocks kFlock two_readers) 7 0 (1, 1) kShared"
    "who (getLocks kFlock two_readers) 7 0 (2, 1) kShared"
    by code_simp+
  then show ?thesis
    using locks_mutual_exclusion [OF r _ h] by simp
qed

text \<open>
  C4. \<open>FileLocks::apply\<close> on every branch: the request is granted exactly when no other owner
  excludes it, a granted request takes effect and nothing is queued, and a refused one changes no
  lock and is queued exactly once if it may wait. The invariant is kept.
\<close>

theorem applyLock_correct:
  assumes "fl_inv fl" "wf_request lock" "applyLock i lock nb fl = (granted, fl')"
  shows "fl_inv fl' \<and>
    (granted \<longleftrightarrow> lr_type lock = kUnlock \<or> \<not> conflict lock (active_of fl i)) \<and>
    (who fl' j x k t \<longleftrightarrow>
      (if granted \<and> j = i \<and> k = owner_key (the_owner lock) \<and> lr_start lock \<le> x \<and> x < lr_end lock
       then lr_type lock \<noteq> kUnlock \<and> t = lr_type lock else who fl j x k t)) \<and>
    mset (pending_of fl' j) =
      (if j = i \<and> \<not> granted \<and> \<not> nb then add_mset lock (mset (pending_of fl j))
       else mset (pending_of fl j))"
proof -
  have u: "unlocking lock \<longleftrightarrow> lr_type lock = kUnlock"
    using assms(2) by (auto simp: unlocking_def wf_request_def)
  have wf: "wf_locks (active_of fl i)" using assms(1) by (simp add: fl_inv_def)
  have g: "granted \<longleftrightarrow> lr_type lock = kUnlock \<or> \<not> conflict lock (active_of fl i)"
    using applyLock_granted [of i lock nb fl] fits_iff_no_conflict [OF wf assms(2)] assms(3) u by simp
  have "who fl' j x k t \<longleftrightarrow>
      (if granted \<and> j = i \<and> k = owner_key (the_owner lock) \<and> lr_start lock \<le> x \<and> x < lr_end lock
       then lr_type lock \<noteq> kUnlock \<and> t = lr_type lock else who fl j x k t)"
    using applyLock_who [OF assms(1,2), of i nb] assms(3)
    by (auto simp: wants_def covers_def who_def)
  then show ?thesis
    using applyLock_inv [OF assms(1,2), of i nb] applyLock_waiting [of i lock nb fl j] assms(3) g u by auto
qed

definition held :: FileLocks where
  "held = snd (applyLock 7 (mkLock kExclusive 0 10 (mkOwner 1 1 0 0)) False emptyFileLocks)"

lemma held_inv: "fl_inv held"
  unfolding held_def
  by (rule applyLock_inv)
     (simp_all add: fl_inv_def active_of_def pending_of_def emptyFileLocks_def wf_queue_def
       wf_request_mkLock)

theorem applyLock_correct_witness:
  "\<exists>fl'. applyLock 7 (mkLock kShared 5 6 (mkOwner 2 1 0 0)) False held = (False, fl') \<and>
     mset (pending_of fl' 7) = add_mset (mkLock kShared 5 6 (mkOwner 2 1 0 0)) (mset (pending_of held 7))"
proof -
  let ?lock = "mkLock kShared 5 6 (mkOwner 2 1 0 0)"
  have "fst (applyLock 7 ?lock False held) = False" by code_simp
  then have res: "applyLock 7 ?lock False held = (False, snd (applyLock 7 ?lock False held))"
    by (metis prod.collapse)
  have "wf_request ?lock" by (simp add: wf_request_mkLock)
  from applyLock_correct [OF held_inv this res, of 7] res show ?thesis by auto
qed



text \<open>
  C6. Clearing a session removes exactly the locks of that session on the inode, and its waiting
  requests; every other lock is untouched.
\<close>

lemma getLocks_changeLog: "getLocks kind (changeLog master c m) = getLocks kind m"
  by (simp add: getLocks_def)

lemma flockOperation_inv: "lm_inv m \<Longrightarrow> lm_inv (fst (snd (flockOperation master getNode i ow oper nb m)))"
  by (rule lock_step_inv [OF lock_step.flock [OF surjective_pairing [THEN trans]]])
     (simp_all add: prod_eq_iff)

lemma locksClearSession_locks:
  assumes "locksClearSession master kind i sessionid m = (st, m', applied)"
    and "kind = kFlock \<or> kind = kPosix"
  shows "\<exists>a b. active_of (getLocks kind m') =
      active_of (snd (unlockIf i (\<lambda>ow. ow_sessionid ow = sessionid) (getLocks kind m))) \<and>
    pending_of (getLocks kind m') = (let f = removePending i (\<lambda>lock. ow_sessionid (the_owner lock) = sessionid)
        (getLocks kind m) in if a < b then pending_of (snd (gatherCandidates i a b f)) else pending_of f)"
proof -
  define f where "f = removePending i (\<lambda>lock. ow_sessionid (the_owner lock) = sessionid) (getLocks kind m)"
  define u where "u = unlockIf i (\<lambda>ow. ow_sessionid ow = sessionid) f"
  have p: "pending_of (snd (gatherCandidates i a b (snd u))) = pending_of (snd (gatherCandidates i a b f))" for a b
    by (simp add: gatherCandidates_eq u_def)
  have a: "active_of (snd u) = active_of (snd (unlockIf i (\<lambda>ow. ow_sessionid ow = sessionid) (getLocks kind m)))"
    by (simp add: u_def f_def unlockIf_active)
  have "getLocks kind m' = (if fst (fst u) < snd (fst u)
      then snd (gatherCandidates i (fst (fst u)) (snd (fst u)) (snd u)) else snd u)"
  proof -
    have k: "(kind \<noteq> kFlock \<and> kind \<noteq> kPosix) = False" using assms(2) by blast
    show ?thesis
      using assms(1) [unfolded locksClearSession_def Let_def k if_False, folded f_def, folded u_def]
      by (auto simp: case_prod_unfold getLocks_changeLog)
  qed
  then show ?thesis
    using a p [of "fst (fst u)" "snd (fst u)"] by (auto simp: f_def [symmetric] Let_def u_def)
qed





text \<open>
  C8. The condition of the previous property cannot be dropped: \<open>flockOperation\<close> logs a non-blocking
  request that it turned away, and the replica replays it as a blocking one. After the holder
  unlocks, the replica believes that the turned-away client owns the lock, and the master does not.
\<close>

definition refused_run :: "lock_request list" where
  "refused_run = [ReqFlock 7 (mkOwner 1 1 0 0) op_exclusive False,
     ReqFlock 7 (mkOwner 2 2 0 0) op_exclusive True, ReqFlock 7 (mkOwner 1 1 0 0) op_unlock False]"


text \<open>
  C9. A wake-up can be missed. The queue is ordered by start, but requests in it may overlap, and
  \<open>gatherCandidates\<close> looks only one element back. Here a request for bytes 0 to 100 waits for the
  holder of bytes 50 to 60 before two shorter requests that wait for someone else; when 50 to 60 is
  unlocked nothing excludes it any more, but it is not tried.
\<close>

definition missed_locks :: FileLocks where
  "missed_locks =
     \<lparr>active_locks = [7 \<mapsto> [mkLock kExclusive 50 60 (mkOwner 9 9 0 0)]],
      pending_locks = [7 \<mapsto> [mkLock kShared 0 100 (mkOwner 1 1 0 0), mkLock kShared 40 55 (mkOwner 2 2 0 0),
                            mkLock kShared 45 56 (mkOwner 3 3 0 0)]]\<rparr>"


text \<open>
  C10. Clearing a session tells waiting owners that they got the lock without giving it to them: the
  gathered candidates are reported as applied but neither inserted nor queued. Two owners that wait
  for exclusive locks on the same bytes are both told, and none of them holds it.
\<close>

definition two_waiting :: LockMetadata where
  "two_waiting = serve_all (\<lambda>_ _. 0)
     [ReqFlock 7 (mkOwner 1 1 0 0) op_exclusive False, ReqFlock 7 (mkOwner 2 2 0 0) op_exclusive False,
      ReqFlock 7 (mkOwner 3 3 0 0) op_exclusive False] initLocks"


text \<open>
  C11. Listing returns the requested page: for an index that is not negative, the entries number
  \<open>index\<close> to \<open>index + count - 1\<close> of the list with one entry for every owner of every range.
\<close>

theorem copyToVector_pages:
  assumes "0 \<le> index"
  shows "copyToVector entries index cnt = take (nat cnt) (drop (nat index) (concat (map entry_infos entries)))"
  using assms by (rule copyToVector_page)

theorem copyToVector_pages_witness:
  "copyToVector [(7, [\<lparr>lr_type = kShared, lr_start = 0, lr_end = 5, lr_owners = [mkOwner 1 1 0 0, mkOwner 2 1 0 0]\<rparr>]),
                 (8, [mkLock kExclusive 1 2 (mkOwner 3 1 0 0)])] 1 5 =
     [lockInfo 7 (mkLock kShared 0 5 (mkOwner 2 1 0 0)) (mkOwner 2 1 0 0),
      lockInfo 8 (mkLock kExclusive 1 2 (mkOwner 3 1 0 0)) (mkOwner 3 1 0 0)]"
  by (subst copyToVector_pages) (simp_all add: entry_infos_def mkLock_def mkOwner_def lockInfo_def)

text \<open>
  C12. Saving and loading the lock tables gives back the same locks: the number of entries written
  is the number read, the restored tables satisfy the invariant, every owner holds what it held, and
  the queues are the same up to request and message numbers.
\<close>

theorem load_store_roundtrip:
  assumes "fl_inv fl"
    and "distinct (map fst act)" "map_of act = active_locks fl"
    and "distinct (map fst pend)" "map_of pend = pending_locks fl"
  shows "\<exists>fl'. loadLocks (storeLocks act) (storeLocks pend) emptyFileLocks = Some fl' \<and> fl_inv fl' \<and>
    who fl' = who fl \<and> (\<forall>i. pending_of fl' i = map strip (pending_of fl i))"
  using assms by (rule loadLocks_storeLocks)

theorem load_store_roundtrip_witness:
  "\<exists>fl'. loadLocks (storeLocks [(7, [mkLock kExclusive 0 10 (mkOwner 1 1 0 0)])]) (storeLocks []) emptyFileLocks
      = Some fl' \<and> who fl' = who held"
proof -
  have "map_of [(7, [mkLock kExclusive 0 10 (mkOwner 1 1 0 0)])] = active_locks held"
    "map_of [] = pending_locks held"
    by (simp_all add: held_def applyLock_def emptyFileLocks_def fits_def findCollision_def window_def
        insertRange_def insert_window_def window_start_def window_end_def insert_loop.simps mkLock_def
        unlocking_def fun_eq_iff)
  from load_store_roundtrip [OF held_inv _ this(1) _ this(2)] show ?thesis by auto
qed

text \<open>
  C13. The byte range the server computes for an accepted \<open>fcntl\<close> request is never empty and never
  wraps around, whatever 64-bit offset and length the client sends; so the requests the lock tables
  get are well formed.
\<close>

theorem setlkRange_bounds:
  assumes "setlkRange info = Some (s, e)" "l_start info < 2 ^ 63" "l_len info < 2 ^ 63"
  shows "s < e \<and> e \<le> uint64_max \<and> (l_len info > 0 \<longrightarrow> int e = l_start info + l_len info)"
proof -
  have b: "0 \<le> l_start info" "0 \<le> l_len info" using assms(1) by (auto simp: setlkRange_def split: if_splits)
  have n: "nat (l_start info) < 2 ^ 63" "nat (l_len info) < 2 ^ 63" using assms(2,3) b by simp_all
  then have "(nat (l_start info) + nat (l_len info)) mod 2 ^ 64 = nat (l_start info) + nat (l_len info)"
    by simp
  then show ?thesis
    using assms(1) b n by (auto simp: setlkRange_def uint64_max_def split: if_splits)
qed

theorem setlkRange_bounds_witness:
  "setlkRange \<lparr>l_type = 4, l_start = 9223372036854775807, l_len = 9223372036854775807, l_pid = 0\<rparr> =
     Some (9223372036854775807, 18446744073709551614) \<and> (9223372036854775807::nat) < 18446744073709551614"
proof -
  have r: "setlkRange \<lparr>l_type = 4, l_start = 9223372036854775807, l_len = 9223372036854775807, l_pid = 0\<rparr> =
     Some (9223372036854775807, 18446744073709551614)"
    by (simp add: setlkRange_def)
  have "(9223372036854775807::nat) < 18446744073709551614"
    by (rule setlkRange_bounds [OF r, THEN conjunct1]) simp_all
  with r show ?thesis by blast
qed

end
