(* ===== verification/RichACL.thy ===== *)
theory RichACL
  imports LeilFS_Prelude
begin

unbundle bit_operations_syntax

text \<open>
  Rich access control lists, after \<open>src/src/common/richacl.h\<close>, \<open>src/src/common/richacl.cc\<close> and
  \<open>src/src/common/richacl_compat.cc\<close>. The bit fields of an entry keep their width (\<open>type : 2\<close>,
  \<open>flags : 9\<close>, \<open>mask : 21\<close>), so assigning a 32-bit mask to an entry truncates as in the source.
\<close>

named_theorems acl_consts \<open>values of the constants\<close>

subsection \<open>Constants\<close>

definition kAutoInherit :: "16 word" where [acl_consts]: "kAutoInherit = 0x01"
definition kProtected :: "16 word" where [acl_consts]: "kProtected = 0x02"
definition kWriteThrough :: "16 word" where [acl_consts]: "kWriteThrough = 0x40"
definition kMasked :: "16 word" where [acl_consts]: "kMasked = 0x80"
definition kAutoSetMode :: "16 word" where [acl_consts]: "kAutoSetMode = 0x20"

definition kAccessAllowedAceType :: "2 word" where [acl_consts]: "kAccessAllowedAceType = 0"
definition kAccessDeniedAceType :: "2 word" where [acl_consts]: "kAccessDeniedAceType = 1"

definition kFileInheritAce :: "9 word" where [acl_consts]: "kFileInheritAce = 0x001"
definition kDirectoryInheritAce :: "9 word" where [acl_consts]: "kDirectoryInheritAce = 0x002"
definition kNoPropagateInheritAce :: "9 word" where [acl_consts]: "kNoPropagateInheritAce = 0x004"
definition kInheritOnlyAce :: "9 word" where [acl_consts]: "kInheritOnlyAce = 0x008"
definition kIdentifierGroup :: "9 word" where [acl_consts]: "kIdentifierGroup = 0x040"
definition kInheritedAce :: "9 word" where [acl_consts]: "kInheritedAce = 0x080"
definition kSpecialWho :: "9 word" where [acl_consts]: "kSpecialWho = 0x100"

definition kInheritanceFlags :: "9 word" where [acl_consts]:
  "kInheritanceFlags = kFileInheritAce OR kDirectoryInheritAce OR kNoPropagateInheritAce OR
     kInheritOnlyAce OR kInheritedAce"

definition kReadData :: "32 word" where [acl_consts]: "kReadData = 0x00000001"
definition kWriteData :: "32 word" where [acl_consts]: "kWriteData = 0x00000002"
definition kAppendData :: "32 word" where [acl_consts]: "kAppendData = 0x00000004"
definition kExecute :: "32 word" where [acl_consts]: "kExecute = 0x00000020"
definition kDeleteChild :: "32 word" where [acl_consts]: "kDeleteChild = 0x00000040"
definition kReadAttributes :: "32 word" where [acl_consts]: "kReadAttributes = 0x00000080"
definition kWriteAttributes :: "32 word" where [acl_consts]: "kWriteAttributes = 0x00000100"
definition kReadAcl :: "32 word" where [acl_consts]: "kReadAcl = 0x00020000"
definition kWriteAcl :: "32 word" where [acl_consts]: "kWriteAcl = 0x00040000"
definition kWriteOwner :: "32 word" where [acl_consts]: "kWriteOwner = 0x00080000"
definition kSynchronize :: "32 word" where [acl_consts]: "kSynchronize = 0x00100000"

definition kOwnerSpecialId :: "32 word" where [acl_consts]: "kOwnerSpecialId = 0"
definition kGroupSpecialId :: "32 word" where [acl_consts]: "kGroupSpecialId = 1"
definition kEveryoneSpecialId :: "32 word" where [acl_consts]: "kEveryoneSpecialId = 2"

text \<open>\<open>kListDirectory\<close>, \<open>kAddFile\<close> and \<open>kAddSubdirectory\<close> are other names of the same bits.\<close>

definition kPosixModeRead :: "32 word" where [acl_consts]: "kPosixModeRead = kReadData"
definition kPosixModeWrite :: "32 word" where [acl_consts]:
  "kPosixModeWrite = kWriteData OR kAppendData OR kDeleteChild"
definition kPosixModeExec :: "32 word" where [acl_consts]: "kPosixModeExec = kExecute"
definition kPosixAlwaysAllowed :: "32 word" where [acl_consts]:
  "kPosixAlwaysAllowed = kSynchronize OR kReadAttributes OR kReadAcl"
definition kPosixOwnerAllowed :: "32 word" where [acl_consts]:
  "kPosixOwnerAllowed = kWriteAttributes OR kWriteOwner OR kWriteAcl"

subsection \<open>Entries\<close>

record Ace =
  ace_type :: "2 word"
  ace_flags :: "9 word"
  ace_mask :: "21 word"
  ace_id :: "32 word"

definition mkAce :: "2 word \<Rightarrow> 9 word \<Rightarrow> 32 word \<Rightarrow> 32 word \<Rightarrow> Ace" where
  "mkAce ty fl m i = \<lparr>ace_type = ty, ace_flags = fl, ace_mask = ucast m, ace_id = i\<rparr>"

text \<open>The mask of an entry, read as \<open>uint32_t\<close>.\<close>

definition amask :: "Ace \<Rightarrow> 32 word" where
  "amask a = ucast (ace_mask a)"

definition isAllow :: "Ace \<Rightarrow> bool" where "isAllow a \<longleftrightarrow> ace_type a = kAccessAllowedAceType"
definition isDeny :: "Ace \<Rightarrow> bool" where "isDeny a \<longleftrightarrow> ace_type a = kAccessDeniedAceType"

definition isOwner :: "Ace \<Rightarrow> bool" where
  "isOwner a \<longleftrightarrow> ace_flags a AND kSpecialWho \<noteq> 0 \<and> ace_id a = kOwnerSpecialId"

definition isGroup :: "Ace \<Rightarrow> bool" where
  "isGroup a \<longleftrightarrow> ace_flags a AND kSpecialWho \<noteq> 0 \<and> ace_id a = kGroupSpecialId"

definition isEveryone :: "Ace \<Rightarrow> bool" where
  "isEveryone a \<longleftrightarrow> ace_flags a AND kSpecialWho \<noteq> 0 \<and> ace_id a = kEveryoneSpecialId"

definition isUnixUser :: "Ace \<Rightarrow> bool" where
  "isUnixUser a \<longleftrightarrow> ace_flags a AND kSpecialWho = 0 \<and> ace_flags a AND kIdentifierGroup = 0"

definition isUnixGroup :: "Ace \<Rightarrow> bool" where
  "isUnixGroup a \<longleftrightarrow> ace_flags a AND kSpecialWho = 0 \<and> ace_flags a AND kIdentifierGroup \<noteq> 0"

definition isInheritable :: "Ace \<Rightarrow> bool" where
  "isInheritable a \<longleftrightarrow> ace_flags a AND (kFileInheritAce OR kDirectoryInheritAce) \<noteq> 0"

definition isInheritOnly :: "Ace \<Rightarrow> bool" where
  "isInheritOnly a \<longleftrightarrow> ace_flags a AND kInheritOnlyAce \<noteq> 0"

definition isSameIdentifier :: "Ace \<Rightarrow> Ace \<Rightarrow> bool" where
  "isSameIdentifier a b \<longleftrightarrow>
     \<not> ((ace_flags a XOR ace_flags b) AND (kSpecialWho OR kIdentifierGroup) \<noteq> 0 \<or> ace_id a \<noteq> ace_id b)"

definition inheritsToDirectory :: "Ace \<Rightarrow> bool" where
  "inheritsToDirectory a \<longleftrightarrow>
     (if ace_flags a AND kDirectoryInheritAce \<noteq> 0 then True
      else if ace_flags a AND kFileInheritAce \<noteq> 0 \<and> ace_flags a AND kNoPropagateInheritAce = 0 then True
      else False)"

subsection \<open>Lists\<close>

record RichACL =
  owner_mask :: "32 word"
  group_mask :: "32 word"
  other_mask :: "32 word"
  acl_flags :: "16 word"
  ace_list :: "Ace list"

definition emptyACL :: RichACL where
  "emptyACL = \<lparr>owner_mask = 0, group_mask = 0, other_mask = 0, acl_flags = 0, ace_list = []\<rparr>"

definition insertAce :: "Ace \<Rightarrow> RichACL \<Rightarrow> RichACL" where
  "insertAce a acl = acl\<lparr>ace_list := ace_list acl @ [a]\<rparr>"

definition isAutoInherit :: "RichACL \<Rightarrow> bool" where
  "isAutoInherit acl \<longleftrightarrow> acl_flags acl AND kAutoInherit \<noteq> 0"

definition isProtected :: "RichACL \<Rightarrow> bool" where
  "isProtected acl \<longleftrightarrow> acl_flags acl AND kProtected \<noteq> 0"

definition isMasked :: "RichACL \<Rightarrow> bool" where
  "isMasked acl \<longleftrightarrow> acl_flags acl AND kMasked \<noteq> 0"

definition isWriteThrough :: "RichACL \<Rightarrow> bool" where
  "isWriteThrough acl \<longleftrightarrow> acl_flags acl AND kWriteThrough \<noteq> 0"

definition isAutoSetMode :: "RichACL \<Rightarrow> bool" where
  "isAutoSetMode acl \<longleftrightarrow> acl_flags acl AND kAutoSetMode \<noteq> 0"

definition convertMode2Mask :: "16 word \<Rightarrow> 32 word" where
  "convertMode2Mask mode =
     (if mode AND 4 \<noteq> 0 then kPosixModeRead else 0) OR
     (if mode AND 2 \<noteq> 0 then kPosixModeWrite else 0) OR
     (if mode AND 1 \<noteq> 0 then kPosixModeExec else 0)"

definition convertMask2Mode :: "32 word \<Rightarrow> 16 word" where
  "convertMask2Mode m =
     (if m AND kPosixModeRead \<noteq> 0 then 4 else 0) OR
     (if m AND kPosixModeWrite \<noteq> 0 then 2 else 0) OR
     (if m AND kPosixModeExec \<noteq> 0 then 1 else 0)"

definition isSameMode :: "16 word \<Rightarrow> bool \<Rightarrow> RichACL \<Rightarrow> bool" where
  "isSameMode mode is_dir acl =
     (let x = (if is_dir then 0 else kDeleteChild) in
      convertMode2Mask (drop_bit 6 mode) AND NOT x = owner_mask acl \<and>
      convertMode2Mask (drop_bit 3 mode) AND NOT x = group_mask acl \<and>
      convertMode2Mask mode AND NOT x = other_mask acl \<and>
      isMasked acl \<and> isWriteThrough acl \<and> (\<not> isAutoInherit acl \<or> \<not> isProtected acl))"

definition setMode :: "16 word \<Rightarrow> bool \<Rightarrow> RichACL \<Rightarrow> RichACL" where
  "setMode mode is_dir acl =
     (let x = (if is_dir then 0 else kDeleteChild) in
      acl\<lparr>acl_flags := acl_flags acl OR (kMasked OR kWriteThrough),
          owner_mask := convertMode2Mask (drop_bit 6 mode) AND NOT x,
          group_mask := convertMode2Mask (drop_bit 3 mode) AND NOT x,
          other_mask := convertMode2Mask mode AND NOT x\<rparr>)"

definition getMode :: "RichACL \<Rightarrow> 16 word" where
  "getMode acl = push_bit 6 (convertMask2Mode (owner_mask acl)) OR
     push_bit 3 (convertMask2Mode (group_mask acl)) OR convertMask2Mode (other_mask acl)"

definition createFromMode :: "16 word \<Rightarrow> bool \<Rightarrow> RichACL" where
  "createFromMode mode is_dir =
     (let x = (if is_dir then 0 else kDeleteChild);
          om = convertMode2Mask (drop_bit 6 mode) AND NOT x;
          gm = convertMode2Mask (drop_bit 3 mode) AND NOT x;
          em = convertMode2Mask mode AND NOT x;
          d1 = NOT om AND (gm OR em);
          d2 = NOT gm AND em
      in \<lparr>owner_mask = om, group_mask = gm, other_mask = em, acl_flags = 0, ace_list =
           (if d1 \<noteq> 0 then [mkAce kAccessDeniedAceType kSpecialWho d1 kOwnerSpecialId] else []) @
           (if om AND NOT (gm AND em) \<noteq> 0 then [mkAce kAccessAllowedAceType kSpecialWho om kOwnerSpecialId] else []) @
           (if d2 \<noteq> 0 then [mkAce kAccessDeniedAceType kSpecialWho d2 kGroupSpecialId] else []) @
           (if gm AND NOT em \<noteq> 0 then [mkAce kAccessAllowedAceType kSpecialWho gm kGroupSpecialId] else []) @
           (if em \<noteq> 0 then [mkAce kAccessAllowedAceType kSpecialWho em kEveryoneSpecialId] else [])\<rparr>)"

subsection \<open>The permission check\<close>

text \<open>How an entry applies to a user: the jump target in the loop of \<open>checkPermission\<close>.\<close>

datatype ace_match = NoMatch | MatchesOwner | MatchesGroupClass | MatchesEveryone

definition matchAce :: "32 word \<Rightarrow> bool \<Rightarrow> 32 word \<Rightarrow> 32 word list \<Rightarrow> Ace \<Rightarrow> ace_match" where
  "matchAce owner_uid in_owning_group uid groups ace =
     (if isInheritOnly ace then NoMatch
      else if isOwner ace then (if owner_uid \<noteq> uid then NoMatch else MatchesOwner)
      else if isGroup ace then (if \<not> in_owning_group then NoMatch else MatchesGroupClass)
      else if isUnixUser ace then
        (if uid \<noteq> ace_id ace then NoMatch else if uid = owner_uid then MatchesOwner else MatchesGroupClass)
      else if isUnixGroup ace then (if ace_id ace \<notin> set groups then NoMatch else MatchesGroupClass)
      else MatchesEveryone)"

fun check_loop ::
  "RichACL \<Rightarrow> (Ace \<Rightarrow> ace_match) \<Rightarrow> Ace list \<Rightarrow> 32 word \<Rightarrow> 32 word \<Rightarrow> bool \<Rightarrow> 32 word \<times> 32 word \<times> bool" where
  "check_loop acl match [] denied m in_class = (denied, m, in_class)"
| "check_loop acl match (ace # aces) denied m in_class =
    (if match ace = NoMatch then check_loop acl match aces denied m in_class
     else
       (let ace_m = (if match ace = MatchesGroupClass \<and> isMasked acl \<and> isAllow ace
                     then amask ace AND group_mask acl else amask ace);
            in_class' = (in_class \<or> match ace \<noteq> MatchesEveryone);
            denied' = (if isDeny ace then denied OR (ace_m AND m) else denied);
            m' = m AND NOT ace_m
        in if m' = 0 \<and> in_class' then (denied', m', in_class')
           else check_loop acl match aces denied' m' in_class'))"

definition checkPermission ::
  "RichACL \<Rightarrow> 32 word \<Rightarrow> 32 word \<Rightarrow> 32 word \<Rightarrow> 32 word \<Rightarrow> 32 word list \<Rightarrow> bool" where
  "checkPermission acl requested owner_uid owner_gid uid groups =
     (let in_owning_group = (owner_gid \<in> set groups) in
      if isMasked acl \<and> isWriteThrough acl \<and> owner_uid = uid then requested AND NOT (owner_mask acl) = 0
      else
        (case check_loop acl (matchAce owner_uid in_owning_group uid groups) (ace_list acl) 0 requested
                (if isMasked acl then in_owning_group else True) of
           (denied, m, in_class) \<Rightarrow>
             (let denied' = denied OR m;
                  denied'' = (if isMasked acl then
                      (if uid = owner_uid then denied' OR (requested AND NOT (owner_mask acl))
                       else if in_class then denied' OR (requested AND NOT (group_mask acl))
                       else if isWriteThrough acl then requested AND NOT (other_mask acl)
                       else denied' OR (requested AND NOT (other_mask acl)))
                    else denied')
              in denied'' = 0)))"

subsection \<open>Masks\<close>

definition allowedToWho :: "Ace \<Rightarrow> RichACL \<Rightarrow> 32 word" where
  "allowedToWho who acl =
     foldr (\<lambda>ace allowed.
         if isInheritOnly ace then allowed
         else if isSameIdentifier ace who \<or> isEveryone ace then
           (if isAllow ace then allowed OR amask ace
            else if isDeny ace then allowed AND NOT (amask ace) else allowed)
         else allowed) (ace_list acl) 0"

definition groupClassAllowed :: "RichACL \<Rightarrow> 32 word" where
  "groupClassAllowed acl =
     (case foldr (\<lambda>ace (everyone, group_class, had_group).
          if isInheritOnly ace \<or> isOwner ace then (everyone, group_class, had_group)
          else if isEveryone ace then
            (if isAllow ace then everyone OR amask ace
             else if isDeny ace then everyone AND NOT (amask ace) else everyone, group_class, had_group)
          else (everyone, group_class OR allowedToWho ace acl, had_group \<or> isGroup ace))
        (ace_list acl) (0, 0, False) of
      (everyone, group_class, had_group) \<Rightarrow> if \<not> had_group then group_class OR everyone else group_class)"

definition max_mask_step :: "32 word \<Rightarrow> Ace \<Rightarrow> 32 word \<times> 32 word \<times> 32 word \<Rightarrow> 32 word \<times> 32 word \<times> 32 word" where
  "max_mask_step gmask ace = (\<lambda>(om, gm, em).
     if isInheritOnly ace then (om, gm, em)
     else if isOwner ace then
       (if isAllow ace then om OR amask ace else if isDeny ace then om AND NOT (amask ace) else om, gm, em)
     else if isEveryone ace then
       (if isAllow ace then (om OR amask ace, gm OR (amask ace AND gmask), em OR amask ace)
        else if isDeny ace then (om AND NOT (amask ace), gm AND NOT (amask ace), em AND NOT (amask ace))
        else (om, gm, em))
     else if isAllow ace then (om OR (amask ace AND gmask), gm OR (amask ace AND gmask), em)
     else (om, gm, em))"

definition group_class_gmask :: "RichACL \<Rightarrow> 32 word" where
  "group_class_gmask acl =
     (if list_ex (\<lambda>ace. \<not> isInheritOnly ace \<and> \<not> isOwner ace \<and> \<not> isEveryone ace \<and> isDeny ace) (ace_list acl)
      then groupClassAllowed acl else NOT 0)"

definition computeMaxMasks :: "RichACL \<Rightarrow> RichACL" where
  "computeMaxMasks acl =
     (case foldr (max_mask_step (group_class_gmask acl)) (ace_list acl) (0, 0, 0) of
        (om, gm, em) \<Rightarrow> acl\<lparr>owner_mask := om, group_mask := gm, other_mask := em,
           acl_flags := acl_flags acl AND NOT (kWriteThrough OR kMasked)\<rparr>)"

subsection \<open>Inheritance\<close>

definition removeInheritOnly :: "bool \<Rightarrow> RichACL \<Rightarrow> RichACL" where
  "removeInheritOnly remove_with_flag_set acl = acl\<lparr>ace_list :=
     filter (\<lambda>ace. \<not> ((remove_with_flag_set \<and> isInheritOnly ace) \<or>
                      (\<not> remove_with_flag_set \<and> \<not> isInheritOnly ace))) (ace_list acl)\<rparr>"

definition checkInheritFlags :: "bool \<Rightarrow> RichACL \<Rightarrow> bool" where
  "checkInheritFlags is_directory acl =
     (if list_ex (\<lambda>ace. isInheritOnly ace \<and> \<not> isInheritable ace) (ace_list acl) then False
      else if is_directory then True
      else \<not> list_ex (\<lambda>ace. isInheritOnly ace \<or> isInheritable ace) (ace_list acl))"

definition inheritAce :: "bool \<Rightarrow> Ace \<Rightarrow> Ace" where
  "inheritAce is_dir dir_ace =
     (if is_dir then
        dir_ace\<lparr>ace_flags :=
          (if ace_flags dir_ace AND kNoPropagateInheritAce \<noteq> 0 then ace_flags dir_ace AND NOT kInheritanceFlags
           else if ace_flags dir_ace AND kDirectoryInheritAce \<noteq> 0 then ace_flags dir_ace AND NOT kInheritOnlyAce
           else ace_flags dir_ace OR kInheritOnlyAce)\<rparr>
      else
        dir_ace\<lparr>ace_flags := ace_flags dir_ace AND NOT kInheritanceFlags,
                ace_mask := ucast (amask dir_ace AND NOT kDeleteChild)\<rparr>)"

definition inheritACL :: "RichACL \<Rightarrow> bool \<Rightarrow> RichACL" where
  "inheritACL dir_acl is_dir =
     (let aces = map (inheritAce is_dir)
           (filter (\<lambda>a. if is_dir then inheritsToDirectory a else ace_flags a AND kFileInheritAce \<noteq> 0)
             (ace_list dir_acl))
      in if isAutoInherit dir_acl then
           emptyACL\<lparr>acl_flags := kAutoInherit,
             ace_list := map (\<lambda>a. a\<lparr>ace_flags := ace_flags a OR kInheritedAce\<rparr>) aces\<rparr>
         else emptyACL\<lparr>ace_list := map (\<lambda>a. a\<lparr>ace_flags := ace_flags a AND NOT kInheritedAce\<rparr>) aces\<rparr>)"

text \<open>The running state of \<open>equivMode\<close>; \<open>None\<close> when the loop returned \<open>false\<close>.\<close>

record equiv_state =
  owner_allowed :: "32 word"
  owner_defined :: "32 word"
  group_allowed :: "32 word"
  group_defined :: "32 word"
  everyone_allowed :: "32 word"
  everyone_defined :: "32 word"

definition equiv_step :: "Ace \<Rightarrow> equiv_state \<Rightarrow> equiv_state option" where
  "equiv_step ace s =
     (if ace_flags ace AND NOT kSpecialWho \<noteq> 0 then None
      else if isOwner ace \<or> isEveryone ace then
        (let x = amask ace AND NOT (owner_defined s) in
         if isAllow ace \<and> x AND (group_defined s AND NOT (group_allowed s)) \<noteq> 0 then None
         else if \<not> isAllow ace \<and> x AND group_allowed s \<noteq> 0 then None
         else
           (let s1 = s\<lparr>owner_allowed := (if isAllow ace then owner_allowed s OR x else owner_allowed s),
                       owner_defined := owner_defined s OR x\<rparr>
            in if isEveryone ace then
                 Some (s1\<lparr>group_allowed := (if isAllow ace
                             then group_allowed s OR (amask ace AND NOT (group_defined s)) else group_allowed s),
                          everyone_allowed := (if isAllow ace
                             then everyone_allowed s OR (amask ace AND NOT (everyone_defined s))
                             else everyone_allowed s),
                          group_defined := group_defined s OR amask ace,
                          everyone_defined := everyone_defined s OR amask ace\<rparr>)
               else Some s1))
      else if isGroup ace then
        (let x = amask ace AND NOT (group_defined s) in
         Some (s\<lparr>group_allowed := (if isAllow ace then group_allowed s OR x else group_allowed s),
                 group_defined := group_defined s OR x\<rparr>))
      else None)"

fun equiv_loop :: "Ace list \<Rightarrow> equiv_state \<Rightarrow> equiv_state option" where
  "equiv_loop [] s = Some s"
| "equiv_loop (ace # aces) s = (case equiv_step ace s of None \<Rightarrow> None | Some s' \<Rightarrow> equiv_loop aces s')"

text \<open>\<open>equivMode\<close>: the result and the mode it leaves in its in-out argument.\<close>

definition equivMode :: "RichACL \<Rightarrow> 16 word \<Rightarrow> bool \<Rightarrow> bool \<times> 16 word" where
  "equivMode acl mode_out is_dir =
     (let x = (if is_dir then 0 else kDeleteChild);
          s0 = \<lparr>owner_allowed = 0, owner_defined = kPosixAlwaysAllowed OR kPosixOwnerAllowed OR x,
                group_allowed = 0, group_defined = kPosixAlwaysAllowed OR x,
                everyone_allowed = 0, everyone_defined = kPosixAlwaysAllowed OR x\<rparr>
      in if acl_flags acl AND NOT (kWriteThrough OR kMasked) \<noteq> 0 then (False, mode_out)
         else if isAutoSetMode acl \<and> ace_list acl = [] then (True, mode_out)
         else case equiv_loop (ace_list acl) s0 of
           None \<Rightarrow> (False, mode_out)
         | Some s \<Rightarrow>
             if group_allowed s AND NOT (owner_defined s) \<noteq> 0 then (False, mode_out)
             else
               (let oa = (if isMasked acl then (if isWriteThrough acl then owner_mask acl
                             else owner_allowed s AND owner_mask acl) else owner_allowed s);
                    ea = (if isMasked acl then (if isWriteThrough acl then other_mask acl
                             else everyone_allowed s AND other_mask acl) else everyone_allowed s);
                    ga = (if isMasked acl then group_allowed s AND group_mask acl else group_allowed s);
                    mode = (mode_out AND NOT 0x1FF) OR push_bit 6 (convertMask2Mode oa) OR
                           push_bit 3 (convertMask2Mode ga) OR convertMask2Mode ea
                in if (convertMode2Mask (drop_bit 6 mode) XOR oa) AND NOT x \<noteq> 0 \<or>
                      (convertMode2Mask (drop_bit 3 mode) XOR ga) AND NOT x \<noteq> 0 \<or>
                      (convertMode2Mask mode XOR ea) AND NOT x \<noteq> 0
                   then (False, mode_out) else (True, mode)))"

text \<open>\<open>inheritInode\<close>: validity, mode and list.\<close>

definition inheritInode :: "RichACL \<Rightarrow> 16 word \<Rightarrow> 16 word \<Rightarrow> bool \<Rightarrow> bool \<times> 16 word \<times> RichACL" where
  "inheritInode dir_acl mode_out umask is_dir =
     (let acl = inheritACL dir_acl is_dir in
      if length (ace_list acl) = 0 then (False, mode_out AND NOT umask, acl)
      else case equivMode acl mode_out is_dir of
        (True, mode) \<Rightarrow> (False, mode_out AND mode, acl)
      | (False, mode) \<Rightarrow>
          (let acl1 = (if isAutoInherit acl then acl\<lparr>acl_flags := acl_flags acl OR kProtected\<rparr> else acl);
               acl2 = computeMaxMasks acl1;
               acl3 = acl2\<lparr>acl_flags := acl_flags acl2 OR kMasked,
                           owner_mask := owner_mask acl2 AND convertMode2Mask (drop_bit 6 mode),
                           group_mask := group_mask acl2 AND convertMode2Mask (drop_bit 3 mode),
                           other_mask := other_mask acl2 AND convertMode2Mask mode\<rparr>
           in (True, getMode acl3, acl3)))"

definition createExplicitInheritance :: "RichACL \<Rightarrow> RichACL" where
  "createExplicitInheritance acl =
     (let split = (\<lambda>a. \<not> (isInheritOnly a \<or> \<not> isInheritable a))
      in acl\<lparr>ace_list :=
        map (\<lambda>a. if split a then a\<lparr>ace_flags := ace_flags a AND
                   NOT (kInheritOnlyAce OR kFileInheritAce OR kDirectoryInheritAce)\<rparr> else a) (ace_list acl) @
        map (\<lambda>a. a\<lparr>ace_flags := ace_flags a OR kInheritOnlyAce\<rparr>) (filter split (ace_list acl))\<rparr>)"

subsection \<open>The check, one permission at a time\<close>

definition eff_mask :: "RichACL \<Rightarrow> (Ace \<Rightarrow> ace_match) \<Rightarrow> Ace \<Rightarrow> 32 word" where
  "eff_mask acl mt a = (if mt a = MatchesGroupClass \<and> isMasked acl \<and> isAllow a
     then amask a AND group_mask acl else amask a)"

definition decides :: "RichACL \<Rightarrow> (Ace \<Rightarrow> ace_match) \<Rightarrow> nat \<Rightarrow> Ace \<Rightarrow> bool" where
  "decides acl mt n a \<longleftrightarrow> mt a \<noteq> NoMatch \<and> bit (eff_mask acl mt a) n"

text \<open>Permission \<open>n\<close> is granted when the first entry that decides it is not a deny entry.\<close>

primrec granted :: "RichACL \<Rightarrow> (Ace \<Rightarrow> ace_match) \<Rightarrow> Ace list \<Rightarrow> nat \<Rightarrow> bool" where
  "granted acl mt [] n \<longleftrightarrow> False"
| "granted acl mt (a # as) n \<longleftrightarrow> (if decides acl mt n a then \<not> isDeny a else granted acl mt as n)"

definition in_class :: "(Ace \<Rightarrow> ace_match) \<Rightarrow> Ace list \<Rightarrow> bool" where
  "in_class mt aces \<longleftrightarrow> (\<exists>a \<in> set aces. mt a = MatchesOwner \<or> mt a = MatchesGroupClass)"

lemma granted_find:
  "granted acl mt aces n \<longleftrightarrow> (\<exists>a. List.find (decides acl mt n) aces = Some a \<and> \<not> isDeny a)"
  by (induction aces) auto

lemma word_zero_bits: "w = 0 \<longleftrightarrow> (\<forall>n. \<not> bit w n)" for w :: "'a::len word"
  by (auto simp: bit_eq_iff dest: bit_imp_le_length)

lemma bit_andnot: "bit (r AND NOT w) n \<longleftrightarrow> bit r n \<and> \<not> bit w n" for r w :: "'a::len word"
  by (auto simp: bit_and_iff bit_not_iff dest: bit_imp_le_length)

lemma check_loop_spec:
  assumes "check_loop acl mt aces denied m c = (d, m', c')"
  shows "bit (d OR m') n \<longleftrightarrow> bit denied n \<or> bit m n \<and> \<not> granted acl mt aces n"
    and "c' \<longleftrightarrow> c \<or> in_class mt aces"
proof -
  have "(bit (d OR m') n \<longleftrightarrow> bit denied n \<or> bit m n \<and> \<not> granted acl mt aces n) \<and> (c' \<longleftrightarrow> c \<or> in_class mt aces)"
    using assms
  proof (induction aces arbitrary: denied m c)
    case Nil
    then show ?case by (auto simp: in_class_def bit_or_iff)
  next
    case (Cons a aces)
    show ?case
    proof (cases "mt a = NoMatch")
      case True
      then show ?thesis
        using Cons.IH [of denied m c] Cons.prems by (simp add: decides_def in_class_def)
    next
      case False
      define em where "em = eff_mask acl mt a"
      define c1 where "c1 = (c \<or> mt a \<noteq> MatchesEveryone)"
      define d1 where "d1 = (if isDeny a then denied OR (em AND m) else denied)"
      define m1 where "m1 = m AND NOT em"
      have step: "check_loop acl mt (a # aces) denied m c =
          (if m1 = 0 \<and> c1 then (d1, m1, c1) else check_loop acl mt aces d1 m1 c1)"
        unfolding em_def eff_mask_def c1_def d1_def m1_def check_loop.simps Let_def
        by (simp only: if_False False)
      have c1: "c1 \<longleftrightarrow> c \<or> mt a = MatchesOwner \<or> mt a = MatchesGroupClass"
        using False by (cases "mt a") (auto simp: c1_def)
      have dec: "decides acl mt n a \<longleftrightarrow> bit em n" using False by (simp add: decides_def em_def)
      have bits: "bit d1 n \<or> bit m1 n \<and> \<not> granted acl mt aces n \<longleftrightarrow>
          bit denied n \<or> bit m n \<and> \<not> granted acl mt (a # aces) n"
      proof -
        have "bit m1 n \<longleftrightarrow> bit m n \<and> \<not> bit em n" by (simp add: m1_def bit_andnot)
        moreover have "bit d1 n \<longleftrightarrow> bit denied n \<or> isDeny a \<and> bit em n \<and> bit m n"
          by (simp add: d1_def bit_or_iff bit_and_iff)
        ultimately show ?thesis by (auto simp: dec)
      qed
      show ?thesis
      proof (cases "m1 = 0 \<and> c1")
        case True
        then show ?thesis
          using Cons.prems bits c1 unfolding step by (auto simp: in_class_def bit_or_iff)
      next
        case False
        then have "check_loop acl mt aces d1 m1 c1 = (d, m', c')" using Cons.prems unfolding step by (auto split: if_splits)
        from Cons.IH [OF this] bits c1 show ?thesis by (auto simp: in_class_def)
      qed
    qed
  qed
  then show "bit (d OR m') n \<longleftrightarrow> bit denied n \<or> bit m n \<and> \<not> granted acl mt aces n"
    and "c' \<longleftrightarrow> c \<or> in_class mt aces" by auto
qed

definition class_mask :: "RichACL \<Rightarrow> 32 word \<Rightarrow> 32 word \<Rightarrow> bool \<Rightarrow> 32 word" where
  "class_mask acl owner_uid uid inc =
     (if uid = owner_uid then owner_mask acl else if inc then group_mask acl else other_mask acl)"

lemma subset_bits: "r AND NOT w = 0 \<longleftrightarrow> (\<forall>n. bit r n \<longrightarrow> bit w n)" for r w :: "32 word"
  by (simp add: word_zero_bits bit_andnot)

text \<open>\<open>checkPermission\<close> on every branch.\<close>

lemma checkPermission_iff:
  fixes groups :: "32 word list" and owner_uid owner_gid uid :: "32 word" and acl :: RichACL
  defines "mt \<equiv> matchAce owner_uid (owner_gid \<in> set groups) uid groups"
    and "inc \<equiv> owner_gid \<in> set groups \<or> in_class (matchAce owner_uid (owner_gid \<in> set groups) uid groups) (ace_list acl)"
  shows "checkPermission acl requested owner_uid owner_gid uid groups \<longleftrightarrow>
    (if isMasked acl \<and> isWriteThrough acl \<and> (uid = owner_uid \<or> \<not> inc)
     then requested AND NOT (class_mask acl owner_uid uid inc) = 0
     else \<forall>n. bit requested n \<longrightarrow> granted acl mt (ace_list acl) n \<and>
            (isMasked acl \<longrightarrow> bit (class_mask acl owner_uid uid inc) n))"
proof (cases "isMasked acl \<and> isWriteThrough acl \<and> owner_uid = uid")
  case True
  then show ?thesis by (simp add: checkPermission_def class_mask_def)
next
  case False
  obtain d m c where res: "check_loop acl mt (ace_list acl) 0 requested
      (if isMasked acl then owner_gid \<in> set groups else True) = (d, m, c)"
    by (cases "check_loop acl mt (ace_list acl) 0 requested
      (if isMasked acl then owner_gid \<in> set groups else True)")
  have c: "isMasked acl \<Longrightarrow> c = inc"
    using check_loop_spec(2) [OF res] by (simp add: inc_def mt_def)
  have b: "bit (d OR m) n \<longleftrightarrow> bit requested n \<and> \<not> granted acl mt (ace_list acl) n" for n
    using check_loop_spec(1) [OF res] by simp
  have z: "(d OR m) OR (requested AND NOT w) = 0 \<longleftrightarrow>
      (\<forall>n. bit requested n \<longrightarrow> granted acl mt (ace_list acl) n \<and> bit w n)" for w
    unfolding word_zero_bits bit_or_iff [of "d OR m"] b
    by (auto simp: bit_andnot)
  have z0: "d OR m = 0 \<longleftrightarrow> (\<forall>n. bit requested n \<longrightarrow> granted acl mt (ace_list acl) n)"
    unfolding word_zero_bits b by auto
  show ?thesis
    using False z z0 c unfolding checkPermission_def Let_def mt_def [symmetric] res
    by (auto simp: class_mask_def)
qed

subsection \<open>Lists made from modes\<close>

lemma bit_posix_masks:
  "bit kPosixModeRead n \<longleftrightarrow> n = 0" "bit kPosixModeExec n \<longleftrightarrow> n = 5"
  "bit kPosixModeWrite n \<longleftrightarrow> n = 1 \<or> n = 2 \<or> n = 6" "bit kDeleteChild n \<longleftrightarrow> n = 6"
proof -
  note e = bit_exp_iff [of _ n, where 'a = "32 word"]
  show "bit kPosixModeRead n \<longleftrightarrow> n = 0" "bit kPosixModeExec n \<longleftrightarrow> n = 5"
    using e [of 0] e [of 5] by (auto simp: acl_consts bit_1_iff)
  have "bit kWriteData n \<longleftrightarrow> n = 1" "bit kAppendData n \<longleftrightarrow> n = 2" and d: "bit kDeleteChild n \<longleftrightarrow> n = 6"
    using e [of 1] e [of 2] e [of 6] by (auto simp: kWriteData_def kAppendData_def kDeleteChild_def)
  then show "bit kPosixModeWrite n \<longleftrightarrow> n = 1 \<or> n = 2 \<or> n = 6"
    unfolding kPosixModeWrite_def bit_or_iff by auto
  show "bit kDeleteChild n \<longleftrightarrow> n = 6" by (rule d)
qed

lemma bit_convertMode2Mask:
  "bit (convertMode2Mask mode) n \<longleftrightarrow>
     n = 0 \<and> bit mode 2 \<or> (n = 1 \<or> n = 2 \<or> n = 6) \<and> bit mode 1 \<or> n = 5 \<and> bit mode 0"
proof -
  have c: "mode AND 4 \<noteq> 0 \<longleftrightarrow> bit mode 2" "mode AND 2 \<noteq> 0 \<longleftrightarrow> bit mode 1" "mode AND 1 \<noteq> 0 \<longleftrightarrow> bit mode 0"
    using and_exp_eq_0_iff_not_bit [of mode 2] and_exp_eq_0_iff_not_bit [of mode 1]
      and_exp_eq_0_iff_not_bit [of mode 0] by simp_all
  show ?thesis
    unfolding convertMode2Mask_def c by (auto simp: bit_or_iff bit_posix_masks)
qed

lemma amask_mkAce: "bit (amask (mkAce t f m i)) n \<longleftrightarrow> n < 21 \<and> bit m n"
  by (auto simp: amask_def mkAce_def bit_ucast_iff dest: bit_imp_le_length)

lemma match_special:
  "matchAce ou ing uid gs (mkAce t kSpecialWho m kOwnerSpecialId) = (if ou \<noteq> uid then NoMatch else MatchesOwner)"
  "matchAce ou ing uid gs (mkAce t kSpecialWho m kGroupSpecialId) = (if ing then MatchesGroupClass else NoMatch)"
  "matchAce ou ing uid gs (mkAce t kSpecialWho m kEveryoneSpecialId) = MatchesEveryone"
  by (simp_all add: matchAce_def isInheritOnly_def isOwner_def isGroup_def isUnixUser_def isUnixGroup_def
      mkAce_def acl_consts)

lemma isDeny_mkAce [simp]:
  "isDeny (mkAce kAccessDeniedAceType f m i)" "\<not> isDeny (mkAce kAccessAllowedAceType f m i)"
  by (simp_all add: isDeny_def mkAce_def acl_consts)

lemma granted_opt:
  "granted acl mt ((if c then [a] else []) @ rest) n =
     (if c \<and> decides acl mt n a then \<not> isDeny a else granted acl mt rest n)"
  by simp

lemma createFromMode_fields:
  "owner_mask (createFromMode mode is_dir) = convertMode2Mask (drop_bit 6 mode) AND NOT (if is_dir then 0 else kDeleteChild)"
  "group_mask (createFromMode mode is_dir) = convertMode2Mask (drop_bit 3 mode) AND NOT (if is_dir then 0 else kDeleteChild)"
  "other_mask (createFromMode mode is_dir) = convertMode2Mask mode AND NOT (if is_dir then 0 else kDeleteChild)"
  "acl_flags (createFromMode mode is_dir) = 0"
  by (simp_all add: createFromMode_def Let_def)

lemma createFromMode_bits:
  assumes "w = owner_mask (createFromMode mode is_dir) \<or> w = group_mask (createFromMode mode is_dir) \<or>
    w = other_mask (createFromMode mode is_dir)" "bit w n"
  shows "n < 21"
  using assms by (auto simp: createFromMode_fields bit_andnot bit_convertMode2Mask)

lemma createFromMode_granted:
  fixes mode is_dir ou og uid gs
  defines "acl \<equiv> createFromMode mode is_dir"
  shows "granted acl (matchAce ou ing uid gs) (ace_list acl) n \<longleftrightarrow>
    bit (if uid = ou then owner_mask acl else if ing then group_mask acl else other_mask acl) n"
proof -
  define o1 where "o1 = owner_mask acl"
  define g1 where "g1 = group_mask acl"
  define e1 where "e1 = other_mask acl"
  have lt: "bit o1 n \<Longrightarrow> n < 21" "bit g1 n \<Longrightarrow> n < 21" "bit e1 n \<Longrightarrow> n < 21"
    using createFromMode_bits [of _ mode is_dir n] by (auto simp: o1_def g1_def e1_def acl_def)
  have nm: "\<not> isMasked acl" by (simp add: isMasked_def acl_def createFromMode_fields)
  have l: "ace_list acl =
       (if NOT o1 AND (g1 OR e1) \<noteq> 0 then [mkAce kAccessDeniedAceType kSpecialWho (NOT o1 AND (g1 OR e1)) kOwnerSpecialId] else []) @
       (if o1 AND NOT (g1 AND e1) \<noteq> 0 then [mkAce kAccessAllowedAceType kSpecialWho o1 kOwnerSpecialId] else []) @
       (if NOT g1 AND e1 \<noteq> 0 then [mkAce kAccessDeniedAceType kSpecialWho (NOT g1 AND e1) kGroupSpecialId] else []) @
       (if g1 AND NOT e1 \<noteq> 0 then [mkAce kAccessAllowedAceType kSpecialWho g1 kGroupSpecialId] else []) @
       (if e1 \<noteq> 0 then [mkAce kAccessAllowedAceType kSpecialWho e1 kEveryoneSpecialId] else []) @ []"
    unfolding o1_def g1_def e1_def acl_def createFromMode_fields by (simp add: createFromMode_def Let_def)
  have dec: "decides acl mt n (mkAce t f m i) \<longleftrightarrow> mt (mkAce t f m i) \<noteq> NoMatch \<and> n < 21 \<and> bit m n" for mt t f m i
    using nm by (simp add: decides_def eff_mask_def amask_mkAce)
  have nz: "bit w n \<Longrightarrow> w \<noteq> 0" for w :: "32 word" by auto
  have o2: "o1 AND NOT (g1 AND e1) = 0 \<Longrightarrow> bit o1 n \<Longrightarrow> bit g1 n \<and> bit e1 n"
    unfolding subset_bits by (auto simp: bit_and_iff)
  have g2: "g1 AND NOT e1 = 0 \<Longrightarrow> bit g1 n \<Longrightarrow> bit e1 n"
    unfolding subset_bits by auto
  have d1: "bit (NOT o1 AND (g1 OR e1)) n \<longleftrightarrow> \<not> bit o1 n \<and> (bit g1 n \<or> bit e1 n)"
    "bit (NOT g1 AND e1) n \<longleftrightarrow> \<not> bit g1 n \<and> bit e1 n"
    by (auto simp: and.commute [of "NOT _"] bit_andnot bit_or_iff)
  have "granted acl (matchAce ou ing uid gs) (ace_list acl) n \<longleftrightarrow>
    bit (if uid = ou then o1 else if ing then g1 else e1) n"
    unfolding l granted_opt dec match_special d1 granted.simps
    using o2 g2 nz [of "NOT o1 AND (g1 OR e1)"] nz [of "NOT g1 AND e1"] nz [of e1] lt d1
    by (cases "uid = ou"; cases ing; cases "bit o1 n"; cases "bit g1 n"; cases "bit e1 n") auto
  then show ?thesis by (simp add: o1_def g1_def e1_def)
qed

lemma bit_convertMask2Mode:
  "bit (convertMask2Mode m) n \<longleftrightarrow> n = 2 \<and> m AND kPosixModeRead \<noteq> 0 \<or> n = 1 \<and> m AND kPosixModeWrite \<noteq> 0 \<or>
     n = 0 \<and> m AND kPosixModeExec \<noteq> 0"
proof -
  have "bit (4 :: 16 word) n \<longleftrightarrow> n = 2" "bit (2 :: 16 word) n \<longleftrightarrow> n = 1" "bit (1 :: 16 word) n \<longleftrightarrow> n = 0"
    using bit_exp_iff [of 2 n, where 'a = "16 word"] bit_exp_iff [of 1 n, where 'a = "16 word"]
    by (auto simp: bit_1_iff)
  then show ?thesis
    unfolding convertMask2Mode_def by (auto simp: bit_or_iff)
qed

lemma bit_and_7: "bit (w AND 7) n \<longleftrightarrow> n < 3 \<and> bit w n" for w :: "16 word"
  using bit_mask_iff [of 3 n, where 'a = "16 word"] by (auto simp: mask_eq_exp_minus_1 bit_and_iff)

lemma mask_mode_inverse:
  "convertMask2Mode (convertMode2Mask mode AND NOT (if is_dir then 0 else kDeleteChild)) = mode AND 7"
proof (rule bit_word_eqI)
  fix n :: nat
  let ?w = "convertMode2Mask mode AND NOT (if is_dir then 0 else kDeleteChild)"
  have nz: "?w AND k \<noteq> 0 \<longleftrightarrow> (\<exists>i. bit ?w i \<and> bit k i)" for k
    unfolding word_zero_bits by (simp only: bit_and_iff [of ?w] not_all not_not)
  have b: "bit ?w i \<longleftrightarrow> (i = 0 \<and> bit mode 2 \<or> (i = 1 \<or> i = 2 \<or> i = 6) \<and> bit mode 1 \<or> i = 5 \<and> bit mode 0) \<and>
     (is_dir \<or> i \<noteq> 6)" for i
    by (auto simp: bit_andnot bit_convertMode2Mask bit_posix_masks)
  have r: "?w AND kPosixModeRead \<noteq> 0 \<longleftrightarrow> bit mode 2" and x: "?w AND kPosixModeExec \<noteq> 0 \<longleftrightarrow> bit mode 0"
    unfolding nz b bit_posix_masks by auto
  have "(\<exists>i. bit ?w i \<and> (i = 1 \<or> i = 2 \<or> i = 6)) \<longleftrightarrow> bit mode 1"
  proof
    assume "bit mode 1"
    then have "bit ?w 1" unfolding b by simp
    then show "\<exists>i. bit ?w i \<and> (i = 1 \<or> i = 2 \<or> i = 6)" by blast
  qed (unfold b, auto)
  then have w: "?w AND kPosixModeWrite \<noteq> 0 \<longleftrightarrow> bit mode 1"
    unfolding nz bit_posix_masks .
  have "n = 0 \<or> n = 1 \<or> n = 2 \<or> 3 \<le> n" by linarith
  then show "bit (convertMask2Mode ?w) n = bit (mode AND 7) n"
    unfolding bit_convertMask2Mode r w x bit_and_7 by auto
qed

lemma getMode_bits:
  assumes "\<And>n. bit (convertMask2Mode (owner_mask acl)) n \<longleftrightarrow> n < 3 \<and> bit mode (n + 6)"
    and "\<And>n. bit (convertMask2Mode (group_mask acl)) n \<longleftrightarrow> n < 3 \<and> bit mode (n + 3)"
    and "\<And>n. bit (convertMask2Mode (other_mask acl)) n \<longleftrightarrow> n < 3 \<and> bit mode n"
  shows "getMode acl = mode AND 0x1FF"
proof (rule bit_word_eqI)
  fix n assume n: "n < LENGTH(16)"
  have "bit (0x1FF :: 16 word) n \<longleftrightarrow> n < 9"
    using bit_mask_iff [of 9 n, where 'a = "16 word"] by (auto simp: mask_eq_exp_minus_1)
  moreover have "n < 3 \<or> 3 \<le> n \<and> n < 6 \<or> 6 \<le> n \<and> n < 9 \<or> 9 \<le> n" by linarith
  ultimately show "bit (getMode acl) n = bit (mode AND 0x1FF) n"
    using n unfolding getMode_def by (auto simp: bit_or_iff bit_push_bit_iff bit_and_iff assms)
qed

lemma getMode_setMode: "getMode (setMode mode is_dir acl) = mode AND 0x1FF"
proof (rule getMode_bits)
  note inv = mask_mode_inverse [where is_dir = is_dir]
  show "bit (convertMask2Mode (owner_mask (setMode mode is_dir acl))) n \<longleftrightarrow> n < 3 \<and> bit mode (n + 6)"
    "bit (convertMask2Mode (group_mask (setMode mode is_dir acl))) n \<longleftrightarrow> n < 3 \<and> bit mode (n + 3)"
    "bit (convertMask2Mode (other_mask (setMode mode is_dir acl))) n \<longleftrightarrow> n < 3 \<and> bit mode n" for n
    using inv [of "drop_bit 6 mode"] inv [of "drop_bit 3 mode"] inv [of mode]
    by (simp_all add: setMode_def Let_def bit_and_7 bit_drop_bit_eq add.commute split del: if_split)
qed

subsection \<open>Flags as bits\<close>

lemma acl_bits:
  "isMasked acl \<longleftrightarrow> bit (acl_flags acl) 7" "isWriteThrough acl \<longleftrightarrow> bit (acl_flags acl) 6"
  "isAutoInherit acl \<longleftrightarrow> bit (acl_flags acl) 0" "isProtected acl \<longleftrightarrow> bit (acl_flags acl) 1"
  "isAutoSetMode acl \<longleftrightarrow> bit (acl_flags acl) 5"
  using and_exp_eq_0_iff_not_bit [of "acl_flags acl" 7] and_exp_eq_0_iff_not_bit [of "acl_flags acl" 6]
    and_exp_eq_0_iff_not_bit [of "acl_flags acl" 0] and_exp_eq_0_iff_not_bit [of "acl_flags acl" 1]
    and_exp_eq_0_iff_not_bit [of "acl_flags acl" 5]
  by (simp_all add: isMasked_def isWriteThrough_def isAutoInherit_def isProtected_def isAutoSetMode_def acl_consts)

lemma ace_flag_bits:
  fixes f :: "9 word"
  shows "f AND kSpecialWho \<noteq> 0 \<longleftrightarrow> bit f 8" "f AND kIdentifierGroup \<noteq> 0 \<longleftrightarrow> bit f 6"
    "f AND kInheritOnlyAce \<noteq> 0 \<longleftrightarrow> bit f 3" "f AND kFileInheritAce \<noteq> 0 \<longleftrightarrow> bit f 0"
    "f AND kDirectoryInheritAce \<noteq> 0 \<longleftrightarrow> bit f 1" "f AND kNoPropagateInheritAce \<noteq> 0 \<longleftrightarrow> bit f 2"
    "f AND kInheritedAce \<noteq> 0 \<longleftrightarrow> bit f 7"
  using and_exp_eq_0_iff_not_bit [of f 8] and_exp_eq_0_iff_not_bit [of f 6] and_exp_eq_0_iff_not_bit [of f 3]
    and_exp_eq_0_iff_not_bit [of f 0] and_exp_eq_0_iff_not_bit [of f 1] and_exp_eq_0_iff_not_bit [of f 2]
    and_exp_eq_0_iff_not_bit [of f 7]
  by (simp_all add: acl_consts)

lemma isSameMode_setMode:
  "isSameMode mode is_dir (setMode mode is_dir acl) \<longleftrightarrow> \<not> isAutoInherit acl \<or> \<not> isProtected acl"
  by (simp add: isSameMode_def setMode_def Let_def acl_bits bit_or_iff acl_consts split del: if_split)

subsection \<open>Upper bound masks\<close>

text \<open>Entries as the check and the mask computation both understand them.\<close>

definition wf_ace :: "Ace \<Rightarrow> bool" where
  "wf_ace a \<longleftrightarrow> (isAllow a \<or> isDeny a) \<and>
     (ace_flags a AND kSpecialWho \<noteq> 0 \<longrightarrow> ace_id a \<in> {kOwnerSpecialId, kGroupSpecialId, kEveryoneSpecialId})"

definition first_allows :: "(Ace \<Rightarrow> bool) \<Rightarrow> nat \<Rightarrow> Ace list \<Rightarrow> bool" where
  "first_allows P n aces \<longleftrightarrow> (\<exists>a. List.find (\<lambda>a. P a \<and> bit (amask a) n) aces = Some a \<and> isAllow a)"

lemma first_allows_simps [simp]:
  "\<not> first_allows P n []"
  "first_allows P n (a # as) \<longleftrightarrow> (if P a \<and> bit (amask a) n then isAllow a else first_allows P n as)"
  by (auto simp: first_allows_def)

lemma find_weaken:
  assumes "List.find Q xs = Some a" "Q' a" "\<And>x. x \<in> set xs \<Longrightarrow> Q' x \<Longrightarrow> Q x"
  shows "List.find Q' xs = Some a"
  using assms by (induction xs) (auto split: if_splits)

lemma isDeny_iff: "wf_ace a \<Longrightarrow> isDeny a \<longleftrightarrow> \<not> isAllow a"
  unfolding wf_ace_def isDeny_def isAllow_def kAccessAllowedAceType_def kAccessDeniedAceType_def by auto

lemma allowedToWho_bit:
  assumes "\<forall>a \<in> set (ace_list acl). wf_ace a"
  shows "bit (allowedToWho who acl) n \<longleftrightarrow>
    first_allows (\<lambda>a. \<not> isInheritOnly a \<and> (isSameIdentifier a who \<or> isEveryone a)) n (ace_list acl)"
proof -
  have "bit (foldr (\<lambda>ace allowed.
         if isInheritOnly ace then allowed
         else if isSameIdentifier ace who \<or> isEveryone ace then
           (if isAllow ace then allowed OR amask ace
            else if isDeny ace then allowed AND NOT (amask ace) else allowed)
         else allowed) aces 0) n \<longleftrightarrow>
    first_allows (\<lambda>a. \<not> isInheritOnly a \<and> (isSameIdentifier a who \<or> isEveryone a)) n aces"
    if "\<forall>a \<in> set aces. wf_ace a" for aces
    using that by (induction aces) (auto simp: bit_or_iff bit_andnot isDeny_iff)
  from this [OF assms] show ?thesis by (simp add: allowedToWho_def)
qed

lemma groupClassAllowed_bit:
  assumes "\<forall>a \<in> set (ace_list acl). wf_ace a"
  shows "bit (groupClassAllowed acl) n \<longleftrightarrow>
    (\<exists>a \<in> set (ace_list acl). \<not> isInheritOnly a \<and> \<not> isOwner a \<and> \<not> isEveryone a \<and> bit (allowedToWho a acl) n) \<or>
    (\<forall>a \<in> set (ace_list acl). isGroup a \<longrightarrow> isInheritOnly a \<or> isOwner a \<or> isEveryone a) \<and>
      first_allows (\<lambda>a. \<not> isInheritOnly a \<and> \<not> isOwner a \<and> isEveryone a) n (ace_list acl)"
proof -
  have "case foldr (\<lambda>ace (everyone, group_class, had_group).
          if isInheritOnly ace \<or> isOwner ace then (everyone, group_class, had_group)
          else if isEveryone ace then
            (if isAllow ace then everyone OR amask ace
             else if isDeny ace then everyone AND NOT (amask ace) else everyone, group_class, had_group)
          else (everyone, group_class OR allowedToWho ace acl, had_group \<or> isGroup ace)) aces (0, 0, False) of
      (everyone, group_class, had_group) \<Rightarrow>
        (bit everyone n \<longleftrightarrow> first_allows (\<lambda>a. \<not> isInheritOnly a \<and> \<not> isOwner a \<and> isEveryone a) n aces) \<and>
        (bit group_class n \<longleftrightarrow> (\<exists>a \<in> set aces. \<not> isInheritOnly a \<and> \<not> isOwner a \<and> \<not> isEveryone a \<and>
           bit (allowedToWho a acl) n)) \<and>
        (had_group \<longleftrightarrow> (\<exists>a \<in> set aces. isGroup a \<and> \<not> isInheritOnly a \<and> \<not> isOwner a \<and> \<not> isEveryone a))"
    if "\<forall>a \<in> set aces. wf_ace a" for aces
    using that
  proof (induction aces)
    case (Cons a aces)
    let ?step = "\<lambda>ace (everyone, group_class, had_group).
          if isInheritOnly ace \<or> isOwner ace then (everyone, group_class, had_group)
          else if isEveryone ace then
            (if isAllow ace then everyone OR amask ace
             else if isDeny ace then everyone AND NOT (amask ace) else everyone, group_class, had_group)
          else (everyone, group_class OR allowedToWho ace acl, had_group \<or> isGroup ace)"
    obtain e g h where t: "foldr ?step aces (0, 0, False) = (e, g, h)"
      by (cases "foldr ?step aces (0, 0, False)")
    have "wf_ace a" "isDeny a \<longleftrightarrow> \<not> isAllow a" using Cons.prems by (auto simp: isDeny_iff)
    then show ?case
      using Cons.IH Cons.prems unfolding foldr.simps comp_def t
      by (cases "isInheritOnly a"; cases "isOwner a"; cases "isEveryone a"; cases "isAllow a")
         (auto simp: bit_or_iff bit_andnot)
  qed simp
  from this [OF assms] show ?thesis
    by (auto simp: groupClassAllowed_def bit_or_iff split: prod.splits)
qed

lemma max_mask_bits:
  assumes "\<forall>a \<in> set aces. wf_ace a" "n < 32"
  shows "case foldr (max_mask_step gmask) aces (0, 0, 0) of (om, gm, em) \<Rightarrow>
    (bit em n \<longleftrightarrow> first_allows (\<lambda>a. \<not> isInheritOnly a \<and> \<not> isOwner a \<and> isEveryone a) n aces) \<and>
    (bit gm n \<longleftrightarrow> bit gmask n \<and>
      first_allows (\<lambda>a. \<not> isInheritOnly a \<and> \<not> isOwner a \<and> (isEveryone a \<or> isAllow a)) n aces) \<and>
    (bit om n \<longleftrightarrow> first_allows (\<lambda>a. \<not> isInheritOnly a \<and>
       (isOwner a \<or> isEveryone a \<or> isAllow a \<and> bit gmask n)) n aces)"
  using assms(1)
proof (induction aces)
  case (Cons a aces)
  obtain om gm em where t: "foldr (max_mask_step gmask) aces (0, 0, 0) = (om, gm, em)"
    by (cases "foldr (max_mask_step gmask) aces (0, 0, 0)")
  have wf: "wf_ace a" "isDeny a \<longleftrightarrow> \<not> isAllow a" using Cons.prems by (auto simp: isDeny_iff)
  note b = bit_or_iff bit_and_iff bit_andnot
  show ?case
    using Cons.IH Cons.prems unfolding foldr.simps comp_def t
    by (cases "isInheritOnly a"; cases "isOwner a"; cases "isEveryone a"; cases "isAllow a")
       (auto simp: max_mask_step_def b(1,3) bit_and_iff [of "amask a" gmask] wf(2))
qed simp

lemma matchAce_everyone: "isEveryone a \<Longrightarrow> \<not> isInheritOnly a \<Longrightarrow> matchAce ou ing uid gs a = MatchesEveryone"
  by (auto simp: matchAce_def isEveryone_def isOwner_def isGroup_def isUnixUser_def isUnixGroup_def
      kOwnerSpecialId_def kGroupSpecialId_def kEveryoneSpecialId_def)

lemma matchAce_same:
  assumes "isSameIdentifier a b" "\<not> isInheritOnly a" "\<not> isInheritOnly b"
  shows "matchAce ou ing uid gs a = matchAce ou ing uid gs b"
proof -
  have z: "(ace_flags a XOR ace_flags b) AND (kSpecialWho OR kIdentifierGroup) = 0" and i: "ace_id a = ace_id b"
    using assms(1) by (auto simp: isSameIdentifier_def)
  have k: "bit (kSpecialWho OR kIdentifierGroup) 8" "bit (kSpecialWho OR kIdentifierGroup) 6"
    by (simp_all add: kSpecialWho_def kIdentifierGroup_def bit_or_iff)
  have "bit (ace_flags a) 8 = bit (ace_flags b) 8" "bit (ace_flags a) 6 = bit (ace_flags b) 6"
    using z k unfolding word_zero_bits bit_and_iff bit_xor_iff by blast+
  then show ?thesis
    using i assms(2,3) ace_flag_bits(1,2) [of "ace_flags a"] ace_flag_bits(1,2) [of "ace_flags b"]
    unfolding matchAce_def isOwner_def isGroup_def isUnixUser_def isUnixGroup_def by presburger
qed

lemma matchAce_cases:
  assumes "wf_ace a" "\<not> isInheritOnly a"
  shows "isEveryone a \<or> \<not> isEveryone a \<and> isOwner a \<and> matchAce ou ing uid gs a = (if ou = uid then MatchesOwner else NoMatch)
    \<or> \<not> isEveryone a \<and> \<not> isOwner a \<and> matchAce ou ing uid gs a \<noteq> MatchesEveryone"
proof (cases "ace_flags a AND kSpecialWho = 0")
  case True
  then show ?thesis
    using assms by (auto simp: matchAce_def isOwner_def isGroup_def isEveryone_def isUnixUser_def isUnixGroup_def)
next
  case False
  then have "ace_id a \<in> {kOwnerSpecialId, kGroupSpecialId, kEveryoneSpecialId}"
    using assms(1) by (simp add: wf_ace_def)
  moreover have "kOwnerSpecialId \<noteq> kEveryoneSpecialId" "kGroupSpecialId \<noteq> kEveryoneSpecialId"
    by (simp_all add: kOwnerSpecialId_def kGroupSpecialId_def kEveryoneSpecialId_def)
  ultimately show ?thesis
    using False assms(2) by (auto simp: matchAce_def isOwner_def isGroup_def isEveryone_def)
qed

lemma isOwner_not_everyone: "isOwner a \<Longrightarrow> \<not> isEveryone a"
  by (simp add: isOwner_def isEveryone_def kOwnerSpecialId_def kEveryoneSpecialId_def)

lemma matchAce_NoMatch_io: "isInheritOnly a \<Longrightarrow> matchAce ou ing uid gs a = NoMatch"
  by (simp add: matchAce_def)

text \<open>
  The permission \<open>n\<close> is granted to a user without masks. Then it is in the group class mask when the
  user is in that class, and in the mask of the user's own class.
\<close>

lemma granted_in_gmask:
  assumes wf: "\<forall>a \<in> set (ace_list acl). wf_ace a" and n: "n < 32"
    and f: "List.find (\<lambda>a. mt a \<noteq> NoMatch \<and> bit (amask a) n) (ace_list acl) = Some a0" "isAllow a0"
    and mt: "mt = matchAce ou ing uid gs"
    and cl: "\<not> isEveryone a0 \<and> \<not> isOwner a0 \<or>
      isEveryone a0 \<and> (ing \<or> (\<exists>b \<in> set (ace_list acl). mt b = MatchesGroupClass))"
  shows "bit (group_class_gmask acl) n"
proof (cases "group_class_gmask acl = NOT 0")
  case True
  then show ?thesis using n by simp
next
  case False
  then have g: "group_class_gmask acl = groupClassAllowed acl" by (simp add: group_class_gmask_def split: if_splits)
  have a0: "a0 \<in> set (ace_list acl)" "mt a0 \<noteq> NoMatch" "bit (amask a0) n" "\<not> isInheritOnly a0"
    using f(1) mt by (auto simp: find_Some_iff matchAce_NoMatch_io)
  have who: "bit (allowedToWho b acl) n"
    if "b \<in> set (ace_list acl)" "mt b \<noteq> NoMatch" "b = a0 \<or> isEveryone a0" for b
  proof -
    have bio: "\<not> isInheritOnly b" using that(2) mt by (auto simp: matchAce_NoMatch_io)
    have "List.find (\<lambda>a. (\<not> isInheritOnly a \<and> (isSameIdentifier a b \<or> isEveryone a)) \<and> bit (amask a) n) (ace_list acl) = Some a0"
    proof (rule find_weaken [OF f(1)])
      show "(\<not> isInheritOnly a0 \<and> (isSameIdentifier a0 b \<or> isEveryone a0)) \<and> bit (amask a0) n"
        using a0 that(3) by (auto simp: isSameIdentifier_def)
      show "mt x \<noteq> NoMatch \<and> bit (amask x) n"
        if "(\<not> isInheritOnly x \<and> (isSameIdentifier x b \<or> isEveryone x)) \<and> bit (amask x) n" for x
        using that matchAce_same [of x b ou ing uid gs] bio \<open>mt b \<noteq> NoMatch\<close> matchAce_everyone [of x ou ing uid gs] mt
        by auto
    qed
    then show ?thesis
      unfolding allowedToWho_bit [OF wf] first_allows_def using f(2) by blast
  qed
  show ?thesis
  proof (cases "isEveryone a0")
    case False
    then show ?thesis
      using cl a0 who [of a0] unfolding g groupClassAllowed_bit [OF wf] by blast
  next
    case True
    show ?thesis
    proof (cases "\<exists>b \<in> set (ace_list acl). mt b = MatchesGroupClass")
      case True
      then obtain b where b: "b \<in> set (ace_list acl)" "mt b = MatchesGroupClass" by blast
      then have "\<not> isInheritOnly b" "\<not> isEveryone b" "\<not> isOwner b"
        using mt matchAce_everyone [of b ou ing uid gs] by (auto simp: matchAce_NoMatch_io matchAce_def split: if_splits)
      then show ?thesis
        using b who [of b] \<open>isEveryone a0\<close> unfolding g groupClassAllowed_bit [OF wf] by auto
    next
      case no: False
      then have ing using cl True by blast
      have "\<forall>a \<in> set (ace_list acl). isGroup a \<longrightarrow> isInheritOnly a \<or> isOwner a \<or> isEveryone a"
        using no mt \<open>ing\<close> by (fastforce simp: matchAce_def)
      moreover have "List.find (\<lambda>a. (\<not> isInheritOnly a \<and> \<not> isOwner a \<and> isEveryone a) \<and> bit (amask a) n) (ace_list acl) = Some a0"
        by (rule find_weaken [OF f(1)])
          (use a0 True isOwner_not_everyone mt in \<open>auto simp: matchAce_everyone\<close>)
      ultimately show ?thesis
        using f(2) unfolding g groupClassAllowed_bit [OF wf] first_allows_def by blast
    qed
  qed
qed

definition withMaxMasks :: "RichACL \<Rightarrow> RichACL" where
  "withMaxMasks acl = (computeMaxMasks acl)\<lparr>acl_flags := acl_flags (computeMaxMasks acl) OR kMasked\<rparr>"

lemma withMaxMasks_fields:
  "ace_list (withMaxMasks acl) = ace_list acl" "isMasked (withMaxMasks acl)" "\<not> isWriteThrough (withMaxMasks acl)"
proof -
  have f: "acl_flags (withMaxMasks acl) = (acl_flags acl AND NOT (kWriteThrough OR kMasked)) OR kMasked"
    by (simp add: withMaxMasks_def computeMaxMasks_def split: prod.splits)
  have k: "bit kWriteThrough 6" "\<not> bit kMasked 6" "bit kMasked 7"
    by (simp_all add: kWriteThrough_def kMasked_def)
  show "isMasked (withMaxMasks acl)" "\<not> isWriteThrough (withMaxMasks acl)"
    unfolding acl_bits f bit_or_iff bit_andnot using k by simp_all
  show "ace_list (withMaxMasks acl) = ace_list acl"
    by (simp add: withMaxMasks_def computeMaxMasks_def split: prod.splits)
qed

lemma withMaxMasks_bits:
  assumes "\<forall>a \<in> set (ace_list acl). wf_ace a" "n < 32"
  shows "bit (other_mask (withMaxMasks acl)) n \<longleftrightarrow>
      first_allows (\<lambda>a. \<not> isInheritOnly a \<and> \<not> isOwner a \<and> isEveryone a) n (ace_list acl)"
    "bit (group_mask (withMaxMasks acl)) n \<longleftrightarrow> bit (group_class_gmask acl) n \<and>
      first_allows (\<lambda>a. \<not> isInheritOnly a \<and> \<not> isOwner a \<and> (isEveryone a \<or> isAllow a)) n (ace_list acl)"
    "bit (owner_mask (withMaxMasks acl)) n \<longleftrightarrow> first_allows (\<lambda>a. \<not> isInheritOnly a \<and>
       (isOwner a \<or> isEveryone a \<or> isAllow a \<and> bit (group_class_gmask acl) n)) n (ace_list acl)"
  using max_mask_bits [OF assms, of "group_class_gmask acl"]
  by (auto simp: withMaxMasks_def computeMaxMasks_def split: prod.splits)

lemma granted_unmasked:
  assumes "\<not> isMasked acl" "\<forall>a \<in> set aces. wf_ace a"
  shows "granted acl mt aces n \<longleftrightarrow>
    (\<exists>a. List.find (\<lambda>a. mt a \<noteq> NoMatch \<and> bit (amask a) n) aces = Some a \<and> isAllow a)"
proof -
  have "decides acl mt n = (\<lambda>a. mt a \<noteq> NoMatch \<and> bit (amask a) n)"
    using assms(1) by (simp add: fun_eq_iff decides_def eff_mask_def)
  then show ?thesis
    using assms(2) by (auto simp: granted_find isDeny_iff find_Some_iff)
qed

lemma granted_masked_le:
  assumes "granted acl' mt aces n" "\<forall>a \<in> set aces. wf_ace a" "\<not> isMasked acl"
  shows "granted acl mt aces n"
  using assms(1,2)
proof (induction aces)
  case (Cons a aces)
  have "isDeny a \<longleftrightarrow> \<not> isAllow a" using Cons.prems by (simp add: isDeny_iff)
  with Cons assms(3) show ?case
    by (auto simp: decides_def eff_mask_def bit_and_iff split: if_splits)
qed simp

lemma granted_masked_ge:
  assumes "List.find (\<lambda>a. mt a \<noteq> NoMatch \<and> bit (amask a) n) aces = Some a0" "isAllow a0"
    and "mt a0 = MatchesGroupClass \<Longrightarrow> bit (group_mask acl') n"
  shows "granted acl' mt aces n"
proof -
  have "List.find (decides acl' mt n) aces = Some a0"
    using assms(1)
  proof (rule find_weaken)
    have "mt a0 \<noteq> NoMatch \<and> bit (amask a0) n" using assms(1) by (auto simp: find_Some_iff)
    then show "decides acl' mt n a0" using assms(3) by (auto simp: decides_def eff_mask_def bit_and_iff)
  qed (auto simp: decides_def eff_mask_def bit_and_iff split: if_splits)
  moreover have "\<not> isDeny a0" using assms(2) by (simp add: isAllow_def isDeny_def acl_consts)
  ultimately show ?thesis by (simp add: granted_find)
qed

lemma first_allows_find:
  assumes "List.find Q aces = Some a0" "isAllow a0" "P a0" "bit (amask a0) n"
    and "\<And>x. x \<in> set aces \<Longrightarrow> P x \<Longrightarrow> bit (amask x) n \<Longrightarrow> \<not> isAllow x \<Longrightarrow> Q x"
  shows "first_allows P n aces"
  using assms by (induction aces) (auto split: if_splits)

lemma matchAce_owner_uid: "matchAce ou ing uid gs a = MatchesOwner \<Longrightarrow> ou = uid"
  by (auto simp: matchAce_def split: if_splits)

lemma granted_in_max_masks:
  fixes gs :: "32 word list"
  assumes wf: "\<forall>a \<in> set (ace_list acl). wf_ace a" and n: "n < 32"
    and f: "List.find (\<lambda>a. mt a \<noteq> NoMatch \<and> bit (amask a) n) (ace_list acl) = Some a0" "isAllow a0"
    and mt: "mt = matchAce ou ing uid gs"
    and inc: "inc \<longleftrightarrow> ing \<or> in_class mt (ace_list acl)"
  shows "bit (class_mask (withMaxMasks acl) ou uid inc) n"
    and "mt a0 = MatchesGroupClass \<Longrightarrow> bit (group_mask (withMaxMasks acl)) n"
proof -
  have a0: "a0 \<in> set (ace_list acl)" "mt a0 \<noteq> NoMatch" "bit (amask a0) n" "\<not> isInheritOnly a0" "wf_ace a0"
    using f(1) mt wf by (auto simp: find_Some_iff matchAce_NoMatch_io)
  note cases = matchAce_cases [OF a0(5,4), of ou ing uid gs, folded mt]
  have ev: "mt x \<noteq> NoMatch" if "isEveryone x" "\<not> isInheritOnly x" for x
    using that mt matchAce_everyone by simp
  have gm: "bit (group_mask (withMaxMasks acl)) n" if "bit (group_class_gmask acl) n" "\<not> isOwner a0"
  proof -
    have "first_allows (\<lambda>a. \<not> isInheritOnly a \<and> \<not> isOwner a \<and> (isEveryone a \<or> isAllow a)) n (ace_list acl)"
      by (rule first_allows_find [OF f]) (use a0 that f(2) ev in auto)
    then show ?thesis using that n by (simp add: withMaxMasks_bits [OF wf])
  qed
  have gmask: "bit (group_class_gmask acl) n" if "\<not> isEveryone a0" "\<not> isOwner a0"
    by (rule granted_in_gmask [OF wf n f mt]) (use that in blast)
  show "bit (group_mask (withMaxMasks acl)) n" if "mt a0 = MatchesGroupClass"
    using gm gmask cases that by (auto split: if_splits simp: mt matchAce_everyone a0(4))
  show "bit (class_mask (withMaxMasks acl) ou uid inc) n"
  proof -
    consider (owner) "uid = ou" | (group) "uid \<noteq> ou" "inc" | (other) "uid \<noteq> ou" "\<not> inc" by blast
    then show ?thesis
    proof cases
      case owner
      have "mt x \<noteq> NoMatch" if "isOwner x" "\<not> isInheritOnly x" for x
        using that owner mt by (simp add: matchAce_def)
      then have "first_allows (\<lambda>a. \<not> isInheritOnly a \<and>
          (isOwner a \<or> isEveryone a \<or> isAllow a \<and> bit (group_class_gmask acl) n)) n (ace_list acl)"
        by (intro first_allows_find [OF f]) (use a0 f(2) ev gmask in auto)
      then show ?thesis using owner n by (simp add: class_mask_def withMaxMasks_bits [OF wf])
    next
      case group
      then have no: "\<not> isOwner a0" using a0(2,4) mt by (auto simp: matchAce_def)
      have "bit (group_class_gmask acl) n"
      proof (cases "isEveryone a0")
        case True
        have "ing \<or> (\<exists>b \<in> set (ace_list acl). mt b = MatchesGroupClass)"
          using group inc matchAce_owner_uid [of ou ing uid gs] mt unfolding in_class_def by blast
        then show ?thesis
          using True by (intro granted_in_gmask [OF wf n f mt]) blast
      qed (use gmask no in blast)
      then show ?thesis using gm no group by (simp add: class_mask_def)
    next
      case other
      have "isEveryone a0"
      proof (rule ccontr)
        assume "\<not> isEveryone a0"
        then have "mt a0 \<noteq> MatchesEveryone" using cases by (auto split: if_splits)
        then have "in_class mt (ace_list acl)"
          using a0(1,2) by (cases "mt a0") (auto simp: in_class_def)
        then show False using other inc by blast
      qed
      then have "first_allows (\<lambda>a. \<not> isInheritOnly a \<and> \<not> isOwner a \<and> isEveryone a) n (ace_list acl)"
        by (intro first_allows_find [OF f]) (use a0 f(2) ev isOwner_not_everyone in auto)
      then show ?thesis using other n by (simp add: class_mask_def withMaxMasks_bits [OF wf])
    qed
  qed
qed

lemma checkPermission_withMaxMasks:
  assumes wf: "\<forall>a \<in> set (ace_list acl). wf_ace a" and nm: "\<not> isMasked acl"
  shows "checkPermission (withMaxMasks acl) requested ou og uid gs = checkPermission acl requested ou og uid gs"
proof -
  let ?M = "withMaxMasks acl" and ?mt = "matchAce ou (og \<in> set gs) uid gs"
  let ?inc = "og \<in> set gs \<or> in_class ?mt (ace_list acl)"
  have "granted ?M ?mt (ace_list acl) n \<and> bit (class_mask ?M ou uid ?inc) n \<longleftrightarrow> granted acl ?mt (ace_list acl) n"
    if "bit requested n" for n
  proof
    assume "granted ?M ?mt (ace_list acl) n \<and> bit (class_mask ?M ou uid ?inc) n"
    then show "granted acl ?mt (ace_list acl) n" using granted_masked_le [OF _ wf nm] by blast
  next
    assume "granted acl ?mt (ace_list acl) n"
    then obtain a0 where a0: "List.find (\<lambda>a. ?mt a \<noteq> NoMatch \<and> bit (amask a) n) (ace_list acl) = Some a0" "isAllow a0"
      using granted_unmasked [OF nm wf] by blast
    have n: "n < 32" using that by (auto dest: bit_imp_le_length)
    note m = granted_in_max_masks [OF wf n a0 refl refl]
    show "granted ?M ?mt (ace_list acl) n \<and> bit (class_mask ?M ou uid ?inc) n"
      using granted_masked_ge [OF a0] m by blast
  qed
  then show ?thesis
    unfolding checkPermission_iff withMaxMasks_fields(1) using withMaxMasks_fields(2,3) [of acl] nm by auto
qed

subsection \<open>Inherited entries\<close>

lemma bit_flag_consts:
  "bit kFileInheritAce n \<longleftrightarrow> n = 0" "bit kDirectoryInheritAce n \<longleftrightarrow> n = 1"
  "bit kNoPropagateInheritAce n \<longleftrightarrow> n = 2" "bit kInheritOnlyAce n \<longleftrightarrow> n = 3" "bit kInheritedAce n \<longleftrightarrow> n = 7"
proof -
  note e = bit_exp_iff [of _ n, where 'a = "9 word"]
  show "bit kFileInheritAce n \<longleftrightarrow> n = 0"
    by (simp add: kFileInheritAce_def bit_1_iff)
  show "bit kDirectoryInheritAce n \<longleftrightarrow> n = 1"
    using e [of 1] by (auto simp: kDirectoryInheritAce_def)
  show "bit kNoPropagateInheritAce n \<longleftrightarrow> n = 2"
    using e [of 2] by (auto simp: kNoPropagateInheritAce_def)
  show "bit kInheritOnlyAce n \<longleftrightarrow> n = 3"
    using e [of 3] by (auto simp: kInheritOnlyAce_def)
  show "bit kInheritedAce n \<longleftrightarrow> n = 7"
    using e [of 7] by (auto simp: kInheritedAce_def)
qed

lemma bit_inheritance_flags:
  "bit kInheritanceFlags n \<longleftrightarrow> n = 0 \<or> n = 1 \<or> n = 2 \<or> n = 3 \<or> n = 7"
  unfolding kInheritanceFlags_def bit_or_iff bit_flag_consts by blast

lemma isInheritable_bits: "isInheritable a \<longleftrightarrow> bit (ace_flags a) 0 \<or> bit (ace_flags a) 1"
proof -
  have "isInheritable a \<longleftrightarrow> (\<exists>n. bit (ace_flags a) n \<and> (n = 0 \<or> n = 1))"
    unfolding isInheritable_def word_zero_bits bit_and_iff bit_or_iff bit_flag_consts by blast
  then show ?thesis by auto
qed

lemma isInheritOnly_bits: "isInheritOnly a \<longleftrightarrow> bit (ace_flags a) 3"
  by (simp only: isInheritOnly_def ace_flag_bits)

lemma inheritAce_flags:
  assumes "if is_dir then inheritsToDirectory a else ace_flags a AND kFileInheritAce \<noteq> 0"
    and "f = ace_flags (inheritAce is_dir a) OR kInheritedAce \<or> f = ace_flags (inheritAce is_dir a) AND NOT kInheritedAce"
  shows "bit f 3 \<longrightarrow> bit f 0 \<or> bit f 1" and "\<not> is_dir \<Longrightarrow> \<not> bit f 3 \<and> \<not> bit f 0 \<and> \<not> bit f 1"
proof -
  have b: "bit f n \<longleftrightarrow> bit (ace_flags (inheritAce is_dir a)) n" if "n \<noteq> 7" for n
    using assms(2) that by (auto simp: bit_or_iff bit_andnot bit_flag_consts)
  have i: "bit (ace_flags (inheritAce is_dir a)) n \<longleftrightarrow>
      (if is_dir then
        (if bit (ace_flags a) 2 then bit (ace_flags a) n \<and> \<not> (n = 0 \<or> n = 1 \<or> n = 2 \<or> n = 3 \<or> n = 7)
         else if bit (ace_flags a) 1 then bit (ace_flags a) n \<and> n \<noteq> 3
         else bit (ace_flags a) n \<or> n = 3)
       else bit (ace_flags a) n \<and> \<not> (n = 0 \<or> n = 1 \<or> n = 2 \<or> n = 3 \<or> n = 7))" for n
    unfolding inheritAce_def ace_flag_bits
    by (simp add: bit_andnot bit_or_iff bit_inheritance_flags bit_flag_consts)
  show "\<not> is_dir \<Longrightarrow> \<not> bit f 3 \<and> \<not> bit f 0 \<and> \<not> bit f 1"
    using b [of 3] b [of 0] b [of 1] i by simp
  have "is_dir \<Longrightarrow> \<not> bit (ace_flags a) 1 \<Longrightarrow> bit (ace_flags a) 0"
    using assms(1) unfolding inheritsToDirectory_def ace_flag_bits by (auto split: if_splits)
  then show "bit f 3 \<longrightarrow> bit f 0 \<or> bit f 1"
    using b [of 3] b [of 0] b [of 1] i [of 3] i [of 0] i [of 1] by (auto split: if_splits)
qed

lemma inheritACL_flags: "checkInheritFlags is_dir (inheritACL dir_acl is_dir)"
proof -
  have "\<forall>a \<in> set (ace_list (inheritACL dir_acl is_dir)). (isInheritOnly a \<longrightarrow> isInheritable a) \<and>
      (\<not> is_dir \<longrightarrow> \<not> isInheritOnly a \<and> \<not> isInheritable a)"
  proof
    fix a assume "a \<in> set (ace_list (inheritACL dir_acl is_dir))"
    then have "\<exists>d. (if is_dir then inheritsToDirectory d else ace_flags d AND kFileInheritAce \<noteq> 0) \<and>
        (a = inheritAce is_dir d\<lparr>ace_flags := ace_flags (inheritAce is_dir d) OR kInheritedAce\<rparr> \<or>
         a = inheritAce is_dir d\<lparr>ace_flags := ace_flags (inheritAce is_dir d) AND NOT kInheritedAce\<rparr>)"
      by (cases "isAutoInherit dir_acl") (auto simp: inheritACL_def Let_def)
    then obtain d where d: "if is_dir then inheritsToDirectory d else ace_flags d AND kFileInheritAce \<noteq> 0"
      and f: "ace_flags a = ace_flags (inheritAce is_dir d) OR kInheritedAce \<or>
        ace_flags a = ace_flags (inheritAce is_dir d) AND NOT kInheritedAce"
      by auto
    from inheritAce_flags [OF d f]
    show "(isInheritOnly a \<longrightarrow> isInheritable a) \<and> (\<not> is_dir \<longrightarrow> \<not> isInheritOnly a \<and> \<not> isInheritable a)"
      unfolding isInheritOnly_bits isInheritable_bits by blast
  qed
  then show ?thesis
    by (auto simp: checkInheritFlags_def list_ex_iff)
qed

subsection \<open>Explicit inheritance\<close>

lemma who_bits:
  "isOwner a \<longleftrightarrow> bit (ace_flags a) 8 \<and> ace_id a = kOwnerSpecialId"
  "isGroup a \<longleftrightarrow> bit (ace_flags a) 8 \<and> ace_id a = kGroupSpecialId"
  "isEveryone a \<longleftrightarrow> bit (ace_flags a) 8 \<and> ace_id a = kEveryoneSpecialId"
  "isUnixUser a \<longleftrightarrow> \<not> bit (ace_flags a) 8 \<and> \<not> bit (ace_flags a) 6"
  "isUnixGroup a \<longleftrightarrow> \<not> bit (ace_flags a) 8 \<and> bit (ace_flags a) 6"
  using ace_flag_bits(1,2) [of "ace_flags a"]
  by (auto simp only: isOwner_def isGroup_def isEveryone_def isUnixUser_def isUnixGroup_def)

lemma matchAce_bits:
  assumes "bit (ace_flags a) 8 = bit (ace_flags b) 8" "bit (ace_flags a) 6 = bit (ace_flags b) 6"
    "bit (ace_flags a) 3 = bit (ace_flags b) 3" "ace_id a = ace_id b"
  shows "matchAce ou ing uid gs a = matchAce ou ing uid gs b"
  unfolding matchAce_def isInheritOnly_bits who_bits assms by (rule refl)

text \<open>The parts of an entry that can be used twice: the entry that takes effect and the inherited one.\<close>

definition splits :: "Ace \<Rightarrow> bool" where
  "splits a \<longleftrightarrow> isInheritable a \<and> \<not> isInheritOnly a"

definition effective_part :: "Ace \<Rightarrow> Ace" where
  "effective_part a = (if splits a then a\<lparr>ace_flags := ace_flags a AND
     NOT (kInheritOnlyAce OR kFileInheritAce OR kDirectoryInheritAce)\<rparr> else a)"

definition inherited_part :: "Ace \<Rightarrow> Ace" where
  "inherited_part a = a\<lparr>ace_flags := ace_flags a OR kInheritOnlyAce\<rparr>"

lemma explicit_list:
  "ace_list (createExplicitInheritance acl) =
     map effective_part (ace_list acl) @ map inherited_part (filter splits (ace_list acl))"
proof -
  have "splits = (\<lambda>a. \<not> (isInheritOnly a \<or> \<not> isInheritable a))" by (auto simp: splits_def)
  then show ?thesis
    by (simp add: createExplicitInheritance_def Let_def effective_part_def [abs_def] inherited_part_def [abs_def])
qed

lemma bit_clear_inherit:
  "bit (f AND NOT (kInheritOnlyAce OR kFileInheritAce OR kDirectoryInheritAce)) n \<longleftrightarrow>
     bit f n \<and> n \<noteq> 3 \<and> n \<noteq> 0 \<and> n \<noteq> 1"
  by (simp only: bit_andnot bit_or_iff bit_flag_consts de_Morgan_disj)

lemma effective_part_flags:
  "bit (ace_flags (effective_part a)) n \<longleftrightarrow> bit (ace_flags a) n \<and> (splits a \<longrightarrow> n \<noteq> 3 \<and> n \<noteq> 0 \<and> n \<noteq> 1)"
proof (cases "splits a")
  case True
  then have "ace_flags (effective_part a) =
      ace_flags a AND NOT (kInheritOnlyAce OR kFileInheritAce OR kDirectoryInheritAce)"
    by (simp add: effective_part_def)
  then show ?thesis by (simp only: bit_clear_inherit True simp_thms)
qed (simp add: effective_part_def)

lemma effective_part_bits:
  "n \<noteq> 0 \<Longrightarrow> n \<noteq> 1 \<Longrightarrow> bit (ace_flags (effective_part a)) n = bit (ace_flags a) n"
  by (auto simp: effective_part_flags splits_def isInheritOnly_bits)

lemma effective_part_fields:
  "matchAce ou ing uid gs (effective_part a) = matchAce ou ing uid gs a"
  "amask (effective_part a) = amask a" "ace_type (effective_part a) = ace_type a"
proof -
  have "ace_id (effective_part a) = ace_id a" by (simp add: effective_part_def)
  then show "matchAce ou ing uid gs (effective_part a) = matchAce ou ing uid gs a"
    using effective_part_bits [of 8 a] effective_part_bits [of 6 a] effective_part_bits [of 3 a]
    by (intro matchAce_bits) simp_all
qed (simp_all add: effective_part_def amask_def)

lemma inherited_part_match: "matchAce ou ing uid gs (inherited_part a) = NoMatch"
  by (rule matchAce_NoMatch_io) (simp add: isInheritOnly_bits inherited_part_def bit_or_iff bit_flag_consts)

lemma granted_explicit:
  assumes "isMasked acl' = isMasked acl" "group_mask acl' = group_mask acl"
  shows "granted acl' (matchAce ou ing uid gs) (map effective_part aces @ map inherited_part rest) n =
    granted acl (matchAce ou ing uid gs) aces n"
proof (induction aces)
  case Nil
  show ?case by (induction rest) (simp_all add: decides_def inherited_part_match)
next
  case (Cons a aces)
  then show ?case
    by (simp add: decides_def eff_mask_def effective_part_fields isAllow_def isDeny_def assms)
qed

lemma createExplicitInheritance_check:
  "checkPermission (createExplicitInheritance acl) requested ou og uid gs = checkPermission acl requested ou og uid gs"
proof -
  let ?mt = "matchAce ou (og \<in> set gs) uid gs" and ?acl = "createExplicitInheritance acl"
  have flds: "isMasked ?acl = isMasked acl" "isWriteThrough ?acl = isWriteThrough acl"
    "class_mask ?acl = class_mask acl" "group_mask ?acl = group_mask acl"
    by (simp_all add: createExplicitInheritance_def Let_def isMasked_def isWriteThrough_def class_mask_def fun_eq_iff)
  have "granted ?acl ?mt (ace_list ?acl) n = granted acl ?mt (ace_list acl) n" for n
    unfolding explicit_list using flds(1,4) by (rule granted_explicit)
  moreover have "in_class ?mt (ace_list ?acl) = in_class ?mt (ace_list acl)"
    unfolding explicit_list in_class_def set_append set_map image_Un bex_Un
    by (simp add: effective_part_fields inherited_part_match)
  ultimately show ?thesis
    unfolding checkPermission_iff flds by (simp only:)
qed

lemma createExplicitInheritance_separates:
  "\<forall>a \<in> set (ace_list (createExplicitInheritance acl)). isInheritable a \<longrightarrow> isInheritOnly a"
  unfolding explicit_list
proof (simp only: set_append set_map ball_Un ball_simps, intro conjI ballI impI)
  fix a assume "isInheritable (effective_part a)"
  then have "\<not> splits a"
    unfolding isInheritable_bits effective_part_flags by auto
  then have "effective_part a = a" by (simp add: effective_part_def)
  then show "isInheritOnly (effective_part a)"
    using \<open>isInheritable (effective_part a)\<close> \<open>\<not> splits a\<close> by (simp add: splits_def)
next
  fix a show "isInheritOnly (inherited_part a)"
    by (simp add: isInheritOnly_bits inherited_part_def bit_or_iff bit_flag_consts)
qed

end
