(* ===== verification/RichACL_Mode.thy ===== *)
theory RichACL_Mode
  imports RichACL
begin

text \<open>
  RichACLs and POSIX modes (\<open>common/richacl.cc\<close>): what the check grants for a list made from a mode,
  which lists \<open>equivMode\<close> accepts and what they grant, the masks a new inode inherits. The properties
  of the access check, of the masks and of inheritance stand at the end.
\<close>

subsection \<open>One permission in \<open>equivMode\<close>\<close>

text \<open>
  What the loop knows of permission \<open>n\<close> after the entries \<open>p\<close>: whether an entry of a class decided
  it, and how the first of them did. \<open>owner_consistent\<close>: an owner who is also in the owning group
  gets what the owner entries say.
\<close>

definition defines_bit :: "(Ace \<Rightarrow> bool) \<Rightarrow> nat \<Rightarrow> Ace list \<Rightarrow> bool" where
  "defines_bit P n aces \<longleftrightarrow> (\<exists>a \<in> set aces. P a \<and> bit (amask a) n)"

abbreviation "ofOwner \<equiv> \<lambda>a. isOwner a \<or> isEveryone a"
abbreviation "ofGroup \<equiv> \<lambda>a. isGroup a \<or> isEveryone a"
abbreviation "ofAny \<equiv> \<lambda>a. isOwner a \<or> isGroup a \<or> isEveryone a"

definition equiv_inv :: "nat \<Rightarrow> Ace list \<Rightarrow> equiv_state \<Rightarrow> bool" where
  "equiv_inv n p s \<longleftrightarrow>
     bit (owner_defined s) n = defines_bit ofOwner n p \<and> bit (owner_allowed s) n = first_allows ofOwner n p \<and>
     bit (group_defined s) n = defines_bit ofGroup n p \<and> bit (group_allowed s) n = first_allows ofGroup n p \<and>
     bit (everyone_defined s) n = defines_bit isEveryone n p \<and>
     bit (everyone_allowed s) n = first_allows isEveryone n p \<and>
     first_allows ofAny n p = (if defines_bit ofOwner n p then first_allows ofOwner n p else first_allows ofGroup n p)"

lemma defines_bit_simps [simp]:
  "\<not> defines_bit P n []"
  "defines_bit P n (p @ [a]) \<longleftrightarrow> defines_bit P n p \<or> P a \<and> bit (amask a) n"
  by (auto simp: defines_bit_def)

lemma first_allows_snoc [simp]:
  "first_allows P n (p @ [a]) \<longleftrightarrow>
     (if defines_bit P n p then first_allows P n p else P a \<and> bit (amask a) n \<and> isAllow a)"
  by (induction p) (auto simp: defines_bit_def)

lemma first_allows_defined: "first_allows P n p \<Longrightarrow> defines_bit P n p"
  by (induction p) (auto simp: defines_bit_def split: if_splits)

lemma defines_any: "defines_bit ofAny n p \<longleftrightarrow> defines_bit ofOwner n p \<or> defines_bit ofGroup n p"
  by (auto simp: defines_bit_def)

lemma special_exclusive:
  "isOwner a \<Longrightarrow> \<not> isGroup a \<and> \<not> isEveryone a" "isGroup a \<Longrightarrow> \<not> isOwner a \<and> \<not> isEveryone a"
  by (auto simp: isOwner_def isGroup_def isEveryone_def kOwnerSpecialId_def kGroupSpecialId_def kEveryoneSpecialId_def)

lemma equiv_step_who:
  assumes "equiv_step a s = Some s'"
  shows "isOwner a \<or> isGroup a \<or> isEveryone a" "\<not> isInheritOnly a"
proof -
  show "isOwner a \<or> isGroup a \<or> isEveryone a"
    using assms by (auto simp: equiv_step_def split: if_splits)
  have "ace_flags a AND NOT kSpecialWho = 0"
    using assms by (auto simp: equiv_step_def split: if_splits)
  then have "\<not> bit (ace_flags a) 3"
    unfolding word_zero_bits bit_andnot by (auto dest!: spec [of _ 3] simp: kSpecialWho_def)
  then show "\<not> isInheritOnly a" unfolding isInheritOnly_bits .
qed

lemma and_zero_bits: "x AND y = 0 \<longleftrightarrow> (\<forall>n. \<not> (bit x n \<and> bit y n))" for x y :: "32 word"
  unfolding word_zero_bits bit_and_iff ..

lemma equiv_step_owner:
  assumes "equiv_step a s = Some s'" "isOwner a \<or> isEveryone a"
  shows "bit (owner_defined s') n \<longleftrightarrow> bit (owner_defined s) n \<or> bit (amask a) n"
    "bit (owner_allowed s') n \<longleftrightarrow> bit (owner_allowed s) n \<or> isAllow a \<and> bit (amask a) n \<and> \<not> bit (owner_defined s) n"
    "bit (amask a) n \<Longrightarrow> \<not> bit (owner_defined s) n \<Longrightarrow>
       (if isAllow a then bit (group_defined s) n \<longrightarrow> bit (group_allowed s) n else \<not> bit (group_allowed s) n)"
proof -
  have c: "isAllow a \<Longrightarrow> (amask a AND NOT (owner_defined s)) AND (group_defined s AND NOT (group_allowed s)) = 0"
    "\<not> isAllow a \<Longrightarrow> (amask a AND NOT (owner_defined s)) AND group_allowed s = 0"
    and s': "owner_defined s' = owner_defined s OR (amask a AND NOT (owner_defined s))"
    "owner_allowed s' = (if isAllow a then owner_allowed s OR (amask a AND NOT (owner_defined s)) else owner_allowed s)"
    using assms by (auto simp: equiv_step_def Let_def split: if_splits)
  show "bit (owner_defined s') n \<longleftrightarrow> bit (owner_defined s) n \<or> bit (amask a) n"
    "bit (owner_allowed s') n \<longleftrightarrow> bit (owner_allowed s) n \<or> isAllow a \<and> bit (amask a) n \<and> \<not> bit (owner_defined s) n"
    unfolding s' by (auto simp: bit_or_iff bit_andnot)
  show "bit (amask a) n \<Longrightarrow> \<not> bit (owner_defined s) n \<Longrightarrow>
       (if isAllow a then bit (group_defined s) n \<longrightarrow> bit (group_allowed s) n else \<not> bit (group_allowed s) n)"
    using c unfolding and_zero_bits [of "amask a AND NOT (owner_defined s)"] bit_andnot by (cases "isAllow a") auto
qed

lemma equiv_step_rest:
  assumes "equiv_step a s = Some s'"
  shows "bit (group_defined s') n \<longleftrightarrow> bit (group_defined s) n \<or> (isGroup a \<or> isEveryone a) \<and> bit (amask a) n"
    "bit (group_allowed s') n \<longleftrightarrow> bit (group_allowed s) n \<or>
       (isGroup a \<or> isEveryone a) \<and> isAllow a \<and> bit (amask a) n \<and> \<not> bit (group_defined s) n"
    "bit (everyone_defined s') n \<longleftrightarrow> bit (everyone_defined s) n \<or> isEveryone a \<and> bit (amask a) n"
    "bit (everyone_allowed s') n \<longleftrightarrow> bit (everyone_allowed s) n \<or>
       isEveryone a \<and> isAllow a \<and> bit (amask a) n \<and> \<not> bit (everyone_defined s) n"
    "isGroup a \<Longrightarrow> owner_defined s' = owner_defined s \<and> owner_allowed s' = owner_allowed s"
  using assms special_exclusive [of a]
  by (auto simp: equiv_step_def Let_def bit_or_iff bit_andnot split: if_splits)

lemma equiv_step_inv:
  assumes st: "equiv_step a s = Some s'" and inv: "equiv_inv n p s"
  shows "equiv_inv n (p @ [a]) s'"
proof -
  note d = first_allows_defined [of ofOwner n p] first_allows_defined [of ofGroup n p] first_allows_defined [of ofAny n p]
    first_allows_defined [of isEveryone n p]
  note i = inv [unfolded equiv_inv_def]
  note r = equiv_step_rest(1-4) [OF st, of n]
  have g: "bit (group_defined s') n = defines_bit ofGroup n (p @ [a])"
    "bit (group_allowed s') n = first_allows ofGroup n (p @ [a])"
    "bit (everyone_defined s') n = defines_bit isEveryone n (p @ [a])"
    "bit (everyone_allowed s') n = first_allows isEveryone n (p @ [a])"
    using i d(2,4) by (simp_all only: r defines_bit_simps first_allows_snoc) argo+
  have o: "bit (owner_defined s') n = defines_bit ofOwner n (p @ [a])
      \<and> bit (owner_allowed s') n = first_allows ofOwner n (p @ [a])"
  proof (cases "isOwner a \<or> isEveryone a")
    case True
    then show ?thesis
      using i d(1) by (simp only: equiv_step_owner(1,2) [OF st True] defines_bit_simps first_allows_snoc) argo
  next
    case False
    then have "isGroup a" using equiv_step_who(1) [OF st] by blast
    then show ?thesis
      using i d(1) False by (simp only: equiv_step_rest(5) [OF st] defines_bit_simps first_allows_snoc) argo
  qed
  have "first_allows ofAny n (p @ [a]) = (if defines_bit ofOwner n (p @ [a]) then first_allows ofOwner n (p @ [a])
      else first_allows ofGroup n (p @ [a]))"
  proof (cases "isOwner a \<or> isEveryone a")
    case True
    then show ?thesis
      using i d(1,2,3) equiv_step_owner(3) [OF st True, of n]
      by (simp only: defines_bit_simps first_allows_snoc defines_any) argo
  next
    case False
    then show ?thesis
      using i d(1,2,3) by (simp only: defines_bit_simps first_allows_snoc defines_any) argo
  qed
  with g o show ?thesis unfolding equiv_inv_def by blast
qed

lemma equiv_loop_inv:
  assumes "equiv_loop aces s = Some s'" "equiv_inv n p s"
  shows "equiv_inv n (p @ aces) s' \<and> (\<forall>a \<in> set aces. ofAny a \<and> \<not> isInheritOnly a)"
  using assms
proof (induction aces arbitrary: s p)
  case (Cons a aces)
  then obtain s1 where s1: "equiv_step a s = Some s1" "equiv_loop aces s1 = Some s'"
    by (auto split: option.splits)
  show ?case
    using Cons.IH [OF s1(2) equiv_step_inv [OF s1(1) Cons.prems(2)]] equiv_step_who [OF s1(1)] by auto
qed auto

subsection \<open>What an accepted list grants\<close>

definition equiv_start :: "bool \<Rightarrow> equiv_state" where
  "equiv_start is_dir = (let x = (if is_dir then 0 else kDeleteChild) in
     \<lparr>owner_allowed = 0, owner_defined = kPosixAlwaysAllowed OR kPosixOwnerAllowed OR x,
      group_allowed = 0, group_defined = kPosixAlwaysAllowed OR x,
      everyone_allowed = 0, everyone_defined = kPosixAlwaysAllowed OR x\<rparr>)"

text \<open>The permissions a mode speaks about: those that are not always granted.\<close>

definition mode_bit :: "bool \<Rightarrow> nat \<Rightarrow> bool" where
  "mode_bit is_dir n \<longleftrightarrow> \<not> bit (kPosixAlwaysAllowed OR kPosixOwnerAllowed OR (if is_dir then 0 else kDeleteChild)) n"

lemma equiv_inv_start: "mode_bit is_dir n \<Longrightarrow> equiv_inv n [] (equiv_start is_dir)"
  by (auto simp: mode_bit_def equiv_inv_def equiv_start_def Let_def bit_or_iff)

definition equiv_final :: "RichACL \<Rightarrow> bool \<Rightarrow> 16 word \<Rightarrow> equiv_state \<Rightarrow> bool" where
  "equiv_final acl is_dir m' s \<longleftrightarrow> group_allowed s AND NOT (owner_defined s) = 0 \<and>
     (\<forall>n. mode_bit is_dir n \<longrightarrow>
       (bit (convertMode2Mask (drop_bit 6 m')) n \<longleftrightarrow>
         (if isMasked acl then if isWriteThrough acl then bit (owner_mask acl) n
            else bit (owner_allowed s) n \<and> bit (owner_mask acl) n else bit (owner_allowed s) n)) \<and>
       (bit (convertMode2Mask (drop_bit 3 m')) n \<longleftrightarrow>
         bit (group_allowed s) n \<and> (isMasked acl \<longrightarrow> bit (group_mask acl) n)) \<and>
       (bit (convertMode2Mask m') n \<longleftrightarrow>
         (if isMasked acl then if isWriteThrough acl then bit (other_mask acl) n
            else bit (everyone_allowed s) n \<and> bit (other_mask acl) n else bit (everyone_allowed s) n)))"

lemma equivMode_accepts:
  assumes "equivMode acl m is_dir = (True, m')"
  shows "\<exists>s. equiv_loop (ace_list acl) (equiv_start is_dir) = Some s \<and> equiv_final acl is_dir m' s"
proof -
  let ?x = "if is_dir then 0 else kDeleteChild"
  have "\<not> (isAutoSetMode acl \<and> acl_flags acl AND NOT (kWriteThrough OR kMasked) = 0)"
  proof
    assume a: "isAutoSetMode acl \<and> acl_flags acl AND NOT (kWriteThrough OR kMasked) = 0"
    have "\<not> bit kWriteThrough 5" "\<not> bit kMasked 5" by (simp_all add: kWriteThrough_def kMasked_def)
    with a show False
      unfolding acl_bits word_zero_bits bit_andnot bit_or_iff by blast
  qed
  then obtain s where s: "equiv_loop (ace_list acl) (equiv_start is_dir) = Some s"
    and g: "group_allowed s AND NOT (owner_defined s) = 0"
    and e: "(convertMode2Mask (drop_bit 6 m') XOR (if isMasked acl then (if isWriteThrough acl then owner_mask acl
                             else owner_allowed s AND owner_mask acl) else owner_allowed s)) AND NOT ?x = 0"
      "(convertMode2Mask (drop_bit 3 m') XOR (if isMasked acl then group_allowed s AND group_mask acl else group_allowed s)) AND NOT ?x = 0"
      "(convertMode2Mask m' XOR (if isMasked acl then (if isWriteThrough acl then other_mask acl
                             else everyone_allowed s AND other_mask acl) else everyone_allowed s)) AND NOT ?x = 0"
    using assms unfolding equivMode_def Let_def equiv_start_def
    by (auto split: if_splits option.splits)
  have x: "mode_bit is_dir n \<Longrightarrow> \<not> bit ?x n" for n by (simp add: mode_bit_def bit_or_iff split del: if_split)
  have "equiv_final acl is_dir m' s"
    unfolding equiv_final_def
  proof (intro conjI allI impI)
    fix n assume n: "mode_bit is_dir n"
    show "bit (convertMode2Mask (drop_bit 6 m')) n \<longleftrightarrow>
       (if isMasked acl then if isWriteThrough acl then bit (owner_mask acl) n
          else bit (owner_allowed s) n \<and> bit (owner_mask acl) n else bit (owner_allowed s) n)"
      using spec [OF e(1) [unfolded word_zero_bits bit_andnot bit_xor_iff], of n] x [OF n]
      by (auto simp: bit_and_iff split: if_splits)
    show "bit (convertMode2Mask (drop_bit 3 m')) n \<longleftrightarrow>
       bit (group_allowed s) n \<and> (isMasked acl \<longrightarrow> bit (group_mask acl) n)"
      using spec [OF e(2) [unfolded word_zero_bits bit_andnot bit_xor_iff], of n] x [OF n]
      by (auto simp: bit_and_iff split: if_splits)
    show "bit (convertMode2Mask m') n \<longleftrightarrow>
       (if isMasked acl then if isWriteThrough acl then bit (other_mask acl) n
          else bit (everyone_allowed s) n \<and> bit (other_mask acl) n else bit (everyone_allowed s) n)"
      using spec [OF e(3) [unfolded word_zero_bits bit_andnot bit_xor_iff], of n] x [OF n]
      by (auto simp: bit_and_iff split: if_splits)
  qed (rule g)
  with s show ?thesis by blast
qed

lemma granted_first:
  assumes "\<forall>a \<in> set aces. isAllow a \<or> isDeny a"
    and "\<forall>a \<in> set aces. decides acl mt n a \<longleftrightarrow> P a \<and> bit (amask a) n"
  shows "granted acl mt aces n \<longleftrightarrow> first_allows P n aces"
  using assms by (induction aces) (auto simp: isAllow_def isDeny_def kAccessAllowedAceType_def kAccessDeniedAceType_def)

lemma matchAce_special:
  assumes "ofAny a" "\<not> isInheritOnly a"
  shows "matchAce ou ing uid gs a =
    (if isOwner a then (if ou = uid then MatchesOwner else NoMatch)
     else if isGroup a then (if ing then MatchesGroupClass else NoMatch) else MatchesEveryone)"
proof (cases "isEveryone a")
  case True
  then show ?thesis
    using assms(2) special_exclusive [of a] by (auto simp: matchAce_everyone)
next
  case False
  then show ?thesis
    using assms special_exclusive [of a] by (auto simp: matchAce_def)
qed

lemma granted_special:
  fixes acl ou ing uid gs n
  defines "G \<equiv> granted acl (matchAce ou ing uid gs) (ace_list acl) n"
  assumes t: "\<forall>a \<in> set (ace_list acl). isAllow a \<or> isDeny a"
    and w: "\<forall>a \<in> set (ace_list acl). ofAny a \<and> \<not> isInheritOnly a"
  shows "uid \<noteq> ou \<Longrightarrow> \<not> ing \<Longrightarrow> G = first_allows isEveryone n (ace_list acl)"
    and "uid \<noteq> ou \<Longrightarrow> ing \<Longrightarrow> isMasked acl \<longrightarrow> bit (group_mask acl) n \<Longrightarrow> G = first_allows ofGroup n (ace_list acl)"
    and "uid = ou \<Longrightarrow> \<not> ing \<Longrightarrow> G = first_allows ofOwner n (ace_list acl)"
    and "uid = ou \<Longrightarrow> ing \<Longrightarrow> \<not> isMasked acl \<Longrightarrow> G = first_allows ofAny n (ace_list acl)"
proof -
  have dec: "decides acl (matchAce ou ing uid gs) n a \<longleftrightarrow> (isOwner a \<and> ou = uid \<or>
      isGroup a \<and> ing \<and> (isMasked acl \<and> isAllow a \<longrightarrow> bit (group_mask acl) n) \<or> isEveryone a) \<and> bit (amask a) n"
    if "a \<in> set (ace_list acl)" for a
    using w that special_exclusive [of a] by (auto simp: decides_def eff_mask_def matchAce_special bit_and_iff)
  note r = granted_first [OF t, of acl "matchAce ou ing uid gs" n, folded G_def]
  show "uid \<noteq> ou \<Longrightarrow> \<not> ing \<Longrightarrow> G = first_allows isEveryone n (ace_list acl)"
    by (rule r) (use dec in blast)
  show "uid \<noteq> ou \<Longrightarrow> ing \<Longrightarrow> isMasked acl \<longrightarrow> bit (group_mask acl) n \<Longrightarrow> G = first_allows ofGroup n (ace_list acl)"
    by (rule r) (use dec in blast)
  show "uid = ou \<Longrightarrow> \<not> ing \<Longrightarrow> G = first_allows ofOwner n (ace_list acl)"
    by (rule r) (use dec in blast)
  show "uid = ou \<Longrightarrow> ing \<Longrightarrow> \<not> isMasked acl \<Longrightarrow> G = first_allows ofAny n (ace_list acl)"
    by (rule r) (use dec in blast)
qed

lemma in_class_special:
  assumes "\<forall>a \<in> set (ace_list acl). ofAny a \<and> \<not> isInheritOnly a" "uid \<noteq> ou"
  shows "in_class (matchAce ou ing uid gs) (ace_list acl) \<Longrightarrow> ing"
  using assms by (auto simp: in_class_def matchAce_special split: if_splits)

lemma checkPermission_createFromMode:
  "checkPermission (createFromMode mode is_dir) requested ou og uid gs \<longleftrightarrow>
     requested AND NOT (class_mask (createFromMode mode is_dir) ou uid (og \<in> set gs)) = 0"
proof -
  have "\<not> isMasked (createFromMode mode is_dir)" by (simp add: isMasked_def createFromMode_fields)
  then show ?thesis
    unfolding checkPermission_iff createFromMode_granted subset_bits by (simp add: class_mask_def)
qed

lemma createFromMode_class_bit:
  assumes "mode_bit is_dir n"
  shows "bit (class_mask (createFromMode mode is_dir) ou uid inc) n \<longleftrightarrow>
    bit (convertMode2Mask (if uid = ou then drop_bit 6 mode else if inc then drop_bit 3 mode else mode)) n"
  using assms by (simp add: class_mask_def createFromMode_fields mode_bit_def bit_andnot bit_or_iff)

lemma equiv_granted:
  assumes t: "\<forall>a \<in> set (ace_list acl). isAllow a \<or> isDeny a"
    and w: "\<forall>a \<in> set (ace_list acl). ofAny a \<and> \<not> isInheritOnly a"
    and inv: "equiv_inv n (ace_list acl) s" and fin: "equiv_final acl is_dir m' s" and mb: "mode_bit is_dir n"
    and nw: "\<not> (isMasked acl \<and> isWriteThrough acl \<and> (uid = ou \<or> \<not> ing))"
    and mk: "isMasked acl \<and> \<not> isWriteThrough acl \<longrightarrow> uid \<noteq> ou \<or> \<not> ing"
  shows "granted acl (matchAce ou ing uid gs) (ace_list acl) n \<and> (isMasked acl \<longrightarrow> bit (class_mask acl ou uid ing) n) \<longleftrightarrow>
      bit (class_mask (createFromMode m' is_dir) ou uid ing) n"
proof -
  have go: "bit (group_allowed s) n \<longrightarrow> bit (owner_defined s) n"
    using fin unfolding equiv_final_def subset_bits by blast
  note b = fin [unfolded equiv_final_def, THEN conjunct2, rule_format, OF mb]
  note i = inv [unfolded equiv_inv_def]
  note g = granted_special [OF t w, where uid = uid and ou = ou and ing = ing and gs = gs and n = n]
  consider "uid = ou" "ing" "\<not> isMasked acl" | "uid = ou" "\<not> ing" | "uid \<noteq> ou" "ing" | "uid \<noteq> ou" "\<not> ing"
    using mk nw by blast
  then show ?thesis
  proof cases
    case 1
    with g(4) i b go first_allows_defined [of ofOwner n] show ?thesis
      unfolding createFromMode_class_bit [OF mb] unfolding class_mask_def by (auto split: if_splits)
  next
    case 2
    with g(3) i b nw show ?thesis
      unfolding createFromMode_class_bit [OF mb] unfolding class_mask_def by (auto split: if_splits)
  next
    case 3
    with g(2) i b show ?thesis
      unfolding createFromMode_class_bit [OF mb] unfolding class_mask_def by (auto split: if_splits)
  next
    case 4
    with g(1) i b nw show ?thesis
      unfolding createFromMode_class_bit [OF mb] unfolding class_mask_def by (auto split: if_splits)
  qed
qed

lemma equiv_write_through:
  assumes "equiv_final acl is_dir m' s" "mode_bit is_dir n" "isMasked acl" "isWriteThrough acl" "uid = ou \<or> \<not> ing"
  shows "bit (class_mask acl ou uid ing) n = bit (class_mask (createFromMode m' is_dir) ou uid ing) n"
  using assms(1) [unfolded equiv_final_def, THEN conjunct2, rule_format, OF assms(2)] assms(3-5)
  unfolding createFromMode_class_bit [OF assms(2)] unfolding class_mask_def by auto

lemma equivMode_check:
  assumes eq: "equivMode acl m is_dir = (True, m')"
    and t: "\<forall>a \<in> set (ace_list acl). isAllow a \<or> isDeny a"
    and req: "requested AND (kPosixAlwaysAllowed OR kPosixOwnerAllowed OR (if is_dir then 0 else kDeleteChild)) = 0"
    and mk: "isMasked acl \<and> \<not> isWriteThrough acl \<longrightarrow> uid \<noteq> ou \<or> og \<notin> set gs"
  shows "checkPermission acl requested ou og uid gs = checkPermission (createFromMode m' is_dir) requested ou og uid gs"
proof -
  obtain s where s: "equiv_loop (ace_list acl) (equiv_start is_dir) = Some s" and fin: "equiv_final acl is_dir m' s"
    using equivMode_accepts [OF eq] by blast
  let ?ing = "og \<in> set gs"
  let ?mt = "matchAce ou ?ing uid gs" and ?wt = "isMasked acl \<and> isWriteThrough acl \<and> (uid = ou \<or> \<not> ?ing)"
  have "mode_bit is_dir 0" by (simp add: mode_bit_def acl_consts bit_or_iff)
  then have w: "\<forall>a \<in> set (ace_list acl). ofAny a \<and> \<not> isInheritOnly a"
    using equiv_loop_inv [OF s equiv_inv_start, of 0] by blast
  have inv: "equiv_inv n (ace_list acl) s" if "mode_bit is_dir n" for n
    using equiv_loop_inv [OF s equiv_inv_start, OF that] by simp
  have rb: "mode_bit is_dir n" if "bit requested n" for n
    using req that unfolding mode_bit_def and_zero_bits [of requested] by blast
  have cls: "class_mask acl ou uid (?ing \<or> in_class ?mt (ace_list acl)) = class_mask acl ou uid ?ing"
    "(uid = ou \<or> \<not> (?ing \<or> in_class ?mt (ace_list acl))) = (uid = ou \<or> \<not> ?ing)"
    using in_class_special [OF w, of uid ou ?ing gs] by (auto simp: class_mask_def)
  show ?thesis
    unfolding checkPermission_createFromMode unfolding checkPermission_iff cls subset_bits
    using equiv_granted [OF t w inv fin, OF rb rb _ mk] equiv_write_through [OF fin, OF rb]
    by (cases ?wt) (simp_all only: if_True if_False simp_thms, blast+)
qed

subsection \<open>Lists made from modes are accepted\<close>

fun no_conflict :: "nat \<Rightarrow> Ace list \<Rightarrow> Ace list \<Rightarrow> bool" where
  "no_conflict n p [] \<longleftrightarrow> True"
| "no_conflict n p (a # as) \<longleftrightarrow>
     (ofOwner a \<and> bit (amask a) n \<and> \<not> defines_bit ofOwner n p \<longrightarrow>
       (if isAllow a then defines_bit ofGroup n p \<longrightarrow> first_allows ofGroup n p else \<not> first_allows ofGroup n p)) \<and>
     no_conflict n (p @ [a]) as"

lemma equiv_step_succeeds:
  assumes "ofAny a" "ace_flags a AND NOT kSpecialWho = 0"
    and "ofOwner a \<Longrightarrow> \<forall>n. bit (amask a) n \<and> \<not> bit (owner_defined s) n \<longrightarrow>
       (if isAllow a then bit (group_defined s) n \<longrightarrow> bit (group_allowed s) n else \<not> bit (group_allowed s) n)"
  shows "\<exists>s'. equiv_step a s = Some s'"
proof -
  have "ofOwner a \<Longrightarrow> isAllow a \<Longrightarrow> (amask a AND NOT (owner_defined s)) AND (group_defined s AND NOT (group_allowed s)) = 0"
    "ofOwner a \<Longrightarrow> \<not> isAllow a \<Longrightarrow> (amask a AND NOT (owner_defined s)) AND group_allowed s = 0"
    using assms(3) unfolding and_zero_bits [of "amask a AND NOT (owner_defined s)"] bit_andnot by auto
  then show ?thesis
    using assms(1,2) by (cases "ofOwner a"; cases "isAllow a") (auto simp: equiv_step_def Let_def)
qed

lemma equiv_loop_succeeds:
  assumes "\<And>a. a \<in> set aces \<Longrightarrow> ofAny a \<and> ace_flags a AND NOT kSpecialWho = 0 \<and> (\<forall>n. bit (amask a) n \<longrightarrow> mode_bit is_dir n)"
    and "\<And>n. mode_bit is_dir n \<Longrightarrow> no_conflict n p aces" "\<And>n. mode_bit is_dir n \<Longrightarrow> equiv_inv n p s"
  shows "\<exists>s'. equiv_loop aces s = Some s'"
  using assms
proof (induction aces arbitrary: p s)
  case (Cons a aces)
  have "\<exists>s1. equiv_step a s = Some s1"
    using Cons.prems(1) [of a] Cons.prems(2,3)
    by (intro equiv_step_succeeds) (auto simp: equiv_inv_def)
  then obtain s1 where s1: "equiv_step a s = Some s1" ..
  have "\<exists>s'. equiv_loop aces s1 = Some s'"
    using Cons.prems equiv_step_inv [OF s1] by (intro Cons.IH [of "p @ [a]"]) auto
  then show ?case by (simp add: s1)
qed simp

lemma equiv_loop_unchanged:
  assumes "equiv_loop aces s = Some s'" "\<And>a. a \<in> set aces \<Longrightarrow> \<not> bit (amask a) n"
  shows "bit (owner_allowed s') n = bit (owner_allowed s) n" "bit (group_allowed s') n = bit (group_allowed s) n"
    "bit (everyone_allowed s') n = bit (everyone_allowed s) n"
proof -
  have "bit (owner_allowed s') n = bit (owner_allowed s) n \<and> bit (group_allowed s') n = bit (group_allowed s) n \<and>
      bit (everyone_allowed s') n = bit (everyone_allowed s) n"
    using assms
  proof (induction aces arbitrary: s)
    case (Cons a aces)
    then obtain s1 where s1: "equiv_step a s = Some s1" "equiv_loop aces s1 = Some s'" by (auto split: option.splits)
    have "bit (owner_allowed s1) n = bit (owner_allowed s) n"
      using equiv_step_who(1) [OF s1(1)] equiv_step_owner(2) [OF s1(1), of n] equiv_step_rest(5) [OF s1(1)]
        Cons.prems(2) [of a] by auto
    then show ?case
      using Cons.IH [OF s1(2)] Cons.prems(2) equiv_step_rest(2,4) [OF s1(1), of n] by auto
  qed simp
  then show "bit (owner_allowed s') n = bit (owner_allowed s) n" "bit (group_allowed s') n = bit (group_allowed s) n"
    "bit (everyone_allowed s') n = bit (everyone_allowed s) n" by blast+
qed

lemma mkAce_who:
  "isOwner (mkAce t kSpecialWho w kOwnerSpecialId)" "\<not> isGroup (mkAce t kSpecialWho w kOwnerSpecialId)"
  "\<not> isEveryone (mkAce t kSpecialWho w kOwnerSpecialId)"
  "\<not> isOwner (mkAce t kSpecialWho w kGroupSpecialId)" "isGroup (mkAce t kSpecialWho w kGroupSpecialId)"
  "\<not> isEveryone (mkAce t kSpecialWho w kGroupSpecialId)" "isEveryone (mkAce t kSpecialWho w kEveryoneSpecialId)"
  "\<not> isOwner (mkAce t kSpecialWho w kEveryoneSpecialId)" "\<not> isGroup (mkAce t kSpecialWho w kEveryoneSpecialId)"
  "isAllow (mkAce kAccessAllowedAceType f w i)" "\<not> isAllow (mkAce kAccessDeniedAceType f w i)"
  "ace_flags (mkAce t kSpecialWho w i) AND NOT kSpecialWho = 0"
  by (simp_all add: isOwner_def isGroup_def isEveryone_def isAllow_def mkAce_def acl_consts)

lemma createFromMode_mode_bit:
  assumes "bit (owner_mask (createFromMode mode is_dir)) n \<or> bit (group_mask (createFromMode mode is_dir)) n \<or>
    bit (other_mask (createFromMode mode is_dir)) n"
  shows "mode_bit is_dir n"
proof -
  have "n = 0 \<or> n = 1 \<or> n = 2 \<or> n = 5 \<or> n = 6 \<and> is_dir"
    using assms by (auto simp: createFromMode_fields bit_andnot bit_convertMode2Mask bit_posix_masks split: if_splits)
  then show ?thesis by (elim disjE) (simp_all add: mode_bit_def acl_consts bit_or_iff)
qed

text \<open>The entries of a list made from a mode, one permission at a time.\<close>

lemma createFromMode_list:
  fixes mode is_dir n
  defines "acl \<equiv> createFromMode mode is_dir"
  shows "a \<in> set (ace_list acl) \<Longrightarrow> ofAny a \<and> ace_flags a AND NOT kSpecialWho = 0 \<and> (bit (amask a) n \<longrightarrow> mode_bit is_dir n)"
    and "no_conflict n [] (ace_list acl)"
    and "first_allows ofOwner n (ace_list acl) = bit (owner_mask acl) n"
    and "first_allows ofGroup n (ace_list acl) = bit (group_mask acl) n"
    and "first_allows isEveryone n (ace_list acl) = bit (other_mask acl) n"
    and "bit (group_mask acl) n \<Longrightarrow> defines_bit ofOwner n (ace_list acl)"
proof -
  define o1 g1 e1 where d: "o1 = owner_mask acl" "g1 = group_mask acl" "e1 = other_mask acl"
  define w1 w2 where w: "w1 = NOT o1 AND (g1 OR e1)" "w2 = NOT g1 AND e1"
  define c1 c2 where c: "c1 = (o1 AND NOT (g1 AND e1) \<noteq> 0)" "c2 = (g1 AND NOT e1 \<noteq> 0)"
  have l: "ace_list acl =
       (if w1 \<noteq> 0 then [mkAce kAccessDeniedAceType kSpecialWho w1 kOwnerSpecialId] else []) @
       (if c1 then [mkAce kAccessAllowedAceType kSpecialWho o1 kOwnerSpecialId] else []) @
       (if w2 \<noteq> 0 then [mkAce kAccessDeniedAceType kSpecialWho w2 kGroupSpecialId] else []) @
       (if c2 then [mkAce kAccessAllowedAceType kSpecialWho g1 kGroupSpecialId] else []) @
       (if e1 \<noteq> 0 then [mkAce kAccessAllowedAceType kSpecialWho e1 kEveryoneSpecialId] else [])"
    by (simp add: acl_def d w c createFromMode_def Let_def)
  have b: "bit w1 n \<longleftrightarrow> \<not> bit o1 n \<and> (bit g1 n \<or> bit e1 n)" "bit w2 n \<longleftrightarrow> \<not> bit g1 n \<and> bit e1 n" for n
    unfolding w by (auto simp: bit_and_iff bit_or_iff bit_not_iff dest: bit_imp_le_length)
  have lt: "bit o1 n \<Longrightarrow> n < 21" "bit g1 n \<Longrightarrow> n < 21" "bit e1 n \<Longrightarrow> n < 21"
    using createFromMode_bits [of _ mode is_dir n] by (auto simp: d acl_def)
  have mb: "bit o1 n \<or> bit g1 n \<or> bit e1 n \<Longrightarrow> mode_bit is_dir n"
    unfolding d acl_def by (rule createFromMode_mode_bit)
  have z: "bit w1 n \<longrightarrow> w1 \<noteq> 0" "bit w2 n \<longrightarrow> w2 \<noteq> 0" "bit e1 n \<longrightarrow> e1 \<noteq> 0"
    "\<not> c1 \<longrightarrow> bit o1 n \<longrightarrow> bit g1 n \<and> bit e1 n" "\<not> c2 \<longrightarrow> bit g1 n \<longrightarrow> bit e1 n"
    using bit_andnot [of o1 "g1 AND e1" n] bit_andnot [of g1 e1 n] bit_and_iff [of g1 e1 n]
    unfolding c word_zero_bits by blast+
  note am = amask_mkAce b
  show "a \<in> set (ace_list acl) \<Longrightarrow> ofAny a \<and> ace_flags a AND NOT kSpecialWho = 0 \<and> (bit (amask a) n \<longrightarrow> mode_bit is_dir n)"
    unfolding l using mb by (auto simp: mkAce_who am split: if_splits)
  show "no_conflict n [] (ace_list acl)"
    unfolding l using lt z unfolding b
    by (cases "bit o1 n"; cases "bit g1 n"; cases "bit e1 n") (simp_all add: mkAce_who am defines_bit_def)
  have "first_allows ofOwner n (ace_list acl) = bit o1 n"
    unfolding l using lt z unfolding b
    by (cases "bit o1 n"; cases "bit g1 n"; cases "bit e1 n") (auto simp: mkAce_who am simp del: first_allows_snoc)
  then show "first_allows ofOwner n (ace_list acl) = bit (owner_mask acl) n" by (simp only: d)
  have "first_allows ofGroup n (ace_list acl) = bit g1 n"
    unfolding l using lt z unfolding b
    by (cases "bit o1 n"; cases "bit g1 n"; cases "bit e1 n") (auto simp: mkAce_who am simp del: first_allows_snoc)
  then show "first_allows ofGroup n (ace_list acl) = bit (group_mask acl) n" by (simp only: d)
  have "first_allows isEveryone n (ace_list acl) = bit e1 n"
    unfolding l using lt z unfolding b
    by (cases "bit o1 n"; cases "bit g1 n"; cases "bit e1 n") (auto simp: mkAce_who am simp del: first_allows_snoc)
  then show "first_allows isEveryone n (ace_list acl) = bit (other_mask acl) n" by (simp only: d)
  show "bit (group_mask acl) n \<Longrightarrow> defines_bit ofOwner n (ace_list acl)"
    unfolding l d [symmetric] defines_bit_def bex_Un set_append using lt z unfolding b
    by (cases "bit o1 n"; cases "bit e1 n") (auto simp: mkAce_who am)
qed

lemma createFromMode_loop:
  fixes mode is_dir
  defines "acl \<equiv> createFromMode mode is_dir"
  shows "\<exists>s. equiv_loop (ace_list acl) (equiv_start is_dir) = Some s \<and> owner_allowed s = owner_mask acl \<and>
    group_allowed s = group_mask acl \<and> everyone_allowed s = other_mask acl \<and> group_allowed s AND NOT (owner_defined s) = 0"
proof -
  note L = createFromMode_list [where mode = mode and is_dir = is_dir, folded acl_def]
  have "\<exists>s. equiv_loop (ace_list acl) (equiv_start is_dir) = Some s"
    using L(1,2) by (intro equiv_loop_succeeds [of _ is_dir "[]"] equiv_inv_start) auto
  then obtain s where s: "equiv_loop (ace_list acl) (equiv_start is_dir) = Some s" ..
  have inv: "equiv_inv n (ace_list acl) s" if "mode_bit is_dir n" for n
    using equiv_loop_inv [OF s equiv_inv_start [OF that]] by simp
  have z: "\<not> bit (owner_allowed s) n" "\<not> bit (group_allowed s) n" "\<not> bit (everyone_allowed s) n"
    "\<not> bit (owner_mask acl) n" "\<not> bit (group_mask acl) n" "\<not> bit (other_mask acl) n" if "\<not> mode_bit is_dir n" for n
    using equiv_loop_unchanged [OF s, of n] L(1) that createFromMode_mode_bit [of mode is_dir n, folded acl_def]
    by (auto simp: equiv_start_def Let_def)
  have b: "bit (owner_allowed s) n = bit (owner_mask acl) n" "bit (group_allowed s) n = bit (group_mask acl) n"
    "bit (everyone_allowed s) n = bit (other_mask acl) n" for n
    using inv [of n] z [of n] L(3-5) [of n] by (cases "mode_bit is_dir n"; simp add: equiv_inv_def)+
  moreover have "bit (owner_defined s) n" if "bit (group_mask acl) n" for n
    using inv [of n] z [of n] L(6) [OF that] that by (cases "mode_bit is_dir n"; simp add: equiv_inv_def)
  ultimately show ?thesis
    unfolding subset_bits using s by (auto simp: bit_eq_iff)
qed

lemma drop_mode:
  fixes m :: "16 word" and mode :: "16 word"
  defines "r \<equiv> (m AND NOT 0x1FF) OR push_bit 6 (drop_bit 6 mode AND 7) OR push_bit 3 (drop_bit 3 mode AND 7) OR (mode AND 7)"
  shows "n < 9 \<Longrightarrow> bit r n = bit mode n" and "r = (m AND NOT 0x1FF) OR (mode AND 0x1FF)"
proof -
  have f: "bit (0x1FF :: 16 word) n \<longleftrightarrow> n < 9" for n
    using bit_mask_iff [of 9 n, where 'a = "16 word"] by (auto simp: mask_eq_exp_minus_1)
  have b: "bit r n \<longleftrightarrow> (if n < 9 then bit mode n else bit m n)" for n
  proof -
    have "n < 3 \<or> 3 \<le> n \<and> n < 6 \<or> 6 \<le> n \<and> n < 9 \<or> 9 \<le> n" by linarith
    then show ?thesis
      unfolding r_def bit_or_iff bit_andnot f bit_push_bit_iff bit_and_7 bit_drop_bit_eq by (auto dest: bit_imp_le_length)
  qed
  show "n < 9 \<Longrightarrow> bit r n = bit mode n" by (simp add: b)
  show "r = (m AND NOT 0x1FF) OR (mode AND 0x1FF)"
    by (rule bit_word_eqI) (simp only: b bit_or_iff bit_andnot bit_and_iff [of mode] f, simp)
qed

lemma equivMode_createFromMode:
  "equivMode (createFromMode mode is_dir) m is_dir = (True, (m AND NOT 0x1FF) OR (mode AND 0x1FF))"
proof -
  let ?acl = "createFromMode mode is_dir" and ?x = "if is_dir then 0 else kDeleteChild"
  obtain s where s: "equiv_loop (ace_list ?acl) (equiv_start is_dir) = Some s" "owner_allowed s = owner_mask ?acl"
    "group_allowed s = group_mask ?acl" "everyone_allowed s = other_mask ?acl" "group_allowed s AND NOT (owner_defined s) = 0"
    using createFromMode_loop by blast
  let ?r = "(m AND NOT 0x1FF) OR push_bit 6 (drop_bit 6 mode AND 7) OR push_bit 3 (drop_bit 3 mode AND 7) OR (mode AND 7)"
  have mk: "\<not> isMasked ?acl" "\<not> isAutoSetMode ?acl"
    by (simp_all add: isMasked_def isAutoSetMode_def createFromMode_fields)
  have c: "convertMask2Mode (owner_mask ?acl) = drop_bit 6 mode AND 7"
    "convertMask2Mode (group_mask ?acl) = drop_bit 3 mode AND 7" "convertMask2Mode (other_mask ?acl) = mode AND 7"
    unfolding createFromMode_fields by (rule mask_mode_inverse)+
  have e: "(convertMode2Mask (drop_bit 6 ?r) XOR owner_mask ?acl) AND NOT ?x = 0"
    "(convertMode2Mask (drop_bit 3 ?r) XOR group_mask ?acl) AND NOT ?x = 0"
    "(convertMode2Mask ?r XOR other_mask ?acl) AND NOT ?x = 0"
    unfolding word_zero_bits bit_andnot bit_xor_iff createFromMode_fields bit_convertMode2Mask bit_drop_bit_eq comp_def
    using drop_mode(1) [of _ m mode] by (auto simp: bit_posix_masks split: if_splits)
  have fl: "\<not> acl_flags ?acl AND NOT (kWriteThrough OR kMasked) \<noteq> 0" by (simp add: createFromMode_fields(4))
  show ?thesis
    unfolding equivMode_def Let_def equiv_start_def [unfolded Let_def, symmetric] drop_mode(2) [symmetric]
    using fl s(5) by (simp only: s(1-4) mk c e simp_thms if_False option.case)
qed

subsection \<open>New inodes\<close>

lemma equivMode_rejects: "equivMode acl m is_dir = (False, m') \<Longrightarrow> m' = m"
proof -
  have "fst (equivMode acl m is_dir) \<or> snd (equivMode acl m is_dir) = m"
    unfolding equivMode_def Let_def
    by (simp only: fst_conv snd_conv simp_thms split: if_split option.split)
  then show "equivMode acl m is_dir = (False, m') \<Longrightarrow> m' = m" by simp
qed

lemma inheritInode_valid:
  assumes "inheritInode dir_acl m umask is_dir = (True, m', acl)"
  shows "m' = getMode acl" "isMasked acl" "\<not> isWriteThrough acl"
    "bit (owner_mask acl) n \<Longrightarrow> bit (convertMode2Mask (drop_bit 6 m)) n"
    "bit (group_mask acl) n \<Longrightarrow> bit (convertMode2Mask (drop_bit 3 m)) n"
    "bit (other_mask acl) n \<Longrightarrow> bit (convertMode2Mask m) n"
proof -
  define acl1 where "acl1 = (let a = inheritACL dir_acl is_dir in
    if isAutoInherit a then a\<lparr>acl_flags := acl_flags a OR kProtected\<rparr> else a)"
  obtain acl' where acl': "acl' = withMaxMasks acl1" by simp
  have acl: "acl = acl'\<lparr>owner_mask := owner_mask acl' AND convertMode2Mask (drop_bit 6 m),
      group_mask := group_mask acl' AND convertMode2Mask (drop_bit 3 m),
      other_mask := other_mask acl' AND convertMode2Mask m\<rparr>" and m': "m' = getMode acl"
    using assms equivMode_rejects [of "inheritACL dir_acl is_dir" m is_dir]
    by (auto simp: inheritInode_def acl' withMaxMasks_def acl1_def Let_def split: if_splits prod.splits bool.splits)
  show "m' = getMode acl" by (rule m')
  show "isMasked acl" "\<not> isWriteThrough acl"
    using withMaxMasks_fields(2,3) [of acl1] by (simp_all add: acl acl' isMasked_def isWriteThrough_def)
  show "bit (owner_mask acl) n \<Longrightarrow> bit (convertMode2Mask (drop_bit 6 m)) n"
    "bit (group_mask acl) n \<Longrightarrow> bit (convertMode2Mask (drop_bit 3 m)) n"
    "bit (other_mask acl) n \<Longrightarrow> bit (convertMode2Mask m) n"
    by (simp_all add: acl bit_and_iff)
qed

section \<open>Properties\<close>

text \<open>
  C14. \<open>checkPermission\<close> on every branch. In a masked write-through list the owner, and every user
  outside the group class, gets exactly the mask of the class. Otherwise a permission is granted when
  the first entry that applies to the user and has the permission (a group class allow entry after
  the group mask) is not a deny entry and, in a masked list, the mask of the user's class has it.
\<close>

theorem checkPermission_first_match:
  "checkPermission acl requested owner_uid owner_gid uid groups =
    (let mt = matchAce owner_uid (owner_gid \<in> set groups) uid groups;
         inc = (owner_gid \<in> set groups \<or> (\<exists>a \<in> set (ace_list acl). mt a = MatchesOwner \<or> mt a = MatchesGroupClass));
         cm = (if uid = owner_uid then owner_mask acl else if inc then group_mask acl else other_mask acl);
         em = (\<lambda>a. if mt a = MatchesGroupClass \<and> isMasked acl \<and> isAllow a then amask a AND group_mask acl else amask a)
     in if isMasked acl \<and> isWriteThrough acl \<and> \<not> (uid \<noteq> owner_uid \<and> inc) then requested AND NOT cm = 0
        else {n. bit requested n} \<subseteq>
          {n. (\<exists>a. List.find (\<lambda>a. mt a \<noteq> NoMatch \<and> bit (em a) n) (ace_list acl) = Some a \<and> \<not> isDeny a) \<and>
              (if isMasked acl then bit cm n else True)})"
proof -
  have d: "decides acl mt n = (\<lambda>a. mt a \<noteq> NoMatch \<and> bit (if mt a = MatchesGroupClass \<and> isMasked acl \<and> isAllow a
      then amask a AND group_mask acl else amask a) n)" for mt n
    unfolding decides_def eff_mask_def by (rule refl)
  have h: "(if c then p else True) = (c \<longrightarrow> p)" for c p by simp
  show ?thesis
    unfolding checkPermission_iff granted_find in_class_def class_mask_def Let_def d subset_iff mem_Collect_eq h
      de_Morgan_conj not_not
    by (rule refl)
qed

text \<open>
  C17. The list made from a mode grants what the mode grants: exactly the permissions of the
  class of the user, the owner's first, then the owning group's, then the others'.
\<close>

theorem createFromMode_grants:
  "checkPermission (createFromMode mode is_dir) requested owner_uid owner_gid uid groups \<longleftrightarrow>
     requested AND NOT (convertMode2Mask
       (if uid = owner_uid then drop_bit 6 mode else if owner_gid \<in> set groups then drop_bit 3 mode else mode) AND
       NOT (if is_dir then 0 else kDeleteChild)) = 0"
  unfolding checkPermission_createFromMode class_mask_def by (simp add: createFromMode_fields)


definition equiv_example :: RichACL where
  "equiv_example = emptyACL\<lparr>ace_list :=
     [mkAce kAccessAllowedAceType kSpecialWho (kReadData OR kWriteData OR kAppendData) kOwnerSpecialId,
      mkAce kAccessAllowedAceType kSpecialWho kReadData kEveryoneSpecialId]\<rparr>"


text \<open>
  C18. \<open>equivMode\<close> accepts every list made from a mode and gives the permission bits of that mode
  back, with the other bits of the mode it was called with.
\<close>

theorem equivMode_roundtrip:
  "equivMode (createFromMode mode is_dir) mode_out is_dir = (True, (mode_out AND NOT 0x1FF) OR (mode AND 0x1FF))"
  by (rule equivMode_createFromMode)

text \<open>
  C23. \<open>getMode\<close> gives the permission bits that \<open>setMode\<close> was called with, whatever the list, and
  \<open>isSameMode\<close> agrees, except on a list that inherits and is protected.
\<close>

theorem getMode_setMode_roundtrip:
  "getMode (setMode mode is_dir acl) = mode AND 0x1FF \<and>
   (isSameMode mode is_dir (setMode mode is_dir acl) \<longleftrightarrow> \<not> (isAutoInherit acl \<and> isProtected acl))"
  by (simp only: getMode_setMode isSameMode_setMode de_Morgan_conj simp_thms)

text \<open>
  C16. \<open>computeMaxMasks\<close> computes masks that take nothing away: a list of well-formed entries that is
  then marked as masked answers every check as it did without masks.
\<close>

theorem computeMaxMasks_neutral:
  assumes "\<forall>a \<in> set (ace_list acl). wf_ace a" and "\<not> isMasked acl"
  shows "checkPermission ((computeMaxMasks acl)\<lparr>acl_flags := acl_flags (computeMaxMasks acl) OR kMasked\<rparr>)
      requested owner_uid owner_gid uid groups =
    checkPermission acl requested owner_uid owner_gid uid groups"
  using checkPermission_withMaxMasks [OF assms] by (simp only: withMaxMasks_def)

theorem computeMaxMasks_neutral_witness:
  "checkPermission ((computeMaxMasks equiv_example)\<lparr>acl_flags := acl_flags (computeMaxMasks equiv_example) OR kMasked\<rparr>)
      kWriteData 7 8 7 [8] = True"
proof -
  have "\<forall>a \<in> set (ace_list equiv_example). wf_ace a" "\<not> isMasked equiv_example" by code_simp+
  from computeMaxMasks_neutral [OF this, of kWriteData 7 8 7 "[8]"]
  show ?thesis by (simp only:) code_simp
qed

text \<open>
  C22. What \<open>inherit\<close> puts on a new file or directory passes \<open>checkInheritFlags\<close>: no entry is inherit-only
  without being inheritable, and a file has no inheritable entry at all.
\<close>

theorem inheritACL_valid: "checkInheritFlags is_dir (inheritACL dir_acl is_dir)"
  by (rule inheritACL_flags)


definition inherit_example :: RichACL where
  "inherit_example = emptyACL\<lparr>ace_list :=
     [mkAce kAccessAllowedAceType kFileInheritAce (kReadData OR kWriteData) 42]\<rparr>"



end
