(* ===== verification/RichACL_Compat.thy ===== *)
theory RichACL_Compat
  imports RichACL_Mode
begin

text \<open>
  \<open>RichACL::applyMasks\<close> and its helpers, after \<open>src/src/common/richacl_compat.cc\<close>. An iterator is a
  position in the list; \<open>changeMask\<close> gives the entries that replace the entry it is called on, and
  the loops continue behind them, as the returned iterator does.
\<close>

definition changeMask :: "Ace \<Rightarrow> 32 word \<Rightarrow> Ace list" where
  "changeMask ace m =
     (if m \<noteq> 0 \<and> amask ace = m then [ace\<lparr>ace_flags := ace_flags ace AND NOT kInheritOnlyAce\<rparr>]
      else if m AND NOT kPosixAlwaysAllowed \<noteq> 0 then
        (if isInheritable ace then
           [ace\<lparr>ace_flags := ace_flags ace OR kInheritOnlyAce\<rparr>,
            ace\<lparr>ace_flags := ace_flags ace AND (NOT kInheritanceFlags OR kInheritedAce), ace_mask := ucast m\<rparr>]
         else [ace\<lparr>ace_mask := ucast m\<rparr>])
      else if isInheritable ace then [ace\<lparr>ace_flags := ace_flags ace OR kInheritOnlyAce\<rparr>]
      else [])"

definition changeMaskAt :: "nat \<Rightarrow> 32 word \<Rightarrow> Ace list \<Rightarrow> Ace list" where
  "changeMaskAt i m aces = take i aces @ changeMask (aces ! i) m @ drop (Suc i) aces"

fun move_everyone_loop :: "Ace list \<Rightarrow> 32 word \<Rightarrow> 32 word \<Rightarrow> Ace list \<times> 32 word" where
  "move_everyone_loop [] allowed denied = ([], allowed)"
| "move_everyone_loop (ace # aces) allowed denied =
    (if isInheritOnly ace \<or> \<not> (isAllow ace \<or> isDeny ace) then
       (case move_everyone_loop aces allowed denied of (out, al) \<Rightarrow> (ace # out, al))
     else if isEveryone ace then
       (let allowed' = (if isAllow ace then allowed OR (amask ace AND NOT denied) else allowed);
            denied' = (if isAllow ace then denied else denied OR (amask ace AND NOT allowed))
        in case move_everyone_loop aces allowed' denied' of (out, al) \<Rightarrow> (changeMask ace 0 @ out, al))
     else
       (let m = (if isAllow ace then allowed OR (amask ace AND NOT denied)
                 else denied OR (amask ace AND NOT allowed))
        in case move_everyone_loop aces allowed denied of (out, al) \<Rightarrow> (changeMask ace m @ out, al)))"

text \<open>
  The last branch clears the bit \<open>kInheritOnlyAce\<close> of the \<^emph>\<open>mask\<close> of the last entry, as the source does.
\<close>

definition moveEveryoneAcesDown :: "RichACL \<Rightarrow> RichACL" where
  "moveEveryoneAcesDown acl =
     (case move_everyone_loop (ace_list acl) 0 0 of (aces, allowed) \<Rightarrow>
        if allowed AND NOT kPosixAlwaysAllowed \<noteq> 0 then
          (if aces \<noteq> [] \<and> isEveryone (last aces) \<and> isAllow (last aces) \<and> isInheritOnly (last aces) \<and>
              amask (last aces) = allowed
           then acl\<lparr>ace_list := butlast aces @
                  [(last aces)\<lparr>ace_mask := ucast (amask (last aces) AND NOT (ucast kInheritOnlyAce))\<rparr>]\<rparr>
           else acl\<lparr>ace_list := aces @ [mkAce kAccessAllowedAceType kSpecialWho allowed kEveryoneSpecialId]\<rparr>)
        else acl\<lparr>ace_list := aces\<rparr>)"

fun propagate_scan :: "Ace \<Rightarrow> nat \<Rightarrow> Ace list \<Rightarrow> 32 word \<Rightarrow> nat option \<Rightarrow> 32 word \<times> nat option" where
  "propagate_scan who i [] allow allow_last = (allow, allow_last)"
| "propagate_scan who i (ace # aces) allow allow_last =
    (if isInheritOnly ace then propagate_scan who (Suc i) aces allow allow_last
     else if isAllow ace then
       (if isSameIdentifier ace who then propagate_scan who (Suc i) aces (allow AND NOT (amask ace)) (Some i)
        else propagate_scan who (Suc i) aces allow allow_last)
     else if isDeny ace then
       (if isSameIdentifier ace who then propagate_scan who (Suc i) aces (allow AND NOT (amask ace)) allow_last
        else if allow AND amask ace \<noteq> 0 then propagate_scan who (Suc i) aces allow None
        else propagate_scan who (Suc i) aces allow allow_last)
     else propagate_scan who (Suc i) aces allow allow_last)"

definition propagateEveryoneTo :: "Ace \<Rightarrow> 32 word \<Rightarrow> RichACL \<Rightarrow> RichACL" where
  "propagateEveryoneTo who allow acl =
     (case propagate_scan who 0 (ace_list acl) allow None of (allow1, allow_last) \<Rightarrow>
       (let ace = last (ace_list acl);
            allow2 = (if \<not> isOwner ace \<and> isEveryone ace \<and> allow1 AND NOT (amask ace AND other_mask acl) = 0
                      then 0 else allow1)
        in if allow2 = 0 then acl
           else case allow_last of
             Some i \<Rightarrow> acl\<lparr>ace_list := changeMaskAt i (amask (ace_list acl ! i) OR allow2) (ace_list acl)\<rparr>
           | None \<Rightarrow> acl\<lparr>ace_list := butlast (ace_list acl) @
               [mkAce kAccessAllowedAceType (ace_flags who AND NOT kInheritanceFlags) allow2 (ace_id who), ace]\<rparr>))"

text \<open>\<open>for (i = size - 2; i >= 0; --i)\<close>: the position counts down while the list may grow.\<close>

fun propagate_down :: "nat \<Rightarrow> 32 word \<Rightarrow> RichACL \<Rightarrow> RichACL" where
  "propagate_down 0 group_allow acl = acl"
| "propagate_down (Suc i) group_allow acl =
    (let ace = ace_list acl ! i in
     if isInheritOnly ace \<or> isOwner ace \<or> isGroup ace then propagate_down i group_allow acl
     else propagate_down i group_allow (propagateEveryoneTo ace group_allow acl))"

definition propagateEveryone :: "RichACL \<Rightarrow> RichACL" where
  "propagateEveryone acl =
     (if ace_list acl = [] then acl
      else
        (let ace = last (ace_list acl) in
         if isInheritOnly ace \<or> \<not> isEveryone ace then acl
         else
           (let owner_allow = amask ace AND owner_mask acl;
                group_allow = amask ace AND group_mask acl;
                acl1 = (if owner_allow AND NOT (group_mask acl AND other_mask acl) \<noteq> 0
                        then propagateEveryoneTo (mkAce 0 kSpecialWho 0 kOwnerSpecialId) owner_allow acl else acl)
            in if group_allow AND NOT (other_mask acl) \<noteq> 0 then
                 (let acl2 = propagateEveryoneTo (mkAce 0 kSpecialWho 0 kGroupSpecialId) group_allow acl1
                  in propagate_down (length (ace_list acl2) - 1) group_allow acl2)
               else acl1)))"

fun set_owner_loop :: "Ace list \<Rightarrow> 32 word \<Rightarrow> 32 word \<Rightarrow> Ace list \<times> 32 word \<times> 32 word" where
  "set_owner_loop [] om denied = ([], om, denied)"
| "set_owner_loop (ace # aces) om denied =
    (if isOwner ace then
       (if isAllow ace \<and> om AND denied = 0 then
          (case set_owner_loop aces 0 denied of (out, r) \<Rightarrow> (changeMask ace om @ out, r))
        else (case set_owner_loop aces om denied of (out, r) \<Rightarrow> (changeMask ace 0 @ out, r)))
     else
       (case set_owner_loop aces om (if isDeny ace then denied OR amask ace else denied) of
          (out, r) \<Rightarrow> (ace # out, r)))"

definition setOwnerPermissions :: "RichACL \<Rightarrow> RichACL" where
  "setOwnerPermissions acl =
     (if \<not> isWriteThrough acl then acl
      else case set_owner_loop (ace_list acl) (owner_mask acl AND NOT kPosixAlwaysAllowed) 0 of
        (aces, om, denied) \<Rightarrow>
          acl\<lparr>ace_list :=
            (if om AND (denied OR NOT (other_mask acl) OR NOT (group_mask acl)) \<noteq> 0
             then mkAce kAccessAllowedAceType kSpecialWho om kOwnerSpecialId # aces else aces)\<rparr>)"

definition setOtherPermissions :: "RichACL \<Rightarrow> RichACL \<times> 32 word" where
  "setOtherPermissions acl =
     (let em = other_mask acl AND NOT kPosixAlwaysAllowed in
      if \<not> (em \<noteq> 0 \<and> isWriteThrough acl) then (acl, 0)
      else if ace_list acl = [] \<or> \<not> isEveryone (last (ace_list acl)) \<or> isInheritOnly (last (ace_list acl))
      then (acl\<lparr>ace_list := ace_list acl @ [mkAce kAccessAllowedAceType kSpecialWho em kEveryoneSpecialId]\<rparr>, em)
      else (acl\<lparr>ace_list := butlast (ace_list acl) @ changeMask (last (ace_list acl)) em\<rparr>,
            em AND NOT (amask (last (ace_list acl)))))"

definition getMaxAllowed :: "RichACL \<Rightarrow> 32 word" where
  "getMaxAllowed acl =
     foldr (\<lambda>ace allowed. if isInheritOnly ace then allowed
        else if isAllow ace then allowed OR amask ace
        else if isDeny ace \<and> isEveryone ace then allowed AND NOT (amask ace) else allowed) (ace_list acl) 0"

text \<open>The position of the first effective owner entry before any effective allow entry.\<close>

fun owner_deny_pos :: "nat \<Rightarrow> Ace list \<Rightarrow> nat option" where
  "owner_deny_pos i [] = None"
| "owner_deny_pos i (ace # aces) =
    (if isInheritOnly ace then owner_deny_pos (Suc i) aces
     else if isAllow ace then None
     else if isOwner ace then Some i
     else owner_deny_pos (Suc i) aces)"

definition isolateOwnerClass :: "RichACL \<Rightarrow> RichACL" where
  "isolateOwnerClass acl =
     (let deny = getMaxAllowed acl AND NOT (owner_mask acl) in
      if deny = 0 then acl
      else case owner_deny_pos 0 (ace_list acl) of
        Some i \<Rightarrow> acl\<lparr>ace_list := changeMaskAt i (amask (ace_list acl ! i) OR deny) (ace_list acl)\<rparr>
      | None \<Rightarrow> acl\<lparr>ace_list := mkAce kAccessDeniedAceType kSpecialWho deny kOwnerSpecialId # ace_list acl\<rparr>)"

text \<open>\<open>for (i = size - 2; i >= 0; --i)\<close> of \<open>isolateWho\<close>: the entry to widen, if one is found.\<close>

fun isolate_pos :: "nat \<Rightarrow> Ace list \<Rightarrow> Ace \<Rightarrow> 32 word \<Rightarrow> nat option" where
  "isolate_pos 0 aces who deny = None"
| "isolate_pos (Suc i) aces who deny =
    (let ace = aces ! i in
     if isInheritOnly ace then isolate_pos i aces who deny
     else if isDeny ace then (if isSameIdentifier ace who then Some i else isolate_pos i aces who deny)
     else if isAllow ace \<and> amask ace AND deny \<noteq> 0 then None
     else isolate_pos i aces who deny)"

definition isolateWho :: "Ace \<Rightarrow> 32 word \<Rightarrow> RichACL \<Rightarrow> RichACL" where
  "isolateWho who deny0 acl =
     (let deny = fold (\<lambda>ace d. if \<not> isInheritOnly ace \<and> isSameIdentifier ace who then d AND NOT (amask ace) else d)
                   (ace_list acl) deny0
      in if deny = 0 then acl
         else case isolate_pos (length (ace_list acl) - 1) (ace_list acl) who deny of
           Some i \<Rightarrow> acl\<lparr>ace_list := changeMaskAt i (amask (ace_list acl ! i) OR deny) (ace_list acl)\<rparr>
         | None \<Rightarrow> acl\<lparr>ace_list := butlast (ace_list acl) @
             [mkAce kAccessDeniedAceType (ace_flags who AND NOT kInheritanceFlags) deny (ace_id who),
              last (ace_list acl)]\<rparr>)"

fun isolate_down :: "nat \<Rightarrow> 32 word \<Rightarrow> RichACL \<Rightarrow> RichACL" where
  "isolate_down 0 deny acl = acl"
| "isolate_down (Suc i) deny acl =
    (let ace = ace_list acl ! i in
     if isInheritOnly ace \<or> isOwner ace \<or> isGroup ace then isolate_down i deny acl
     else isolate_down i deny (isolateWho ace deny acl))"

definition isolateGroupClass :: "32 word \<Rightarrow> RichACL \<Rightarrow> RichACL" where
  "isolateGroupClass deny0 acl =
     (if ace_list acl = [] then acl
      else
        (let ace = last (ace_list acl) in
         if isInheritOnly ace \<or> \<not> isEveryone ace then acl
         else
           (let deny = deny0 OR (amask ace AND NOT (group_mask acl)) in
            if deny = 0 then acl
            else
              (let acl1 = isolateWho (mkAce 0 kSpecialWho 0 kGroupSpecialId) deny acl
               in isolate_down (length (ace_list acl1) - 1) deny acl1))))"

definition applyMasks2AceList :: "32 word \<Rightarrow> RichACL \<Rightarrow> RichACL" where
  "applyMasks2AceList owner acl = acl\<lparr>ace_list :=
     concat (map (\<lambda>ace. if isInheritOnly ace \<or> \<not> isAllow ace then [ace]
        else
          (let m = (if isOwner ace \<or> (isUnixUser ace \<and> owner = ace_id ace) then owner_mask acl
                    else if isEveryone ace then other_mask acl else group_mask acl)
           in changeMask ace (amask ace AND m))) (ace_list acl))\<rparr>"

definition applyMasks :: "32 word \<Rightarrow> RichACL \<Rightarrow> RichACL" where
  "applyMasks owner acl =
     (if \<not> isMasked acl then acl
      else
        (let acl1 = applyMasks2AceList owner (propagateEveryone (moveEveryoneAcesDown acl))
         in case setOtherPermissions acl1 of (acl2, added) \<Rightarrow>
           (let acl3 = isolateOwnerClass (setOwnerPermissions (isolateGroupClass added acl2))
            in acl3\<lparr>acl_flags := acl_flags acl3 AND NOT (kWriteThrough OR kMasked)\<rparr>)))"

subsection \<open>Changing the mask of one entry\<close>

lemma granted_skip: "(\<And>a. a \<in> set xs \<Longrightarrow> \<not> decides acl mt n a) \<Longrightarrow> granted acl mt (xs @ ys) n = granted acl mt ys n"
  by (induction xs) auto

lemma amask_update: "(\<And>k. bit m k \<Longrightarrow> k < 21) \<Longrightarrow> amask (a\<lparr>ace_flags := f, ace_mask := ucast m\<rparr>) = m"
  by (rule bit_word_eqI) (auto simp: amask_def bit_ucast_iff)

lemma changed_flags:
  fixes a :: Ace
  shows "bit (ace_flags a AND (NOT kInheritanceFlags OR kInheritedAce)) n \<longleftrightarrow>
     bit (ace_flags a) n \<and> (n = 7 \<or> n \<noteq> 0 \<and> n \<noteq> 1 \<and> n \<noteq> 2 \<and> n \<noteq> 3)"
  by (auto simp: bit_and_iff bit_or_iff bit_not_iff bit_inheritance_flags bit_flag_consts dest: bit_imp_le_length)

lemma changeMask_granted:
  assumes um: "\<not> isMasked acl" and io: "\<not> isInheritOnly a" and m: "\<And>k. bit m k \<Longrightarrow> k < 21"
    and n: "\<not> bit kPosixAlwaysAllowed n"
  shows "granted acl (matchAce ou ing uid gs) (changeMask a m @ rest) n \<longleftrightarrow>
    (if matchAce ou ing uid gs a \<noteq> NoMatch \<and> bit m n then \<not> isDeny a
     else granted acl (matchAce ou ing uid gs) rest n)"
proof -
  let ?mt = "matchAce ou ing uid gs"
  have dec: "decides acl ?mt k b \<longleftrightarrow> ?mt b \<noteq> NoMatch \<and> bit (amask b) k" for k b
    using um by (simp add: decides_def eff_mask_def)
  have io1: "?mt (a\<lparr>ace_flags := ace_flags a OR kInheritOnlyAce\<rparr>) = NoMatch"
    by (rule matchAce_NoMatch_io) (simp add: isInheritOnly_bits bit_or_iff bit_flag_consts)
  have mt1: "?mt (a\<lparr>ace_flags := ace_flags a AND NOT kInheritOnlyAce\<rparr>) = ?mt a"
    using io by (intro matchAce_bits) (auto simp: bit_andnot bit_flag_consts isInheritOnly_bits)
  have mt2: "?mt (a\<lparr>ace_flags := ace_flags a AND (NOT kInheritanceFlags OR kInheritedAce), ace_mask := ucast m\<rparr>) = ?mt a"
    using io unfolding isInheritOnly_bits
    by (intro matchAce_bits) (auto simp: changed_flags)
  have mt3: "?mt (a\<lparr>ace_mask := ucast m\<rparr>) = ?mt a" by (rule matchAce_bits) simp_all
  have am3: "amask (a\<lparr>ace_mask := ucast m\<rparr>) = m" using amask_update [OF m, where a = a and f = "ace_flags a"] by simp
  have am2: "amask (a\<lparr>ace_flags := f, ace_mask := ucast m\<rparr>) = m" for f by (rule amask_update [OF m])
  have am1: "amask (a\<lparr>ace_flags := f\<rparr>) = amask a" for f by (simp add: amask_def)
  have dn: "isDeny (a\<lparr>ace_flags := f\<rparr>) = isDeny a" "isDeny (a\<lparr>ace_flags := f, ace_mask := w\<rparr>) = isDeny a"
    "isDeny (a\<lparr>ace_mask := w\<rparr>) = isDeny a" for f w by (simp_all add: isDeny_def)
  have z: "m AND NOT kPosixAlwaysAllowed = 0 \<Longrightarrow> \<not> bit m n"
    using n unfolding subset_bits by blast
  show ?thesis
    unfolding changeMask_def using z by (auto simp: dec io1 mt1 mt2 mt3 am1 am2 am3 dn)
qed

subsection \<open>Everyone entries last\<close>

lemma move_everyone_granted:
  assumes um: "\<not> isMasked acl" and n: "\<not> bit kPosixAlwaysAllowed n"
    and "\<forall>a \<in> set aces. isAllow a \<or> isDeny a"
    and "\<not> (bit allowed n \<and> bit denied n)" "\<forall>k. bit allowed k \<or> bit denied k \<longrightarrow> k < 21"
    and "move_everyone_loop aces allowed denied = (out, al)"
    and tl: "granted acl (matchAce ou ing uid gs) tail n \<longleftrightarrow> bit al n"
  shows "granted acl (matchAce ou ing uid gs) (out @ tail) n \<longleftrightarrow>
      (if bit allowed n then True else if bit denied n then False
       else granted acl (matchAce ou ing uid gs) aces n)"
  using assms(3-)
proof (induction aces arbitrary: allowed denied out al)
  case Nil
  then show ?case by auto
next
  case (Cons a aces)
  let ?mt = "matchAce ou ing uid gs"
  have dec: "decides acl ?mt k b \<longleftrightarrow> ?mt b \<noteq> NoMatch \<and> bit (amask b) k" for k b
    using um by (simp add: decides_def eff_mask_def)
  have lt: "bit (amask a) k \<Longrightarrow> k < 21" for k by (auto simp: amask_def bit_ucast_iff dest: bit_imp_le_length)
  note ch = changeMask_granted [OF um _ _ n, of a]
  show ?case
  proof (cases "isInheritOnly a")
    case True
    with Cons.prems obtain out' where "move_everyone_loop aces allowed denied = (out', al)" "out = a # out'"
      by (auto split: prod.splits)
    with True Cons show ?thesis by (simp add: dec matchAce_NoMatch_io)
  next
    case io: False
    show ?thesis
    proof (cases "isEveryone a")
      case True
      define A where "A = (if isAllow a then allowed OR (amask a AND NOT denied) else allowed)"
      define D where "D = (if isAllow a then denied else denied OR (amask a AND NOT allowed))"
      from Cons.prems io True obtain out' where
        r: "move_everyone_loop aces A D = (out', al)" "out = changeMask a 0 @ out'"
        by (auto simp: A_def D_def Let_def split: prod.splits if_splits)
      have bA: "bit A k \<longleftrightarrow> bit allowed k \<or> isAllow a \<and> bit (amask a) k \<and> \<not> bit denied k"
        and bD: "bit D k \<longleftrightarrow> bit denied k \<or> \<not> isAllow a \<and> bit (amask a) k \<and> \<not> bit allowed k" for k
        by (auto simp: A_def D_def bit_or_iff bit_andnot)
      have "granted acl ?mt (out' @ tail) n \<longleftrightarrow>
          (if bit A n then True else if bit D n then False else granted acl ?mt aces n)"
        using Cons.prems lt by (intro Cons.IH [OF _ _ _ r(1)]) (auto simp: bA bD)
      then show ?thesis
        using True io Cons.prems(1,2) ch [of 0] unfolding r(2)
        by (auto simp: bA bD dec matchAce_everyone isAllow_def isDeny_def kAccessAllowedAceType_def kAccessDeniedAceType_def)
    next
      case False
      define m where "m = (if isAllow a then allowed OR (amask a AND NOT denied) else denied OR (amask a AND NOT allowed))"
      from Cons.prems(1,4) io False obtain out' where
        r: "move_everyone_loop aces allowed denied = (out', al)" "out = changeMask a m @ out'"
        by (auto simp: m_def Let_def split: prod.splits if_splits)
      have bm: "bit m k \<longleftrightarrow> (if isAllow a then bit allowed k \<or> bit (amask a) k \<and> \<not> bit denied k
          else bit denied k \<or> bit (amask a) k \<and> \<not> bit allowed k)" for k
        by (auto simp: m_def bit_or_iff bit_andnot)
      have "granted acl ?mt (out' @ tail) n \<longleftrightarrow>
          (if bit allowed n then True else if bit denied n then False else granted acl ?mt aces n)"
        using Cons.prems by (intro Cons.IH [OF _ _ _ r(1)]) auto
      moreover have "\<And>k. bit m k \<Longrightarrow> k < 21"
        using Cons.prems(3) lt by (auto simp: bm split: if_splits)
      ultimately show ?thesis
        using io Cons.prems(1,2) ch [of m] unfolding r(2)
        by (auto simp: bm dec isAllow_def isDeny_def kAccessAllowedAceType_def kAccessDeniedAceType_def)
    qed
  qed
qed

lemma move_everyone_bits:
  "move_everyone_loop aces allowed denied = (out, al) \<Longrightarrow> \<forall>k. bit allowed k \<longrightarrow> k < 21 \<Longrightarrow> \<forall>k. bit al k \<longrightarrow> k < 21"
proof (induction aces arbitrary: allowed denied out al)
  case (Cons a aces)
  have "bit (amask a) k \<Longrightarrow> k < 21" for k by (auto simp: amask_def bit_ucast_iff dest: bit_imp_le_length)
  moreover obtain A D out' where r: "move_everyone_loop aces A D = (out', al)"
    and "A = allowed \<or> A = allowed OR (amask a AND NOT denied)"
    using Cons.prems(1) that by (auto simp: Let_def split: prod.splits if_splits)
  ultimately have "\<forall>k. bit A k \<longrightarrow> k < 21"
    using Cons.prems(2) by (auto simp: bit_or_iff bit_andnot)
  then show ?case by (rule Cons.IH [OF r])
qed simp

lemma changeMask_everyone:
  "a \<in> set (changeMask b m) \<Longrightarrow> isEveryone a = isEveryone b"
  "\<not> isInheritable b \<Longrightarrow> changeMask b 0 = []"
proof -
  assume "a \<in> set (changeMask b m)"
  then have "ace_id a = ace_id b" "bit (ace_flags a) 8 = bit (ace_flags b) 8"
    by (auto simp: changeMask_def bit_or_iff bit_andnot bit_flag_consts changed_flags split: if_splits)
  then show "isEveryone a = isEveryone b" by (simp add: who_bits)
qed (simp add: changeMask_def)

lemma move_everyone_none_left:
  assumes "move_everyone_loop aces allowed denied = (out, al)"
    and "\<forall>a \<in> set aces. (isAllow a \<or> isDeny a) \<and> (isEveryone a \<longrightarrow> \<not> isInheritable a \<and> \<not> isInheritOnly a)"
  shows "\<forall>a \<in> set out. \<not> isEveryone a"
  using assms
proof (induction aces arbitrary: allowed denied out al)
  case (Cons a aces)
  then show ?case
    by (fastforce simp: Let_def changeMask_everyone split: prod.splits if_splits)
qed simp

lemma granted_unmasked_eq:
  "\<not> isMasked acl \<Longrightarrow> \<not> isMasked acl' \<Longrightarrow> granted acl mt aces n = granted acl' mt aces n"
  by (induction aces) (auto simp: decides_def eff_mask_def)

lemma moveEveryone_check:
  assumes um: "\<not> isMasked acl"
    and wf: "\<forall>a \<in> set (ace_list acl). (isAllow a \<or> isDeny a) \<and> (isEveryone a \<longrightarrow> \<not> isInheritable a \<and> \<not> isInheritOnly a)"
    and req: "requested AND kPosixAlwaysAllowed = 0"
  shows "checkPermission (moveEveryoneAcesDown acl) requested ou og uid gs = checkPermission acl requested ou og uid gs"
proof -
  let ?mt = "matchAce ou (og \<in> set gs) uid gs" and ?acl = "moveEveryoneAcesDown acl"
  obtain out al where r: "move_everyone_loop (ace_list acl) 0 0 = (out, al)" by fastforce
  define tail where "tail = (if al AND NOT kPosixAlwaysAllowed \<noteq> 0
    then [mkAce kAccessAllowedAceType kSpecialWho al kEveryoneSpecialId] else [])"
  have "\<forall>a \<in> set out. \<not> isEveryone a" using move_everyone_none_left [OF r wf] .
  then have l: "?acl = acl\<lparr>ace_list := out @ tail\<rparr>"
    using last_in_set [of out] by (auto simp: moveEveryoneAcesDown_def r tail_def)
  have um': "\<not> isMasked ?acl" using um by (simp add: l isMasked_def)
  have lt: "\<forall>k. bit al k \<longrightarrow> k < 21" using move_everyone_bits [OF r] by simp
  have "granted ?acl ?mt (out @ tail) n = granted acl ?mt (ace_list acl) n" if "bit requested n" for n
  proof -
    have n: "\<not> bit kPosixAlwaysAllowed n" using req that unfolding and_zero_bits by blast
    have "granted ?acl ?mt tail n = bit al n"
      using lt n um' unfolding tail_def subset_bits
      by (auto simp: decides_def eff_mask_def match_special amask_mkAce)
    from move_everyone_granted [OF um' n _ _ _ r this] wf
    show ?thesis using granted_unmasked_eq [OF um' um] by simp
  qed
  then show ?thesis
    using um um' unfolding checkPermission_iff by (simp add: l)
qed

section \<open>Properties\<close>


definition everyone_first :: RichACL where
  "everyone_first = emptyACL\<lparr>ace_list :=
     [mkAce kAccessAllowedAceType kSpecialWho kReadData kEveryoneSpecialId,
      mkAce kAccessDeniedAceType 0 (kReadData OR kWriteData) 42,
      mkAce kAccessAllowedAceType kSpecialWho kWriteData kEveryoneSpecialId]\<rparr>"


text \<open>
  C24. An inheritable everyone entry loses its effect in \<open>applyMasks\<close>: the last branch of
  \<open>moveEveryoneAcesDown\<close> means to make the entry effective again but clears a bit of its mask instead
  of its inherit-only flag. Reading is granted by the masked list and refused afterwards.
\<close>

definition inheritable_everyone :: RichACL where
  "inheritable_everyone = \<lparr>owner_mask = kReadData, group_mask = kReadData, other_mask = kReadData,
     acl_flags = kMasked, ace_list =
       [mkAce kAccessAllowedAceType (kSpecialWho OR kFileInheritAce) kReadData kEveryoneSpecialId]\<rparr>"


text \<open>
  C25. \<open>equivMode\<close> accepts a masked list and answers a mode that lets the owner write, while the check
  refuses the owner who is also in the owning group: the group mask hides the group allow entry from
  the check but not the group deny entry behind it.
\<close>

definition masked_group_deny :: RichACL where
  "masked_group_deny = \<lparr>owner_mask = kWriteData OR kAppendData, group_mask = 0, other_mask = 0, acl_flags = kMasked, ace_list =
     [mkAce kAccessAllowedAceType kSpecialWho (kWriteData OR kAppendData) kGroupSpecialId,
      mkAce kAccessDeniedAceType kSpecialWho (kWriteData OR kAppendData) kGroupSpecialId,
      mkAce kAccessAllowedAceType kSpecialWho (kWriteData OR kAppendData) kOwnerSpecialId]\<rparr>"


end
