(* ===== verification/RichACL_String.thy ===== *)
theory RichACL_String
  imports RichACL
begin

text \<open>
  The text form of a RichACL (\<open>src/src/common/richacl_string.cc\<close>): \<open>toString\<close>, \<open>fromString\<close> and the
  tables of letters they share. Positions are indices into the string, as in the source; a thrown
  \<open>FormatException\<close> is the left value with its message. \<open>std::to_string\<close> and \<open>std::stoull\<close> are
  defined here as the C++ library specifies them.
\<close>

subsection \<open>Tables\<close>

definition kDefaulted :: "16 word" where [acl_consts]: "kDefaulted = 0x04"
definition kReadNamedAttrs :: "32 word" where [acl_consts]: "kReadNamedAttrs = 0x00000008"
definition kWriteNamedAttrs :: "32 word" where [acl_consts]: "kWriteNamedAttrs = 0x00000010"
definition kWriteRetention :: "32 word" where [acl_consts]: "kWriteRetention = 0x00000200"
definition kWriteRetentionHold :: "32 word" where [acl_consts]: "kWriteRetentionHold = 0x00000400"
definition kDelete :: "32 word" where [acl_consts]: "kDelete = 0x00010000"

definition kAclFlagBits :: "(char \<times> 16 word) list" where
  "kAclFlagBits = [(CHR ''m'', kMasked), (CHR ''w'', kWriteThrough), (CHR ''a'', kAutoInherit),
     (CHR ''p'', kProtected), (CHR ''d'', kDefaulted)]"

definition kTypeValues :: "(2 word \<times> string) list" where
  "kTypeValues = [(kAccessAllowedAceType, ''A''), (kAccessDeniedAceType, ''D'')]"

definition kAceFlagBits :: "(char \<times> 9 word) list" where
  "kAceFlagBits = [(CHR ''f'', kFileInheritAce), (CHR ''d'', kDirectoryInheritAce),
     (CHR ''n'', kNoPropagateInheritAce), (CHR ''i'', kInheritOnlyAce), (CHR ''a'', kInheritedAce),
     (CHR ''S'', kSpecialWho)]"

definition kMaskFlags :: "(char \<times> 32 word) list" where
  "kMaskFlags = [(CHR ''r'', kReadData), (CHR ''r'', kReadData), (CHR ''w'', kWriteData), (CHR ''w'', kWriteData),
     (CHR ''p'', kAppendData), (CHR ''p'', kAppendData), (CHR ''x'', kExecute), (CHR ''d'', kDeleteChild),
     (CHR ''D'', kDelete), (CHR ''a'', kReadAttributes), (CHR ''A'', kWriteAttributes),
     (CHR ''R'', kReadNamedAttrs), (CHR ''W'', kWriteNamedAttrs), (CHR ''c'', kReadAcl), (CHR ''C'', kWriteAcl),
     (CHR ''o'', kWriteOwner), (CHR ''S'', kSynchronize), (CHR ''e'', kWriteRetention),
     (CHR ''E'', kWriteRetentionHold)]"

subsection \<open>Numbers\<close>

definition digit_char :: "nat \<Rightarrow> char" where
  "digit_char d = char_of (48 + d)"

fun to_string :: "nat \<Rightarrow> string" where
  "to_string n = (if n < 10 then [digit_char n] else to_string (n div 10) @ [digit_char (n mod 10)])"

definition is_digit :: "char \<Rightarrow> bool" where
  "is_digit c \<longleftrightarrow> 48 \<le> (of_char c :: nat) \<and> of_char c \<le> (57 :: nat)"

definition is_space :: "char \<Rightarrow> bool" where
  "is_space c \<longleftrightarrow> of_char c = (32 :: nat) \<or> 9 \<le> (of_char c :: nat) \<and> of_char c \<le> (13 :: nat)"

definition digits_value :: "string \<Rightarrow> nat" where
  "digits_value ds = foldl (\<lambda>v c. 10 * v + (of_char c - 48)) 0 ds"

text \<open>\<open>std::stoull\<close> with base 10: \<open>None\<close> for \<open>invalid_argument\<close> and \<open>out_of_range\<close>.\<close>

definition stoull :: "string \<Rightarrow> nat option" where
  "stoull s =
     (let t = dropWhile is_space s;
          neg = (t \<noteq> [] \<and> hd t = CHR ''-'');
          u = (if t \<noteq> [] \<and> (hd t = CHR ''-'' \<or> hd t = CHR ''+'') then tl t else t);
          ds = takeWhile is_digit u
      in if ds = [] then None
         else if 2 ^ 64 \<le> digits_value ds then None
         else Some (if neg then (2 ^ 64 - digits_value ds) mod 2 ^ 64 else digits_value ds))"

subsection \<open>Writing\<close>

text \<open>The loop of \<open>writeACLFlags\<close>, \<open>writeAceFlags\<close> and \<open>writeMask\<close> over a table.\<close>

fun write_bits :: "(char \<times> 'a::len word) list \<Rightarrow> 'a word \<Rightarrow> string" where
  "write_bits [] w = []"
| "write_bits ((c, b) # tab) w = (if w AND b \<noteq> 0 then c # write_bits tab (w AND NOT b) else write_bits tab w)"

definition writeACLFlags :: "8 word \<Rightarrow> string" where
  "writeACLFlags flags = (if flags = 0 then [] else write_bits (map (apsnd ucast) kAclFlagBits) flags)"

definition writeType :: "2 word \<Rightarrow> string" where
  "writeType ty = (case map_of kTypeValues ty of Some name \<Rightarrow> name | None \<Rightarrow> [char_of (unat ty)])"

definition writeAceFlags :: "9 word \<Rightarrow> string" where
  "writeAceFlags flags = write_bits kAceFlagBits (flags AND NOT (kIdentifierGroup OR kSpecialWho))"

definition writeMask :: "32 word \<Rightarrow> string" where
  "writeMask m = write_bits kMaskFlags m"

definition writeIdentifier :: "Ace \<Rightarrow> string" where
  "writeIdentifier ace =
     (if ace_flags ace AND kSpecialWho \<noteq> 0 then
        (if ace_id ace = kOwnerSpecialId then ''O''
         else if ace_id ace = kGroupSpecialId then ''G''
         else if ace_id ace = kEveryoneSpecialId then ''E''
         else '''')
      else if ace_flags ace AND kIdentifierGroup \<noteq> 0 then CHR ''g'' # to_string (unat (ace_id ace))
      else CHR ''u'' # to_string (unat (ace_id ace)))"

definition aceToString :: "Ace \<Rightarrow> string" where
  "aceToString ace = writeMask (amask ace) @ '':'' @ writeAceFlags (ace_flags ace) @ '':'' @
     writeType (ace_type ace) @ '':'' @ writeIdentifier ace @ ''/''"

definition aclToString :: "RichACL \<Rightarrow> string" where
  "aclToString acl = writeACLFlags (ucast (acl_flags acl)) @ ''|'' @ writeMask (owner_mask acl) @ ''|'' @
     writeMask (group_mask acl) @ ''|'' @ writeMask (other_mask acl) @ ''|'' @
     concat (map aceToString (ace_list acl))"

subsection \<open>Reading\<close>

type_synonym 'a parsed = "string + 'a"

definition find_first_of :: "char \<Rightarrow> string \<Rightarrow> nat \<Rightarrow> nat option" where
  "find_first_of c str start =
     (if c \<in> set (drop start str) then Some (start + length (takeWhile (\<lambda>x. x \<noteq> c) (drop start str))) else None)"

definition substr :: "string \<Rightarrow> nat \<Rightarrow> nat \<Rightarrow> string" where
  "substr str start len = take len (drop start str)"

text \<open>
  \<open>getAclFlags\<close>, \<open>getAceMask\<close> and \<open>getAceFlags\<close> are the same two loops over three tables: the first
  walks the table once beside the string, the second looks the rest up letter by letter.
\<close>

fun sorted_bits :: "(char \<times> 'a::len word) list \<Rightarrow> string \<Rightarrow> nat \<Rightarrow> nat \<Rightarrow> 'a word \<Rightarrow> nat \<times> 'a word" where
  "sorted_bits [] str start delim flags = (start, flags)"
| "sorted_bits ((c, b) # tab) str start delim flags =
    (if str ! start = c then
       (if Suc start = delim then (Suc start, flags OR b)
        else sorted_bits tab str (Suc start) delim (flags OR b))
     else sorted_bits tab str start delim flags)"

fun unsorted_bits :: "string \<Rightarrow> (char \<times> 'a::len word) list \<Rightarrow> string \<Rightarrow> 'a word \<Rightarrow> 'a word parsed" where
  "unsorted_bits msg tab [] flags = Inr flags"
| "unsorted_bits msg tab (x # xs) flags =
    (case map_of tab x of None \<Rightarrow> Inl (msg @ [x]) | Some b \<Rightarrow> unsorted_bits msg tab xs (flags OR b))"

definition read_bits :: "string \<Rightarrow> (char \<times> 'a::len word) list \<Rightarrow> string \<Rightarrow> nat \<Rightarrow> nat \<Rightarrow> 'a word parsed" where
  "read_bits msg tab str start delim =
     (if start = delim then Inr 0
      else case sorted_bits tab str start delim 0 of
        (start', flags) \<Rightarrow> unsorted_bits msg tab (substr str start' (delim - start')) flags)"

definition getAclFlags :: "string \<Rightarrow> nat \<Rightarrow> nat \<Rightarrow> 16 word parsed" where
  "getAclFlags = read_bits ''Unsupported ace flag '' kAclFlagBits"

definition getAceMask :: "string \<Rightarrow> nat \<Rightarrow> nat \<Rightarrow> 32 word parsed" where
  "getAceMask = read_bits ''Unsupported ace mask '' kMaskFlags"

definition getAceFlags :: "string \<Rightarrow> nat \<Rightarrow> nat \<Rightarrow> 9 word parsed" where
  "getAceFlags = read_bits ''Unsupported ace flag '' kAceFlagBits"

definition getAceType :: "string \<Rightarrow> nat \<Rightarrow> 2 word parsed" where
  "getAceType str start =
     (if str ! start = CHR ''A'' then Inr kAccessAllowedAceType
      else if str ! start = CHR ''D'' then Inr kAccessDeniedAceType
      else Inl (''unsupported ace type '' @ substr str start 1))"

definition readId :: "string \<Rightarrow> 32 word" where
  "readId s = (case stoull s of Some v \<Rightarrow> of_nat v | None \<Rightarrow> - 1)"

definition setAceIdentifier :: "Ace \<Rightarrow> string \<Rightarrow> nat \<Rightarrow> nat \<Rightarrow> Ace parsed" where
  "setAceIdentifier ace str start delim =
     (if str ! start = CHR ''O'' then Inr (ace\<lparr>ace_id := kOwnerSpecialId, ace_flags := ace_flags ace OR kSpecialWho\<rparr>)
      else if str ! start = CHR ''G'' then Inr (ace\<lparr>ace_id := kGroupSpecialId, ace_flags := ace_flags ace OR kSpecialWho\<rparr>)
      else if str ! start = CHR ''E'' then Inr (ace\<lparr>ace_id := kEveryoneSpecialId, ace_flags := ace_flags ace OR kSpecialWho\<rparr>)
      else if str ! start = CHR ''u'' then Inr (ace\<lparr>ace_id := readId (substr str (Suc start) delim)\<rparr>)
      else if str ! start = CHR ''g'' then
        Inr (ace\<lparr>ace_id := readId (substr str (Suc start) delim), ace_flags := ace_flags ace OR kIdentifierGroup\<rparr>)
      else Inl (''unsupported ace identifier '' @ substr str start 1))"

text \<open>One field: find its delimiter, read it, and continue behind the delimiter.\<close>

definition field :: "char \<Rightarrow> string \<Rightarrow> (string \<Rightarrow> nat \<Rightarrow> nat \<Rightarrow> 'a parsed) \<Rightarrow> string \<Rightarrow> nat \<Rightarrow> ('a \<times> nat) parsed" where
  "field c msg get str start =
     (case find_first_of c str start of
        None \<Rightarrow> Inl msg
      | Some delim \<Rightarrow> (case get str start delim of Inl e \<Rightarrow> Inl e | Inr x \<Rightarrow> Inr (x, Suc delim)))"

definition read_ace :: "string \<Rightarrow> nat \<Rightarrow> (Ace \<times> nat) parsed" where
  "read_ace str start =
     (case field CHR '':'' ''string too short, cannot parse ace mask'' getAceMask str start of
        Inl e \<Rightarrow> Inl e
      | Inr (m, start1) \<Rightarrow>
     (case field CHR '':'' ''string too short, cannot parse ace flags'' getAceFlags str start1 of
        Inl e \<Rightarrow> Inl e
      | Inr (fl, start2) \<Rightarrow>
     (case field CHR '':'' ''string too short, cannot parse ace type'' (\<lambda>s b d. getAceType s b) str start2 of
        Inl e \<Rightarrow> Inl e
      | Inr (ty, start3) \<Rightarrow>
        field CHR ''/'' ''string too short, cannot parse ace id'' (setAceIdentifier (mkAce ty fl m 0)) str start3)))"

lemma field_advances: "field c msg get str start = Inr (x, start') \<Longrightarrow> start < start'"
  by (auto simp: field_def find_first_of_def split: option.splits sum.splits if_splits)

lemma read_ace_advances: "read_ace str start = Inr (ace, start') \<Longrightarrow> start < start'"
  by (auto simp: read_ace_def split: sum.splits prod.splits dest!: field_advances)

function read_aces :: "string \<Rightarrow> nat \<Rightarrow> RichACL \<Rightarrow> RichACL parsed" where
  "read_aces str start acl =
     (if start < length str then
        (case read_ace str start of Inl e \<Rightarrow> Inl e | Inr (ace, start') \<Rightarrow> read_aces str start' (insertAce ace acl))
      else Inr acl)"
  by pat_completeness auto
termination
  by (relation "measure (\<lambda>(str, start, acl). length str - start)") (auto dest: read_ace_advances)

definition fromString :: "string \<Rightarrow> RichACL parsed" where
  "fromString str =
     (case field CHR ''|'' ''string too short, cannot parse acl flags'' getAclFlags str 0 of
        Inl e \<Rightarrow> Inl e
      | Inr (fl, start1) \<Rightarrow>
     (case field CHR ''|'' ''string too short, cannot parse acl owner mask'' getAceMask str start1 of
        Inl e \<Rightarrow> Inl e
      | Inr (om, start2) \<Rightarrow>
     (case field CHR ''|'' ''string too short, cannot parse acl group mask'' getAceMask str start2 of
        Inl e \<Rightarrow> Inl e
      | Inr (gm, start3) \<Rightarrow>
     (case field CHR ''|'' ''string too short, cannot parse acl other mask'' getAceMask str start3 of
        Inl e \<Rightarrow> Inl e
      | Inr (em, start4) \<Rightarrow>
        read_aces str start4 (emptyACL\<lparr>acl_flags := fl, owner_mask := om, group_mask := gm, other_mask := em\<rparr>)))))"

subsection \<open>Letters and bits\<close>

definition table_mask :: "(char \<times> 'a::len word) list \<Rightarrow> 'a word" where
  "table_mask tab = foldr (\<lambda>(c, b) w. b OR w) tab 0"

text \<open>Each entry of a table is one bit, and a letter that occurs twice stands for the same bit.\<close>

fun bit_table :: "(char \<times> 'a::len word) list \<Rightarrow> bool" where
  "bit_table [] \<longleftrightarrow> True"
| "bit_table ((c, b) # tab) \<longleftrightarrow>
     (\<exists>k < LENGTH('a). b = 2 ^ k) \<and> list_all (\<lambda>(c', b'). c' = c \<longrightarrow> b' = b) tab \<and> bit_table tab"

lemma table_mask_simps [simp]: "table_mask [] = 0" "table_mask ((c, b) # tab) = b OR table_mask tab"
  by (simp_all add: table_mask_def)

lemma and_single: "k < LENGTH('a) \<Longrightarrow> w AND 2 ^ k \<noteq> 0 \<longleftrightarrow> bit w k" for w :: "'a::len word"
  by (simp add: and_exp_eq_0_iff_not_bit)

lemma bit_single: "bit ((2::'a::len word) ^ k) i \<longleftrightarrow> i = k \<and> k < LENGTH('a)"
  by (auto simp: bit_exp_iff)

lemma write_bits_letters: "x \<in> set (write_bits tab w) \<Longrightarrow> \<exists>b. (x, b) \<in> set tab \<and> w AND b \<noteq> 0"
proof (induction tab w rule: write_bits.induct)
  case (2 c b tab w)
  show ?case
  proof (cases "w AND b \<noteq> 0 \<and> x \<noteq> c")
    case True
    then obtain b' where b': "(x, b') \<in> set tab" "(w AND NOT b) AND b' \<noteq> 0" using 2 by auto
    then have "w AND b' \<noteq> 0" unfolding word_zero_bits bit_and_iff by blast
    with b' show ?thesis by auto
  qed (use 2 in \<open>auto split: if_splits\<close>)
qed simp

lemma write_bits_Nil: "write_bits tab w = [] \<Longrightarrow> w AND table_mask tab = 0"
proof (induction tab w rule: write_bits.induct)
  case (2 c b tab w)
  then have "w AND b = 0" "w AND table_mask tab = 0" by (auto split: if_splits)
  then show ?case by (simp add: bit.conj_disj_distrib)
qed simp

lemma sorted_bits_write:
  assumes "bit_table tab" "drop start str = write_bits tab w @ post" "write_bits tab w \<noteq> []"
    "delim = start + length (write_bits tab w)"
  shows "sorted_bits tab str start delim fl = (delim, fl OR (w AND table_mask tab))"
  using assms
proof (induction tab arbitrary: w start fl)
  case (Cons e tab)
  obtain c b where e: "e = (c, b)" by (cases e)
  from Cons.prems(1) obtain k where k: "k < LENGTH('a)" "b = 2 ^ k" by (auto simp: e)
  have hd: "str ! start = hd (write_bits (e # tab) w)"
    using Cons.prems(2,3) by (metis append_is_Nil_conv hd_append2 hd_drop_conv_nth drop_all not_le_imp_less)
  show ?case
  proof (cases "w AND b \<noteq> 0")
    case True
    then have bk: "bit w k" using k and_single by blast
    have or: "fl OR b OR (w AND NOT b AND table_mask tab) = fl OR (w AND (b OR table_mask tab))"
      by (rule bit_word_eqI) (use bk in \<open>auto simp: bit_or_iff bit_and_iff bit_not_iff k(2) bit_single\<close>)
    have dr: "drop (Suc start) str = write_bits tab (w AND NOT b) @ post"
      using Cons.prems(2) True by (simp add: e drop_Suc tl_drop [symmetric])
    show ?thesis
    proof (cases "write_bits tab (w AND NOT b) = []")
      case nil: True
      then have "fl OR b = fl OR (w AND (b OR table_mask tab))"
        using write_bits_Nil [OF nil] or by (simp add: and.assoc)
      then show ?thesis using True nil hd Cons.prems(4) by (simp add: e)
    next
      case False
      then show ?thesis
        using Cons.IH [OF _ dr False, of "fl OR b"] Cons.prems(1,4) True hd or
        by (simp add: e or.assoc and.assoc)
    qed
  next
    case False
    have "str ! start \<in> set (write_bits tab w)" using hd Cons.prems(3) False by (simp add: e)
    then have "str ! start \<noteq> c"
      using write_bits_letters [of "str ! start" tab w] Cons.prems(1) False by (auto simp: e list_all_iff)
    then show ?thesis
      using Cons.IH [of start w fl] Cons.prems False by (simp add: e bit.conj_disj_distrib)
  qed
qed simp

lemma read_bits_write:
  assumes "bit_table tab" "w AND table_mask tab = w"
  shows "read_bits msg tab (pre @ write_bits tab w @ post) (length pre) (length pre + length (write_bits tab w)) = Inr w"
proof (cases "write_bits tab w = []")
  case True
  then have "w = 0" using write_bits_Nil [OF True] assms(2) by simp
  then show ?thesis using True by (simp add: read_bits_def)
next
  case False
  then show ?thesis
    using sorted_bits_write [OF assms(1) _ False refl, of "length pre" "pre @ write_bits tab w @ post" post 0] assms(2)
    by (simp add: read_bits_def substr_def)
qed

lemma field_read:
  assumes "c \<notin> set s" "get (pre @ s @ c # post) (length pre) (length pre + length s) = Inr x"
  shows "field c msg get (pre @ s @ c # post) (length pre) = Inr (x, length (pre @ s @ [c]))"
proof -
  have "find_first_of c (pre @ s @ c # post) (length pre) = Some (length pre + length s)"
    using assms(1) by (simp add: find_first_of_def takeWhile_append)
  then show ?thesis using assms(2) by (simp add: field_def)
qed

lemma write_bits_ucast:
  fixes w :: "16 word"
  assumes "list_all (\<lambda>(c, b). \<exists>k < 8. b = 2 ^ k) tab"
  shows "write_bits (map (apsnd ucast) tab) (ucast w :: 8 word) = write_bits tab w"
  using assms
proof (induction tab arbitrary: w)
  case (Cons e tab)
  obtain c b where e: "e = (c, b)" by (cases e)
  from Cons.prems obtain k where k: "k < 8" "b = 2 ^ k" by (auto simp: e)
  have u: "(ucast b :: 8 word) = 2 ^ k" by (rule bit_word_eqI) (use k in \<open>auto simp: bit_ucast_iff bit_single\<close>)
  have z: "(ucast w AND (ucast b :: 8 word) \<noteq> 0) = (w AND b \<noteq> 0)"
    unfolding u using k(1) by (simp add: k(2) and_single bit_ucast_iff)
  have n: "(ucast w AND NOT (ucast b :: 8 word)) = ucast (w AND NOT b)"
    by (rule bit_word_eqI) (auto simp: bit_ucast_iff bit_and_iff bit_not_iff)
  show ?case using Cons.IH Cons.prems by (simp add: e z n)
qed simp

subsection \<open>Decimal numbers\<close>

lemma of_char_digit: "d < 10 \<Longrightarrow> (of_char (digit_char d) :: nat) = 48 + d"
  by (simp add: digit_char_def)

lemma digits_value_append: "digits_value (ds @ [c]) = 10 * digits_value ds + (of_char c - 48)"
  by (simp add: digits_value_def)

declare to_string.simps [simp del]

lemma to_string_props:
  "to_string n \<noteq> []" "\<forall>c \<in> set (to_string n). is_digit c" "digits_value (to_string n) = n"
proof -
  have "to_string n \<noteq> [] \<and> (\<forall>c \<in> set (to_string n). is_digit c) \<and> digits_value (to_string n) = n"
  proof (induction n rule: to_string.induct)
    case (1 n)
    show ?case
    proof (cases "n < 10")
      case True
      then show ?thesis
        by (subst (1 2 3) to_string.simps) (simp add: is_digit_def of_char_digit digits_value_def)
    next
      case False
      then show ?thesis
        using 1 [OF False] by (subst (1 2 3) to_string.simps) (simp add: is_digit_def of_char_digit digits_value_append)
    qed
  qed
  then show "to_string n \<noteq> []" "\<forall>c \<in> set (to_string n). is_digit c" "digits_value (to_string n) = n" by blast+
qed

lemma stoull_to_string:
  assumes "n < 2 ^ 64" "length (to_string n) \<le> m"
  shows "stoull (take m (to_string n @ CHR ''/'' # rest)) = Some n"
proof -
  let ?s = "take m (to_string n @ CHR ''/'' # rest)"
  have s: "?s = to_string n @ take (m - length (to_string n)) (CHR ''/'' # rest)"
    using assms(2) by simp
  have tw: "takeWhile is_digit ?s = to_string n"
    unfolding s using to_string_props(2) [of n]
    by (cases "m - length (to_string n)") (auto simp: takeWhile_append is_digit_def)
  have hd: "is_digit (hd ?s)" "?s \<noteq> []"
    unfolding s using to_string_props(1,2) [of n] by (auto simp: hd_append)
  have "\<not> is_space (hd ?s)" "hd ?s \<noteq> CHR ''-''" "hd ?s \<noteq> CHR ''+''"
    using hd(1) by (auto simp: is_digit_def is_space_def)
  then show ?thesis
    using hd(2) tw to_string_props(1,3) [of n] assms(1)
    by (cases ?s) (simp_all add: stoull_def Let_def)
qed

subsection \<open>Round trip\<close>

text \<open>
  What the text form can express: flags and masks made of the letters, allow and deny entries, and
  special identifiers that are the owner, the group or everyone and are not marked as a group.
\<close>

definition text_mask :: "32 word \<Rightarrow> bool" where
  "text_mask m \<longleftrightarrow> m AND table_mask kMaskFlags = m"

definition text_ace :: "Ace \<Rightarrow> bool" where
  "text_ace a \<longleftrightarrow> text_mask (amask a) \<and> (isAllow a \<or> isDeny a) \<and>
     ace_flags a AND (kInheritanceFlags OR kSpecialWho OR kIdentifierGroup) = ace_flags a \<and>
     (ace_flags a AND kSpecialWho \<noteq> 0 \<longrightarrow> ace_flags a AND kIdentifierGroup = 0 \<and>
        ace_id a \<in> {kOwnerSpecialId, kGroupSpecialId, kEveryoneSpecialId})"

definition text_acl :: "RichACL \<Rightarrow> bool" where
  "text_acl acl \<longleftrightarrow> acl_flags acl AND table_mask kAclFlagBits = acl_flags acl \<and> text_mask (owner_mask acl) \<and>
     text_mask (group_mask acl) \<and> text_mask (other_mask acl) \<and> list_all text_ace (ace_list acl)"

lemma bit_table_kAclFlagBits:
  "bit_table kAclFlagBits" "list_all (\<lambda>(c, b). \<exists>k < 8. b = 2 ^ k) kAclFlagBits"
proof -
  have "\<exists>k < n. (2 ^ j :: 16 word) = 2 ^ k" if "j < n" for j n using that by blast
  from this [of 7] this [of 6] this [of 0] this [of 1] this [of 2]
  show "bit_table kAclFlagBits" "list_all (\<lambda>(c, b). \<exists>k < 8. b = 2 ^ k) kAclFlagBits"
    by (simp_all add: kAclFlagBits_def acl_consts)
qed

lemma bit_table_kAceFlagBits: "bit_table kAceFlagBits"
proof -
  have "\<exists>k < 9. (2 ^ j :: 9 word) = 2 ^ k" if "j < 9" for j using that by blast
  from this [of 0] this [of 1] this [of 2] this [of 3] this [of 7] this [of 8]
  show ?thesis by (simp add: kAceFlagBits_def acl_consts)
qed

lemma bit_table_kMaskFlags: "bit_table kMaskFlags"
proof -
  have "\<exists>k < 32. (2 ^ j :: 32 word) = 2 ^ k" if "j < 32" for j using that by blast
  from this [of 0] this [of 1] this [of 2] this [of 3] this [of 4] this [of 5] this [of 6] this [of 7] this [of 8]
    this [of 9] this [of 10] this [of 16] this [of 17] this [of 18] this [of 19] this [of 20]
  show ?thesis by (simp add: kMaskFlags_def acl_consts)
qed

lemma write_letters: "c \<notin> fst ` set tab \<Longrightarrow> c \<notin> set (write_bits tab w)"
  using write_bits_letters [of c tab w] by (metis fst_conv imageI)

lemma no_delimiters:
  "CHR '':'' \<notin> set (writeMask m)" "CHR ''|'' \<notin> set (writeMask m)" "CHR '':'' \<notin> set (writeAceFlags f)"
  "CHR ''|'' \<notin> set (write_bits kAclFlagBits w)"
  unfolding writeMask_def writeAceFlags_def
  by (rule write_letters, simp add: kMaskFlags_def kAceFlagBits_def kAclFlagBits_def)+

lemma read_mask:
  assumes "text_mask m" "c = CHR '':'' \<or> c = CHR ''|''"
  shows "field c msg getAceMask (pre @ writeMask m @ c # post) (length pre) = Inr (m, length (pre @ writeMask m @ [c]))"
proof (rule field_read)
  show "c \<notin> set (writeMask m)" using assms(2) no_delimiters(1,2) [of m] by auto
  show "getAceMask (pre @ writeMask m @ c # post) (length pre) (length pre + length (writeMask m)) = Inr m"
    unfolding getAceMask_def writeMask_def
    by (rule read_bits_write [OF bit_table_kMaskFlags assms(1) [unfolded text_mask_def]])
qed

lemma write_bits_zero: "write_bits tab 0 = []"
  by (induction tab) auto

lemma read_acl_flags:
  assumes "fl AND table_mask kAclFlagBits = fl"
  shows "field CHR ''|'' msg getAclFlags (writeACLFlags (ucast fl) @ CHR ''|'' # post) 0 =
    Inr (fl, length (writeACLFlags (ucast fl) @ ''|''))"
proof -
  have w: "writeACLFlags (ucast fl) = write_bits kAclFlagBits fl"
    using write_bits_ucast [OF bit_table_kAclFlagBits(2), of fl] by (auto simp: writeACLFlags_def write_bits_zero)
  show ?thesis
    using field_read [of "CHR ''|''" "write_bits kAclFlagBits fl" getAclFlags "[]" post fl msg] no_delimiters(4) [of fl]
      read_bits_write [OF bit_table_kAclFlagBits(1) assms, of _ "[]"]
    by (simp add: w getAclFlags_def)
qed

text \<open>The flags of an entry without its identifier, and the identifier.\<close>

lemma read_ace_flags:
  assumes "text_ace a"
  shows "field CHR '':'' msg getAceFlags (pre @ writeAceFlags (ace_flags a) @ CHR '':'' # post) (length pre) =
    Inr (ace_flags a AND NOT (kIdentifierGroup OR kSpecialWho), length (pre @ writeAceFlags (ace_flags a) @ '':''))"
proof -
  have t: "table_mask kAceFlagBits = kInheritanceFlags OR kSpecialWho"
    by (simp add: kAceFlagBits_def acl_consts)
  have "ace_flags a AND (kInheritanceFlags OR kSpecialWho OR kIdentifierGroup) = ace_flags a"
    using assms by (simp add: text_ace_def)
  from arg_cong [OF this, of bit]
  have s: "bit (ace_flags a) n \<longrightarrow> bit kInheritanceFlags n \<or> bit kSpecialWho n \<or> bit kIdentifierGroup n" for n
    unfolding fun_eq_iff bit_and_iff bit_or_iff by blast
  have "(ace_flags a AND NOT (kIdentifierGroup OR kSpecialWho)) AND table_mask kAceFlagBits =
      ace_flags a AND NOT (kIdentifierGroup OR kSpecialWho)"
    unfolding t by (rule bit_word_eqI) (use s in \<open>auto simp only: bit_and_iff [of "_ AND _"] bit_andnot bit_or_iff\<close>)
  from read_bits_write [OF bit_table_kAceFlagBits this]
  show ?thesis
    using no_delimiters(3) by (intro field_read) (auto simp: getAceFlags_def writeAceFlags_def)
qed

lemma read_ace_type:
  assumes "isAllow a \<or> isDeny a"
  shows "field CHR '':'' msg (\<lambda>s b d. getAceType s b) (pre @ writeType (ace_type a) @ CHR '':'' # post) (length pre) =
    Inr (ace_type a, length (pre @ writeType (ace_type a) @ '':''))"
proof -
  have "writeType (ace_type a) = (if isAllow a then ''A'' else ''D'')"
    using assms by (auto simp: writeType_def kTypeValues_def isAllow_def isDeny_def kAccessAllowedAceType_def kAccessDeniedAceType_def)
  then show ?thesis
    using assms by (intro field_read)
      (auto simp: getAceType_def nth_append isAllow_def isDeny_def kAccessAllowedAceType_def kAccessDeniedAceType_def)
qed

lemma read_identifier:
  assumes "text_ace a"
  shows "field CHR ''/'' msg (setAceIdentifier (mkAce (ace_type a) (ace_flags a AND NOT (kIdentifierGroup OR kSpecialWho)) (amask a) 0))
      (pre @ writeIdentifier a @ CHR ''/'' # post) (length pre) = Inr (a, length (pre @ writeIdentifier a @ ''/''))"
proof -
  let ?f = "ace_flags a" and ?g = "ace_flags a AND NOT (kIdentifierGroup OR kSpecialWho)"
  have m: "(ucast (amask a) :: 21 word) = ace_mask a"
    by (rule bit_word_eqI) (auto simp: amask_def bit_ucast_iff)
  have spec: "bit ?f 8 \<Longrightarrow> \<not> bit ?f 6 \<and> ace_id a \<in> {kOwnerSpecialId, kGroupSpecialId, kEveryoneSpecialId}"
    using assms ace_flag_bits(1,2) [of ?f] by (auto simp: text_ace_def)
  have bk: "bit kIdentifierGroup n \<longleftrightarrow> n = 6" "bit kSpecialWho n \<longleftrightarrow> n = 8" for n
    using bit_single [of 6 n, where 'a = 9] bit_single [of 8 n, where 'a = 9]
    by (simp_all add: kIdentifierGroup_def kSpecialWho_def)
  have bg: "bit ?g n \<longleftrightarrow> bit ?f n \<and> n \<noteq> 6 \<and> n \<noteq> 8" for n
    by (simp only: bit_andnot bit_or_iff bk de_Morgan_disj)
  have g: "?g OR kSpecialWho = ?f" if "bit ?f 8"
    by (rule bit_word_eqI) (simp only: bit_or_iff [of _ kSpecialWho] bg bk, use that spec in blast)
  have g2: "?g OR kIdentifierGroup = ?f" if "\<not> bit ?f 8" "bit ?f 6"
    by (rule bit_word_eqI) (simp only: bit_or_iff [of _ kIdentifierGroup] bg bk, use that in blast)
  have g3: "?g = ?f" if "\<not> bit ?f 8" "\<not> bit ?f 6"
    by (rule bit_word_eqI) (simp only: bg, use that in blast)
  have num: "CHR ''/'' \<notin> set (to_string n)" for n
    using to_string_props(2) [of n] by (auto simp: is_digit_def)
  have rd: "readId (take (length pre + Suc (length (to_string (unat (ace_id a))))) (to_string (unat (ace_id a)) @ CHR ''/'' # post)) = ace_id a"
  proof -
    have "unat (ace_id a) < 2 ^ 32" using unsigned_less [of "ace_id a", where ?'a = nat] by simp
    then have "unat (ace_id a) < 2 ^ 64" by simp
    from stoull_to_string [OF this, of "length pre + Suc (length (to_string (unat (ace_id a))))" post]
    show ?thesis by (simp add: readId_def)
  qed
  show ?thesis
  proof (rule field_read)
    show "CHR ''/'' \<notin> set (writeIdentifier a)" using num by (auto simp: writeIdentifier_def)
    show "setAceIdentifier (mkAce (ace_type a) ?g (amask a) 0) (pre @ writeIdentifier a @ CHR ''/'' # post) (length pre)
        (length pre + length (writeIdentifier a)) = Inr a"
    proof (cases "bit ?f 8")
      case True
      then show ?thesis
        using spec [OF True] g [OF True] ace_flag_bits(1) [of ?f]
        by (auto simp: writeIdentifier_def setAceIdentifier_def mkAce_def m nth_append
            kOwnerSpecialId_def kGroupSpecialId_def kEveryoneSpecialId_def)
    next
      case False
      then show ?thesis
        using g2 g3 rd ace_flag_bits(1,2) [of ?f]
        by (cases "bit ?f 6") (auto simp: writeIdentifier_def setAceIdentifier_def substr_def mkAce_def m nth_append)
    qed
  qed
qed

lemma read_ace_write:
  assumes "text_ace a"
  shows "read_ace (pre @ aceToString a @ post) (length pre) = Inr (a, length (pre @ aceToString a))"
proof -
  let ?m = "writeMask (amask a)" and ?f = "writeAceFlags (ace_flags a)" and ?t = "writeType (ace_type a)" and ?i = "writeIdentifier a"
  have s: "pre @ aceToString a @ post = pre @ ?m @ CHR '':'' # ?f @ '':'' @ ?t @ '':'' @ ?i @ ''/'' @ post"
    by (simp add: aceToString_def)
  note f1 = read_mask [of "amask a" "CHR '':''" _ pre "?f @ '':'' @ ?t @ '':'' @ ?i @ ''/'' @ post"]
  note f2 = read_ace_flags [OF assms, of _ "pre @ ?m @ '':''" "?t @ '':'' @ ?i @ ''/'' @ post"]
  note f3 = read_ace_type [of a _ "pre @ ?m @ '':'' @ ?f @ '':''" "?i @ ''/'' @ post"]
  note f4 = read_identifier [OF assms, of _ "pre @ ?m @ '':'' @ ?f @ '':'' @ ?t @ '':''" post]
  show ?thesis
    unfolding read_ace_def using f1 f2 f3 f4 assms by (simp add: aceToString_def text_ace_def)
qed

declare read_aces.simps [simp del]

lemma aceToString_ne: "aceToString a \<noteq> []"
  by (simp add: aceToString_def)

lemma read_aces_write:
  assumes "list_all text_ace aces"
  shows "read_aces (pre @ concat (map aceToString aces)) (length pre) acl = Inr (acl\<lparr>ace_list := ace_list acl @ aces\<rparr>)"
  using assms
proof (induction aces arbitrary: pre acl)
  case Nil
  then show ?case by (simp add: read_aces.simps)
next
  case (Cons a aces)
  have r: "read_ace (pre @ concat (map aceToString (a # aces))) (length pre) = Inr (a, length (pre @ aceToString a))"
    using read_ace_write [of a pre "concat (map aceToString aces)"] Cons.prems by simp
  show ?case
    using Cons.IH [of "pre @ aceToString a" "insertAce a acl"] Cons.prems r aceToString_ne [of a]
    by (subst read_aces.simps) (simp add: insertAce_def)
qed

lemma fromString_aclToString:
  assumes "text_acl acl"
  shows "fromString (aclToString acl) = Inr acl"
proof -
  let ?f = "writeACLFlags (ucast (acl_flags acl))" and ?o = "writeMask (owner_mask acl)" and ?g = "writeMask (group_mask acl)"
    and ?e = "writeMask (other_mask acl)" and ?l = "concat (map aceToString (ace_list acl))"
  have w: "acl_flags acl AND table_mask kAclFlagBits = acl_flags acl" "text_mask (owner_mask acl)"
    "text_mask (group_mask acl)" "text_mask (other_mask acl)" "list_all text_ace (ace_list acl)"
    using assms by (simp_all add: text_acl_def)
  note f1 = read_acl_flags [OF w(1), of _ "?o @ ''|'' @ ?g @ ''|'' @ ?e @ ''|'' @ ?l"]
  note f2 = read_mask [OF w(2), of "CHR ''|''" _ "?f @ ''|''" "?g @ ''|'' @ ?e @ ''|'' @ ?l"]
  note f3 = read_mask [OF w(3), of "CHR ''|''" _ "?f @ ''|'' @ ?o @ ''|''" "?e @ ''|'' @ ?l"]
  note f4 = read_mask [OF w(4), of "CHR ''|''" _ "?f @ ''|'' @ ?o @ ''|'' @ ?g @ ''|''" ?l]
  note f5 = read_aces_write [OF w(5), of "?f @ ''|'' @ ?o @ ''|'' @ ?g @ ''|'' @ ?e @ ''|''"]
  show ?thesis
    unfolding fromString_def aclToString_def using f1 f2 f3 f4 f5 by (simp add: emptyACL_def)
qed

section \<open>Properties\<close>

text \<open>
  C27. Printing a list and reading the text back gives the same list, for every list whose flags and
  masks have letters, whose entries allow or deny, and whose special identifiers are the three known
  ones. Reading never fails on such a text.
\<close>

theorem toString_fromString_roundtrip:
  assumes "text_acl acl"
  shows "fromString (aclToString acl) = Inr acl"
  using assms by (rule fromString_aclToString)

definition text_example :: RichACL where
  "text_example = \<lparr>owner_mask = kReadData OR kWriteData, group_mask = kReadData, other_mask = 0, acl_flags = kMasked OR kAutoInherit,
     ace_list = [mkAce kAccessDeniedAceType 0 kReadData 1000,
                 mkAce kAccessAllowedAceType (kIdentifierGroup OR kFileInheritAce) (kWriteData OR kExecute) 1000,
                 mkAce kAccessAllowedAceType kSpecialWho (kReadData OR kWriteAcl) kEveryoneSpecialId]\<rparr>"

theorem toString_fromString_roundtrip_witness:
  "fromString (aclToString text_example) = Inr text_example \<and>
   aclToString text_example = ''ma|rw|r||r::D:u1000/wx:f:A:g1000/rC::A:E/''"
proof -
  have "text_acl text_example" by code_simp
  from toString_fromString_roundtrip [OF this] show ?thesis by (rule conjI) code_simp
qed

text \<open>The text form has no letter for \<open>kAutoSetMode\<close>.\<close>

lemma toString_drops_auto_set_mode:
  "fromString (aclToString (emptyACL\<lparr>acl_flags := kAutoSetMode\<rparr>)) = Inr emptyACL"
  by code_simp

end
