(* ===== verification/PosixACL.thy ===== *)
theory PosixACL
  imports RichACL_String
begin

text \<open>
  POSIX access control lists (\<open>src/src/common/access_control_list.h\<close>, \<open>access_control_list.cc\<close>): the
  entries of named users and groups in a \<open>flat_set\<close>, which is a sorted list, the rights of owner,
  group, other and mask in four nibbles of \<open>basic_permissions_\<close>, and the text form.
\<close>

datatype acl_type = kNamedUser | kNamedGroup | kUser | kGroup | kOther | kMask | kInvalid

record Entry =
  entry_id :: "32 word"
  entry_type :: acl_type
  access_rights :: "4 word"

record AccessControlList =
  acl_entries :: "Entry list"
  basic_permissions :: "16 word"

definition mkEntry :: "acl_type \<Rightarrow> 32 word \<Rightarrow> 4 word \<Rightarrow> Entry" where
  "mkEntry ty i r = \<lparr>entry_id = i, entry_type = ty, access_rights = r\<rparr>"

definition type_index :: "acl_type \<Rightarrow> nat" where
  "type_index ty = (case ty of kNamedUser \<Rightarrow> 0 | kNamedGroup \<Rightarrow> 1 | kUser \<Rightarrow> 2 | kGroup \<Rightarrow> 3 | kOther \<Rightarrow> 4
     | kMask \<Rightarrow> 5 | kInvalid \<Rightarrow> 6)"

text \<open>\<open>operator<\<close>: lexicographic on type, id and rights.\<close>

definition entry_less :: "Entry \<Rightarrow> Entry \<Rightarrow> bool" where
  "entry_less a b \<longleftrightarrow>
     type_index (entry_type a) < type_index (entry_type b) \<or>
     entry_type a = entry_type b \<and>
       (entry_id a < entry_id b \<or> entry_id a = entry_id b \<and> access_rights a < access_rights b)"

definition emptyPosixACL :: AccessControlList where
  "emptyPosixACL = \<lparr>acl_entries = [], basic_permissions = 0xF000\<rparr>"

definition kMaskUnset :: "4 word" where "kMaskUnset = 0xF"

definition getOwnerRights :: "AccessControlList \<Rightarrow> 4 word" where
  "getOwnerRights acl = ucast (drop_bit 8 (basic_permissions acl))"

definition getGroupRights :: "AccessControlList \<Rightarrow> 4 word" where
  "getGroupRights acl = ucast (drop_bit 4 (basic_permissions acl))"

definition getOtherRights :: "AccessControlList \<Rightarrow> 4 word" where
  "getOtherRights acl = ucast (basic_permissions acl)"

definition getMaskRights :: "AccessControlList \<Rightarrow> 4 word" where
  "getMaskRights acl = ucast (drop_bit 12 (basic_permissions acl))"

definition setOwnerRights :: "4 word \<Rightarrow> AccessControlList \<Rightarrow> AccessControlList" where
  "setOwnerRights v acl = acl\<lparr>basic_permissions := (basic_permissions acl AND 0xF0FF) OR push_bit 8 (ucast v)\<rparr>"

definition setGroupRights :: "4 word \<Rightarrow> AccessControlList \<Rightarrow> AccessControlList" where
  "setGroupRights v acl = acl\<lparr>basic_permissions := (basic_permissions acl AND 0xFF0F) OR push_bit 4 (ucast v)\<rparr>"

definition setOtherRights :: "4 word \<Rightarrow> AccessControlList \<Rightarrow> AccessControlList" where
  "setOtherRights v acl = acl\<lparr>basic_permissions := (basic_permissions acl AND 0xFFF0) OR ucast v\<rparr>"

definition setMaskRights :: "4 word \<Rightarrow> AccessControlList \<Rightarrow> AccessControlList" where
  "setMaskRights v acl = acl\<lparr>basic_permissions := (basic_permissions acl AND 0x0FFF) OR push_bit 12 (ucast v)\<rparr>"

definition posixGetMode :: "AccessControlList \<Rightarrow> 16 word" where
  "posixGetMode acl =
     (if getMaskRights acl \<noteq> kMaskUnset then
        (ucast (getOtherRights acl) AND 7) OR push_bit 3 (ucast (getMaskRights acl) AND 7) OR
        push_bit 6 (ucast (getOwnerRights acl) AND 7)
      else
        (ucast (getOtherRights acl) AND 7) OR push_bit 3 (ucast (getGroupRights acl) AND 7) OR
        push_bit 6 (ucast (getOwnerRights acl) AND 7))"

definition posixSetMode :: "16 word \<Rightarrow> AccessControlList \<Rightarrow> AccessControlList" where
  "posixSetMode mode acl =
     (let acl1 = setOtherRights (ucast (mode AND 7)) acl;
          acl2 = setOwnerRights (ucast (drop_bit 6 mode AND 7)) acl1
      in if getMaskRights acl2 = kMaskUnset then setGroupRights (ucast (drop_bit 3 mode AND 7)) acl2
         else setMaskRights (ucast (drop_bit 3 mode AND 7)) acl2)"

text \<open>\<open>lower_bound(Entry(type, id, 0))\<close>: the entries before it, and the rest.\<close>

definition lower_bound :: "acl_type \<Rightarrow> 32 word \<Rightarrow> Entry list \<Rightarrow> Entry list \<times> Entry list" where
  "lower_bound ty i es = (let before = (\<lambda>e. entry_less e (mkEntry ty i 0)) in (takeWhile before es, dropWhile before es))"

text \<open>\<open>list_.max_size()\<close>: the size of a \<open>compact_vector\<close> with 16-bit sizes.\<close>

definition max_entries :: nat where "max_entries = 65535"

text \<open>\<open>flat_set::insert\<close>: at the lower bound of the new entry, unless an equal entry is there.\<close>

definition flat_insert :: "Entry \<Rightarrow> Entry list \<Rightarrow> Entry list" where
  "flat_insert e es =
     (let before = (\<lambda>x. entry_less x e); rest = dropWhile before es
      in if rest \<noteq> [] \<and> \<not> entry_less e (hd rest) then es else takeWhile before es @ e # rest)"

definition setNamed :: "acl_type \<Rightarrow> 32 word \<Rightarrow> 4 word \<Rightarrow> Entry list \<Rightarrow> Entry list" where
  "setNamed ty i r es =
     (case lower_bound ty i es of
        (pre, e # post) \<Rightarrow>
          if entry_type e = ty \<and> entry_id e = i then pre @ e\<lparr>access_rights := r\<rparr> # post
          else if length es < max_entries then flat_insert (mkEntry ty i r) es else es
      | (pre, []) \<Rightarrow> if length es < max_entries then flat_insert (mkEntry ty i r) es else es)"

definition setEntry :: "acl_type \<Rightarrow> 32 word \<Rightarrow> 4 word \<Rightarrow> AccessControlList \<Rightarrow> AccessControlList" where
  "setEntry ty i r acl =
     (case ty of
        kNamedUser \<Rightarrow> acl\<lparr>acl_entries := setNamed ty i r (acl_entries acl)\<rparr>
      | kNamedGroup \<Rightarrow> acl\<lparr>acl_entries := setNamed ty i r (acl_entries acl)\<rparr>
      | kUser \<Rightarrow> setOwnerRights r acl
      | kGroup \<Rightarrow> setGroupRights r acl
      | kOther \<Rightarrow> setOtherRights r acl
      | kMask \<Rightarrow> setMaskRights r acl
      | kInvalid \<Rightarrow> acl)"

definition removeNamed :: "acl_type \<Rightarrow> 32 word \<Rightarrow> Entry list \<Rightarrow> Entry list" where
  "removeNamed ty i es =
     (case lower_bound ty i es of
        (pre, e # post) \<Rightarrow> if entry_type e = ty \<and> entry_id e = i then pre @ post else es
      | (pre, []) \<Rightarrow> es)"

definition removeEntry :: "acl_type \<Rightarrow> 32 word \<Rightarrow> AccessControlList \<Rightarrow> AccessControlList" where
  "removeEntry ty i acl =
     (case ty of
        kNamedUser \<Rightarrow> acl\<lparr>acl_entries := removeNamed ty i (acl_entries acl)\<rparr>
      | kNamedGroup \<Rightarrow> acl\<lparr>acl_entries := removeNamed ty i (acl_entries acl)\<rparr>
      | kUser \<Rightarrow> setOwnerRights 0 acl
      | kGroup \<Rightarrow> setGroupRights 0 acl
      | kOther \<Rightarrow> setOtherRights 0 acl
      | kMask \<Rightarrow> setMaskRights 0xF acl
      | kInvalid \<Rightarrow> acl)"

definition invalidEntry :: Entry where
  "invalidEntry = mkEntry kInvalid 0xFFFFFFFF 0"

definition getNamed :: "acl_type \<Rightarrow> 32 word \<Rightarrow> Entry list \<Rightarrow> Entry" where
  "getNamed ty i es =
     (case lower_bound ty i es of
        (pre, e # post) \<Rightarrow> if entry_type e = ty \<and> entry_id e = i then e else invalidEntry
      | (pre, []) \<Rightarrow> invalidEntry)"

definition getEntry :: "acl_type \<Rightarrow> 32 word \<Rightarrow> AccessControlList \<Rightarrow> Entry" where
  "getEntry ty i acl =
     (case ty of
        kNamedUser \<Rightarrow> getNamed ty i (acl_entries acl)
      | kNamedGroup \<Rightarrow> getNamed ty i (acl_entries acl)
      | kUser \<Rightarrow> mkEntry kUser 0xFFFFFFFF (getOwnerRights acl)
      | kGroup \<Rightarrow> mkEntry kGroup 0xFFFFFFFF (getGroupRights acl)
      | kOther \<Rightarrow> mkEntry kOther 0xFFFFFFFF (getOtherRights acl)
      | kMask \<Rightarrow> if getMaskRights acl \<noteq> kMaskUnset then mkEntry kMask 0xFFFFFFFF (getMaskRights acl) else invalidEntry
      | kInvalid \<Rightarrow> invalidEntry)"

definition minimalAcl :: "AccessControlList \<Rightarrow> bool" where
  "minimalAcl acl \<longleftrightarrow> getMaskRights acl = kMaskUnset \<and> acl_entries acl = []"

definition applyMask :: "AccessControlList \<Rightarrow> 4 word \<Rightarrow> 4 word" where
  "applyMask acl r = (if getMaskRights acl \<noteq> kMaskUnset then r AND getMaskRights acl else r)"

text \<open>The loop over the groups of the user in \<open>getEffectiveRights\<close>.\<close>

fun group_rights :: "AccessControlList \<Rightarrow> 32 word list \<Rightarrow> 4 word \<Rightarrow> bool \<Rightarrow> 4 word \<times> bool" where
  "group_rights acl [] r found = (r, found)"
| "group_rights acl (i # is) r found =
    (let e = getEntry kNamedGroup i acl
     in if entry_type e \<noteq> kInvalid then group_rights acl is (r OR access_rights e) True
        else group_rights acl is r found)"

definition getEffectiveRights ::
  "AccessControlList \<Rightarrow> 32 word \<Rightarrow> 32 word \<Rightarrow> 32 word \<Rightarrow> 32 word list \<Rightarrow> 4 word" where
  "getEffectiveRights acl owner_uid owner_gid uid groups =
     (if uid = owner_uid then access_rights (getEntry kUser 0 acl)
      else
        (let user_entry = getEntry kNamedUser uid acl in
         if entry_type user_entry \<noteq> kInvalid then applyMask acl (access_rights user_entry)
         else
           (let own = owner_gid \<in> set groups;
                r0 = (if own then access_rights (getEntry kGroup 0 acl) else 0)
            in case group_rights acl groups r0 own of
              (r, found) \<Rightarrow> if found then applyMask acl r else access_rights (getEntry kOther 0 acl))))"

subsection \<open>Text form\<close>

text \<open>
  \<open>fromString\<close> reads a C string through a pointer: here the rest of the string, whose end is the
  terminating zero. The left value is the message of the thrown exception.
\<close>

definition accessMaskToChar :: "4 word \<Rightarrow> char" where
  "accessMaskToChar m = (if 7 < m then CHR ''?'' else digit_char (unat m))"

definition char_at :: "string \<Rightarrow> char" where
  "char_at s = (case s of [] \<Rightarrow> char_of (0 :: nat) | c # _ \<Rightarrow> c)"

definition accessMaskFromChar :: "char \<Rightarrow> 4 word parsed" where
  "accessMaskFromChar c =
     (if 48 \<le> (of_char c :: nat) \<and> of_char c \<le> (55 :: nat) then Inr (of_nat (of_char c - 48))
      else Inl (''wrong mask '' @ [c]))"

definition entryTypeFromChar :: "char \<Rightarrow> acl_type" where
  "entryTypeFromChar c =
     (if c = CHR ''u'' then kNamedUser else if c = CHR ''g'' then kNamedGroup
      else if c = CHR ''m'' then kMask else kInvalid)"

definition eat :: "string \<Rightarrow> string \<Rightarrow> string parsed" where
  "eat prefix s = (if take (length prefix) s = prefix then Inr (drop (length prefix) s)
     else Inl (''Expected prefix '' @ prefix @ '' in string '' @ s))"

text \<open>\<open>strtol\<close> with base 10 and a 64-bit \<open>long\<close>: the value and the rest; no digits, no conversion.\<close>

definition strtol :: "string \<Rightarrow> (int \<times> string) option" where
  "strtol s =
     (let t = dropWhile is_space s;
          neg = (t \<noteq> [] \<and> hd t = CHR ''-'');
          u = (if t \<noteq> [] \<and> (hd t = CHR ''-'' \<or> hd t = CHR ''+'') then tl t else t);
          ds = takeWhile is_digit u;
          v = int (digits_value ds)
      in if ds = [] then None
         else Some (if neg then max (- v) (- (2 ^ 63)) else min v (2 ^ 63 - 1), dropWhile is_digit u))"

definition read_id :: "string \<Rightarrow> string \<Rightarrow> (32 word \<times> string) parsed" where
  "read_id str s =
     (if char_at s = CHR '':'' then Inr (0xFFFFFFFF, s)
      else case strtol s of
        None \<Rightarrow> Inl (''ACL string '' @ str @ '': unknown id'')
      | Some (v, s') \<Rightarrow> Inr (of_int v, s'))"

definition read_entry :: "string \<Rightarrow> string \<Rightarrow> AccessControlList \<Rightarrow> (AccessControlList \<times> string) parsed" where
  "read_entry str s acl =
     (case eat ''/'' s of Inl e \<Rightarrow> Inl e | Inr s1 \<Rightarrow>
     (let ty = (if s1 \<noteq> [] then entryTypeFromChar (hd s1) else kInvalid); s2 = tl s1 in
     (case eat '':'' s2 of Inl e \<Rightarrow> Inl e | Inr s3 \<Rightarrow>
     (case read_id str s3 of Inl e \<Rightarrow> Inl e | Inr (i, s4) \<Rightarrow>
     (case eat '':'' s4 of Inl e \<Rightarrow> Inl e | Inr s5 \<Rightarrow>
     (case accessMaskFromChar (char_at s5) of Inl e \<Rightarrow> Inl e | Inr m \<Rightarrow>
        if ty = kInvalid then Inl (''ACL string '' @ str @ '': unknown entry type'')
        else if entry_type (getEntry ty i acl) \<noteq> kInvalid then Inl (''ACL string '' @ str @ '': repeated entry'')
        else if i = 0xFFFFFFFF \<and> (ty = kNamedUser \<or> ty = kNamedGroup)
        then Inl (''ACL string '' @ str @ '': missing id for entry'')
        else Inr (setEntry ty i m acl, tl s5)))))))"

lemma eat_length:
  assumes "eat p s = Inr s'" shows "length s = length p + length s'"
proof -
  have "take (length p) s = p" "s' = drop (length p) s" using assms by (auto simp: eat_def split: if_splits)
  then show ?thesis by (metis append_take_drop_id length_append)
qed

lemma strtol_length:
  assumes "strtol s = Some (v, s')" shows "length s' \<le> length s"
proof -
  let ?t = "dropWhile is_space s"
  have "s' = dropWhile is_digit ?t \<or> s' = dropWhile is_digit (tl ?t)"
    using assms by (auto simp: strtol_def Let_def split: if_splits)
  then have "length s' \<le> length ?t"
    using length_dropWhile_le [of is_digit ?t] length_dropWhile_le [of is_digit "tl ?t"] by auto
  then show ?thesis using length_dropWhile_le [of is_space s] by linarith
qed

lemma read_id_length: "read_id str s = Inr (i, s') \<Longrightarrow> length s' \<le> length s"
  by (auto simp: read_id_def split: if_splits option.splits dest: strtol_length)

lemma read_entry_length:
  assumes "read_entry str s acl = Inr (acl', s')" shows "length s' < length s"
proof -
  obtain s1 s3 where s1: "eat ''/'' s = Inr s1" and s3: "eat '':'' (tl s1) = Inr s3"
    using assms unfolding read_entry_def Let_def by (auto split: sum.splits)
  obtain i s4 s5 where s4: "read_id str s3 = Inr (i, s4)" and s5: "eat '':'' s4 = Inr s5"
    using assms unfolding read_entry_def Let_def by (simp add: s1 s3 split: sum.splits prod.splits)
  have "s' = tl s5"
    using assms unfolding read_entry_def Let_def by (simp add: s1 s3 s4 s5 split: sum.splits if_splits)
  then show ?thesis
    using eat_length [OF s1] eat_length [OF s3] read_id_length [OF s4] eat_length [OF s5] by simp
qed

function read_entries :: "string \<Rightarrow> string \<Rightarrow> AccessControlList \<Rightarrow> AccessControlList parsed" where
  "read_entries str s acl =
     (if s = [] then Inr acl
      else case read_entry str s acl of Inl e \<Rightarrow> Inl e | Inr (acl', s') \<Rightarrow> read_entries str s' acl')"
  by pat_completeness auto
termination
  by (relation "measure (\<lambda>(str, s, acl). length s)") (auto dest: read_entry_length)

fun read_basic :: "acl_type list \<Rightarrow> string \<Rightarrow> AccessControlList \<Rightarrow> (AccessControlList \<times> string) parsed" where
  "read_basic [] s acl = Inr (acl, s)"
| "read_basic (ty # tys) s acl =
    (case accessMaskFromChar (char_at s) of Inl e \<Rightarrow> Inl e | Inr m \<Rightarrow> read_basic tys (tl s) (setEntry ty 0 m acl))"

definition posixFromString :: "string \<Rightarrow> AccessControlList parsed" where
  "posixFromString str =
     (if length str < 4 then Inl (''ACL string '' @ str @ '': too short'')
      else case eat ''A'' str of Inl e \<Rightarrow> Inl e | Inr s \<Rightarrow>
        (case read_basic [kUser, kGroup, kOther] s emptyPosixACL of Inl e \<Rightarrow> Inl e
         | Inr (acl, s') \<Rightarrow> read_entries str s' acl))"

definition entryToString :: "Entry \<Rightarrow> string" where
  "entryToString e =
     (if entry_type e = kNamedUser then ''/u:'' @ to_string (unat (entry_id e)) @ '':'' @ [accessMaskToChar (access_rights e)]
      else if entry_type e = kNamedGroup then ''/g:'' @ to_string (unat (entry_id e)) @ '':'' @ [accessMaskToChar (access_rights e)]
      else [])"

definition posixToString :: "AccessControlList \<Rightarrow> string" where
  "posixToString acl =
     ''A'' @ map (\<lambda>ty. accessMaskToChar (access_rights (getEntry ty 0 acl))) [kUser, kGroup, kOther] @
     concat (map entryToString (acl_entries acl)) @
     (if entry_type (getEntry kMask 0 acl) = kMask
      then ''/m::'' @ [accessMaskToChar (access_rights (getEntry kMask 0 acl))] else [])"

subsection \<open>The four nibbles\<close>

definition nibble :: "nat \<Rightarrow> 16 word \<Rightarrow> 4 word" where
  "nibble j w = ucast (drop_bit j w)"

definition put_nibble :: "nat \<Rightarrow> 16 word \<Rightarrow> 4 word \<Rightarrow> 16 word \<Rightarrow> 16 word" where
  "put_nibble j m v w = (w AND m) OR push_bit j (ucast v)"

lemma bit_nibble: "bit (nibble j w) k \<longleftrightarrow> k < 4 \<and> bit w (j + k)"
  by (auto simp: nibble_def bit_ucast_iff bit_drop_bit_eq)

lemma bit_nibble_masks:
  "bit (0xF0FF :: 16 word) n \<longleftrightarrow> n < 8 \<or> 12 \<le> n \<and> n < 16" "bit (0xFF0F :: 16 word) n \<longleftrightarrow> n < 4 \<or> 8 \<le> n \<and> n < 16"
  "bit (0xFFF0 :: 16 word) n \<longleftrightarrow> 4 \<le> n \<and> n < 16" "bit (0x0FFF :: 16 word) n \<longleftrightarrow> n < 12"
proof -
  have b: "bit w n \<longleftrightarrow> n < 16 \<and> n \<in> set (filter (bit w) [0..<16])" for w :: "16 word"
    by (auto dest: bit_imp_le_length)
  show "bit (0xF0FF :: 16 word) n \<longleftrightarrow> n < 8 \<or> 12 \<le> n \<and> n < 16" "bit (0xFF0F :: 16 word) n \<longleftrightarrow> n < 4 \<or> 8 \<le> n \<and> n < 16"
    "bit (0xFFF0 :: 16 word) n \<longleftrightarrow> 4 \<le> n \<and> n < 16" "bit (0x0FFF :: 16 word) n \<longleftrightarrow> n < 12"
    by (subst b, simp add: upt_rec [of _ 16], arith)+
qed

lemma set_nibble:
  assumes "\<And>n. bit m n \<longleftrightarrow> n < 16 \<and> \<not> (j \<le> n \<and> n < j + 4)" "j + 4 \<le> 16"
  shows "nibble j (put_nibble j m v w) = v"
    and "i + 4 \<le> j \<or> j + 4 \<le> i \<Longrightarrow> i + 4 \<le> 16 \<Longrightarrow> nibble i (put_nibble j m v w) = nibble i w"
proof -
  have "bit (put_nibble j m v w) (i + k) \<longleftrightarrow>
      (if j \<le> i + k \<and> i + k < j + 4 then bit v (i + k - j) else bit w (i + k))" if "i + k < 16" for i k
    using that assms(2)
    by (auto simp: put_nibble_def bit_or_iff bit_and_iff bit_push_bit_iff bit_ucast_iff assms(1) dest: bit_imp_le_length)
  then show "nibble j (put_nibble j m v w) = v"
    "i + 4 \<le> j \<or> j + 4 \<le> i \<Longrightarrow> i + 4 \<le> 16 \<Longrightarrow> nibble i (put_nibble j m v w) = nibble i w"
    using assms(2) by (auto intro!: bit_word_eqI simp: bit_nibble)
qed

lemma rights_defs:
  "getOwnerRights acl = nibble 8 (basic_permissions acl)" "getGroupRights acl = nibble 4 (basic_permissions acl)"
  "getOtherRights acl = nibble 0 (basic_permissions acl)" "getMaskRights acl = nibble 12 (basic_permissions acl)"
  "setOwnerRights v acl = acl\<lparr>basic_permissions := put_nibble 8 0xF0FF v (basic_permissions acl)\<rparr>"
  "setGroupRights v acl = acl\<lparr>basic_permissions := put_nibble 4 0xFF0F v (basic_permissions acl)\<rparr>"
  "setOtherRights v acl = acl\<lparr>basic_permissions := put_nibble 0 0xFFF0 v (basic_permissions acl)\<rparr>"
  "setMaskRights v acl = acl\<lparr>basic_permissions := put_nibble 12 0x0FFF v (basic_permissions acl)\<rparr>"
  by (simp_all add: nibble_def put_nibble_def getOwnerRights_def getGroupRights_def getOtherRights_def getMaskRights_def
      setOwnerRights_def setGroupRights_def setOtherRights_def setMaskRights_def)

lemma rights_simps [simp]:
  "getOwnerRights (setOwnerRights v acl) = v" "getGroupRights (setOwnerRights v acl) = getGroupRights acl"
  "getOtherRights (setOwnerRights v acl) = getOtherRights acl" "getMaskRights (setOwnerRights v acl) = getMaskRights acl"
  "getOwnerRights (setGroupRights v acl) = getOwnerRights acl" "getGroupRights (setGroupRights v acl) = v"
  "getOtherRights (setGroupRights v acl) = getOtherRights acl" "getMaskRights (setGroupRights v acl) = getMaskRights acl"
  "getOwnerRights (setOtherRights v acl) = getOwnerRights acl" "getGroupRights (setOtherRights v acl) = getGroupRights acl"
  "getOtherRights (setOtherRights v acl) = v" "getMaskRights (setOtherRights v acl) = getMaskRights acl"
  "getOwnerRights (setMaskRights v acl) = getOwnerRights acl" "getGroupRights (setMaskRights v acl) = getGroupRights acl"
  "getOtherRights (setMaskRights v acl) = getOtherRights acl" "getMaskRights (setMaskRights v acl) = v"
proof -
  have m: "\<And>n. bit (0xF0FF :: 16 word) n \<longleftrightarrow> n < 16 \<and> \<not> (8 \<le> n \<and> n < 8 + 4)"
    "\<And>n. bit (0xFF0F :: 16 word) n \<longleftrightarrow> n < 16 \<and> \<not> (4 \<le> n \<and> n < 4 + 4)"
    "\<And>n. bit (0xFFF0 :: 16 word) n \<longleftrightarrow> n < 16 \<and> \<not> (0 \<le> n \<and> n < 0 + 4)"
    "\<And>n. bit (0x0FFF :: 16 word) n \<longleftrightarrow> n < 16 \<and> \<not> (12 \<le> n \<and> n < 12 + 4)"
    unfolding bit_nibble_masks by arith+
  note s = set_nibble [OF m(1)] set_nibble [OF m(2)] set_nibble [OF m(3)] set_nibble [OF m(4)]
  show "getOwnerRights (setOwnerRights v acl) = v" "getGroupRights (setOwnerRights v acl) = getGroupRights acl"
    "getOtherRights (setOwnerRights v acl) = getOtherRights acl" "getMaskRights (setOwnerRights v acl) = getMaskRights acl"
    "getOwnerRights (setGroupRights v acl) = getOwnerRights acl" "getGroupRights (setGroupRights v acl) = v"
    "getOtherRights (setGroupRights v acl) = getOtherRights acl" "getMaskRights (setGroupRights v acl) = getMaskRights acl"
    "getOwnerRights (setOtherRights v acl) = getOwnerRights acl" "getGroupRights (setOtherRights v acl) = getGroupRights acl"
    "getOtherRights (setOtherRights v acl) = v" "getMaskRights (setOtherRights v acl) = getMaskRights acl"
    "getOwnerRights (setMaskRights v acl) = getOwnerRights acl" "getGroupRights (setMaskRights v acl) = getGroupRights acl"
    "getOtherRights (setMaskRights v acl) = getOtherRights acl" "getMaskRights (setMaskRights v acl) = v"
    unfolding rights_defs by (simp_all add: s)
qed

lemma rights_entries [simp]:
  "acl_entries (setOwnerRights v acl) = acl_entries acl" "acl_entries (setGroupRights v acl) = acl_entries acl"
  "acl_entries (setOtherRights v acl) = acl_entries acl" "acl_entries (setMaskRights v acl) = acl_entries acl"
  "getOwnerRights (acl\<lparr>acl_entries := es\<rparr>) = getOwnerRights acl" "getGroupRights (acl\<lparr>acl_entries := es\<rparr>) = getGroupRights acl"
  "getOtherRights (acl\<lparr>acl_entries := es\<rparr>) = getOtherRights acl" "getMaskRights (acl\<lparr>acl_entries := es\<rparr>) = getMaskRights acl"
  by (simp_all add: rights_defs)

lemma posix_eqI:
  assumes "acl_entries a = acl_entries b" "getOwnerRights a = getOwnerRights b" "getGroupRights a = getGroupRights b"
    "getOtherRights a = getOtherRights b" "getMaskRights a = getMaskRights b"
  shows "a = (b :: AccessControlList)"
proof -
  have "bit (basic_permissions a) n = bit (basic_permissions b) n" if n: "n < 16" for n
  proof -
    have e: "n < 4 \<or> (\<exists>k < 4. n = 4 + k) \<or> (\<exists>k < 4. n = 8 + k) \<or> (\<exists>k < 4. n = 12 + k)"
      using n by presburger
    have nb: "nibble j (basic_permissions a) = nibble j (basic_permissions b) \<Longrightarrow> k < 4 \<Longrightarrow>
        bit (basic_permissions a) (j + k) = bit (basic_permissions b) (j + k)" for j k
      by (metis bit_nibble)
    show ?thesis
      using e assms(2-5) nb [of 0 n] nb [of 4] nb [of 8] nb [of 12] unfolding rights_defs by auto
  qed
  then have "basic_permissions a = basic_permissions b" by (intro bit_word_eqI) simp
  with assms(1) show ?thesis by (cases a; cases b) simp
qed

subsection \<open>Named entries\<close>

definition entry_key :: "Entry \<Rightarrow> nat \<times> nat" where
  "entry_key e = (type_index (entry_type e), unat (entry_id e))"

definition key_less :: "nat \<times> nat \<Rightarrow> nat \<times> nat \<Rightarrow> bool" where
  "key_less a b \<longleftrightarrow> fst a < fst b \<or> fst a = fst b \<and> snd a < snd b"

definition named :: "acl_type \<Rightarrow> bool" where
  "named ty \<longleftrightarrow> ty = kNamedUser \<or> ty = kNamedGroup"

text \<open>
  The invariant of the list: sorted by type and id without duplicates, named entries with rights
  \<open>rwx\<close>, within the capacity of the container.
\<close>

definition wf_entries :: "Entry list \<Rightarrow> bool" where
  "wf_entries es \<longleftrightarrow> sorted_wrt (\<lambda>a b. key_less (entry_key a) (entry_key b)) es \<and> length es \<le> max_entries \<and>
     (\<forall>e \<in> set es. named (entry_type e) \<and> access_rights e \<le> 7)"

definition wf_posix :: "AccessControlList \<Rightarrow> bool" where
  "wf_posix acl \<longleftrightarrow> wf_entries (acl_entries acl) \<and> getOwnerRights acl \<le> 7 \<and> getGroupRights acl \<le> 7 \<and>
     getOtherRights acl \<le> 7 \<and> (getMaskRights acl = kMaskUnset \<or> getMaskRights acl \<le> 7)"

lemma type_index_inj [simp]: "type_index a = type_index b \<longleftrightarrow> a = b"
  by (cases a; cases b) (simp_all add: type_index_def)

lemma entry_key_eq: "entry_key a = entry_key b \<longleftrightarrow> entry_type a = entry_type b \<and> entry_id a = entry_id b"
  by (auto simp: entry_key_def word_eq_iff_unsigned [symmetric] intro: unsigned_word_eqI)

lemma entry_less_key: "entry_less e (mkEntry ty i 0) \<longleftrightarrow> key_less (entry_key e) (type_index ty, unat i)"
  by (auto simp: entry_less_def key_less_def entry_key_def mkEntry_def word_less_nat_alt)

lemma key_less_irrefl [simp]: "\<not> key_less a a" and key_less_trans: "key_less a b \<Longrightarrow> key_less b c \<Longrightarrow> key_less a c"
  and key_less_linear: "key_less a b \<or> a = b \<or> key_less b a"
  by (auto simp: key_less_def prod_eq_iff)

text \<open>The lower bound is where the entry with the key is, if there is one.\<close>

lemma lower_bound_split:
  assumes "sorted_wrt (\<lambda>a b. key_less (entry_key a) (entry_key b)) es" "lower_bound ty i es = (pre, post)"
  shows "es = pre @ post" "\<forall>e \<in> set pre. key_less (entry_key e) (type_index ty, unat i)"
    "\<forall>e \<in> set post. \<not> key_less (entry_key e) (type_index ty, unat i)"
    "post = e # post' \<Longrightarrow> \<forall>x \<in> set post'. key_less (type_index ty, unat i) (entry_key x)"
proof -
  show es: "es = pre @ post" and pre: "\<forall>e \<in> set pre. key_less (entry_key e) (type_index ty, unat i)"
    using assms(2) by (auto simp: lower_bound_def Let_def entry_less_key dest: set_takeWhileD)
  have hd: "post \<noteq> [] \<Longrightarrow> \<not> key_less (entry_key (hd post)) (type_index ty, unat i)"
    using assms(2) hd_dropWhile [of "\<lambda>e. entry_less e (mkEntry ty i 0)" es] by (auto simp: lower_bound_def Let_def entry_less_key)
  have srt: "sorted_wrt (\<lambda>a b. key_less (entry_key a) (entry_key b)) post"
    using assms(1) by (simp add: es sorted_wrt_append)
  show "\<forall>e \<in> set post. \<not> key_less (entry_key e) (type_index ty, unat i)"
    using hd srt by (cases post) (auto dest: key_less_trans)
  show "\<forall>x \<in> set post'. key_less (type_index ty, unat i) (entry_key x)" if "post = e # post'"
    using hd srt that key_less_linear [of "(type_index ty, unat i)" "entry_key e"] by (auto dest: key_less_trans)
qed

definition find_named :: "acl_type \<Rightarrow> 32 word \<Rightarrow> Entry list \<Rightarrow> Entry option" where
  "find_named ty i es = List.find (\<lambda>e. entry_type e = ty \<and> entry_id e = i) es"

lemma getNamed_find:
  assumes "wf_entries es"
  shows "getNamed ty i es = (case find_named ty i es of Some e \<Rightarrow> e | None \<Rightarrow> invalidEntry)"
proof -
  obtain pre post where lb: "lower_bound ty i es = (pre, post)" by fastforce
  have s: "sorted_wrt (\<lambda>a b. key_less (entry_key a) (entry_key b)) es" using assms by (simp add: wf_entries_def)
  note L = lower_bound_split [OF s lb]
  let ?P = "\<lambda>e. entry_type e = ty \<and> entry_id e = i"
  have k: "?P e \<longleftrightarrow> entry_key e = (type_index ty, unat i)" for e
    by (auto simp: entry_key_def intro: unsigned_word_eqI)
  have np: "\<not> (\<exists>e \<in> set pre. ?P e)" using L(2) unfolding k by auto
  then have f: "List.find ?P es = List.find ?P post"
    unfolding L(1) by (induction pre) auto
  show ?thesis
  proof (cases post)
    case Nil
    then show ?thesis using f by (simp add: getNamed_def lb find_named_def)
  next
    case (Cons e post')
    have "\<not> (\<exists>x \<in> set post'. ?P x)" using L(4) [OF Cons] unfolding k by auto
    then have "List.find ?P post' = None" by (auto simp: find_None_iff)
    then show ?thesis using f by (simp add: getNamed_def lb find_named_def Cons)
  qed
qed

lemma setNamed_append:
  assumes "wf_entries es" "length es < max_entries" "\<forall>e \<in> set es. key_less (entry_key e) (type_index ty, unat i)"
  shows "setNamed ty i r es = es @ [mkEntry ty i r]"
proof -
  have all: "\<And>e. e \<in> set es \<Longrightarrow> entry_less e (mkEntry ty i 0) \<and> entry_less e (mkEntry ty i r)"
    using assms(3) by (auto simp: entry_less_def key_less_def entry_key_def mkEntry_def word_less_nat_alt)
  then have "lower_bound ty i es = (es, [])"
    by (simp add: lower_bound_def Let_def)
  moreover have "flat_insert (mkEntry ty i r) es = es @ [mkEntry ty i r]"
    using all by (simp add: flat_insert_def Let_def)
  ultimately show ?thesis using assms(2) by (simp add: setNamed_def)
qed

lemma unat_eq [simp]: "unat a = unat b \<longleftrightarrow> a = b"
  by (auto intro: unsigned_word_eqI)

lemma setNamed_cases:
  assumes "wf_entries es" "lower_bound ty i es = (pre, post)"
  shows "(\<exists>e post'. post = e # post' \<and> entry_type e = ty \<and> entry_id e = i \<and>
      setNamed ty i r es = pre @ mkEntry ty i r # post') \<or>
    find_named ty i es = None \<and> setNamed ty i r es =
      (if length es < max_entries then pre @ mkEntry ty i r # post else es)"
proof -
  have s: "sorted_wrt (\<lambda>a b. key_less (entry_key a) (entry_key b)) es" using assms by (simp add: wf_entries_def)
  note L = lower_bound_split [OF s assms(2)]
  show ?thesis
  proof (cases "\<exists>e post'. post = e # post' \<and> entry_type e = ty \<and> entry_id e = i")
    case True
    then show ?thesis using assms(2) by (auto simp: setNamed_def mkEntry_def)
  next
    case False
    then have g: "getNamed ty i es = invalidEntry"
      using assms(2) by (auto simp: getNamed_def split: list.splits)
    have post: "e \<in> set post \<Longrightarrow> key_less (type_index ty, unat i) (entry_key e)" for e
      using L(3,4) False key_less_linear [of "(type_index ty, unat i)" "entry_key e"]
      by (cases post) (auto simp: entry_key_def intro: unsigned_word_eqI)
    have "find_named ty i es = None"
      unfolding find_named_def find_None_iff L(1) using L(2)
      by (auto simp: entry_key_def dest!: post)
    moreover have "flat_insert (mkEntry ty i r) es = pre @ mkEntry ty i r # post"
    proof -
      have b: "entry_less e (mkEntry ty i r)" if "e \<in> set pre" for e
        using L(2) that by (auto simp: entry_less_def key_less_def entry_key_def mkEntry_def word_less_nat_alt)
      have a: "entry_less (mkEntry ty i r) e \<and> \<not> entry_less e (mkEntry ty i r)" if "e \<in> set post" for e
        using post [OF that] by (auto simp: entry_less_def key_less_def entry_key_def mkEntry_def word_less_nat_alt)
      have "takeWhile (\<lambda>x. entry_less x (mkEntry ty i r)) es = pre"
        "dropWhile (\<lambda>x. entry_less x (mkEntry ty i r)) es = post"
        unfolding L(1) using a b by (cases post; simp add: takeWhile_append dropWhile_append)+
      then show ?thesis using a by (cases post) (simp_all add: flat_insert_def Let_def)
    qed
    ultimately show ?thesis using assms(2) False by (cases post) (auto simp: setNamed_def)
  qed
qed

lemma find_append: "List.find P (xs @ ys) = (case List.find P xs of Some x \<Rightarrow> Some x | None \<Rightarrow> List.find P ys)"
  by (induction xs) auto

text \<open>Writing an entry and reading entries.\<close>

lemma find_setNamed:
  assumes "wf_entries es" "find_named ty i es \<noteq> None \<or> length es < max_entries"
  shows "find_named ty' i' (setNamed ty i r es) =
    (if ty' = ty \<and> i' = i then Some (mkEntry ty i r) else find_named ty' i' es)"
proof -
  obtain pre post where lb: "lower_bound ty i es = (pre, post)" by fastforce
  have s: "sorted_wrt (\<lambda>a b. key_less (entry_key a) (entry_key b)) es" using assms by (simp add: wf_entries_def)
  note L = lower_bound_split [OF s lb]
  have np: "List.find (\<lambda>e. entry_type e = ty \<and> entry_id e = i) pre = None"
    unfolding find_None_iff using L(2) by (auto simp: entry_key_def)
  have m: "entry_type (mkEntry ty i r) = ty" "entry_id (mkEntry ty i r) = i" by (simp_all add: mkEntry_def)
  from setNamed_cases [OF assms(1) lb, of r] assms(2) show ?thesis
    unfolding find_named_def L(1)
    by (elim disjE exE conjE) (auto simp: find_append np m split: option.splits)
qed

lemma wf_setNamed:
  assumes "wf_entries es" "named ty" "r \<le> 7"
  shows "wf_entries (setNamed ty i r es)"
proof -
  obtain pre post where lb: "lower_bound ty i es = (pre, post)" by fastforce
  have s: "sorted_wrt (\<lambda>a b. key_less (entry_key a) (entry_key b)) es" using assms by (simp add: wf_entries_def)
  note L = lower_bound_split [OF s lb]
  have k: "entry_key (mkEntry ty i r) = (type_index ty, unat i)" by (simp add: entry_key_def mkEntry_def)
  have m: "named (entry_type (mkEntry ty i r)) \<and> access_rights (mkEntry ty i r) \<le> 7" using assms by (simp add: mkEntry_def)
  from setNamed_cases [OF assms(1) lb, of r] show ?thesis
  proof (elim disjE exE conjE)
    fix e post' assume p: "post = e # post'" "entry_type e = ty" "entry_id e = i"
      "setNamed ty i r es = pre @ mkEntry ty i r # post'"
    then have "entry_key e = (type_index ty, unat i)" by (simp add: entry_key_def)
    then show ?thesis
      unfolding p(4) using assms(1) m unfolding wf_entries_def L(1) p(1) by (auto simp: sorted_wrt_append k)
  next
    assume p: "find_named ty i es = None" "setNamed ty i r es = (if length es < max_entries then pre @ mkEntry ty i r # post else es)"
    have "\<And>e. e \<in> set post \<Longrightarrow> key_less (type_index ty, unat i) (entry_key e)"
      using L(3) p(1) key_less_linear [of "(type_index ty, unat i)"]
      by (fastforce simp: find_named_def find_None_iff L(1) entry_key_def intro: unsigned_word_eqI)
    then show ?thesis
      unfolding p(2) using assms(1) m L(2) unfolding wf_entries_def by (auto simp: L(1) sorted_wrt_append k)
  qed
qed

subsection \<open>Text round trip\<close>

lemma rights_char:
  assumes "r \<le> 7"
  shows "accessMaskFromChar (accessMaskToChar r) = Inr r" "accessMaskToChar r \<noteq> CHR '':''" "accessMaskToChar r \<noteq> CHR ''/''"
proof -
  have n: "unat r \<le> 7" using assms by (simp add: word_le_nat_alt)
  then have o: "(of_char (digit_char (unat r)) :: nat) = 48 + unat r" by (intro of_char_digit) simp
  have c: "accessMaskToChar r = digit_char (unat r)" using assms by (auto simp: accessMaskToChar_def dest: leD)
  show "accessMaskFromChar (accessMaskToChar r) = Inr r" using n by (simp add: accessMaskFromChar_def c o)
  have "of_char (accessMaskToChar r) \<noteq> (of_char CHR '':'' :: nat)" "of_char (accessMaskToChar r) \<noteq> (of_char CHR ''/'' :: nat)"
    using n by (simp_all add: c o)
  then show "accessMaskToChar r \<noteq> CHR '':''" "accessMaskToChar r \<noteq> CHR ''/''" by auto
qed

lemma strtol_to_string:
  assumes "n < 2 ^ 63"
  shows "strtol (to_string n @ CHR '':'' # rest) = Some (int n, CHR '':'' # rest)"
proof -
  let ?s = "to_string n @ CHR '':'' # rest"
  have nd: "\<not> is_digit CHR '':''" by (simp add: is_digit_def)
  have tw: "takeWhile is_digit ?s = to_string n" "dropWhile is_digit ?s = CHR '':'' # rest"
    using to_string_props(2) [of n] nd by (simp_all add: takeWhile_append dropWhile_append)
  have hd: "is_digit (hd ?s)" "?s \<noteq> []" using to_string_props(1,2) [of n] by (auto simp: hd_append)
  have "\<not> is_space (hd ?s)" "hd ?s \<noteq> CHR ''-''" "hd ?s \<noteq> CHR ''+''"
    using hd(1) by (auto simp: is_digit_def is_space_def)
  moreover have "dropWhile is_space ?s = ?s" using calculation(1) hd(2) by (cases ?s) simp_all
  ultimately show ?thesis
    using tw to_string_props(1,3) [of n] assms by (simp add: strtol_def Let_def)
qed

lemma read_id_to_string: "read_id str (to_string (unat i) @ CHR '':'' # rest) = Inr (i, CHR '':'' # rest)" for i :: "32 word"
proof -
  have "unat i < 2 ^ 32" using unsigned_less [of i, where ?'a = nat] by simp
  then have "strtol (to_string (unat i) @ CHR '':'' # rest) = Some (int (unat i), CHR '':'' # rest)"
    by (intro strtol_to_string) simp
  moreover have "char_at (to_string (unat i) @ CHR '':'' # rest) \<noteq> CHR '':''"
    using to_string_props(1,2) [of "unat i"] by (cases "to_string (unat i)") (auto simp: char_at_def is_digit_def)
  ultimately show ?thesis by (simp add: read_id_def)
qed

lemma read_named:
  assumes "named ty" "r \<le> 7" "i \<noteq> 0xFFFFFFFF" "entry_type (getEntry ty i acl) = kInvalid"
  shows "read_entry str (entryToString (mkEntry ty i r) @ rest) acl = Inr (setEntry ty i r acl, rest)"
proof -
  define c where "c = (if ty = kNamedUser then CHR ''u'' else CHR ''g'')"
  have e: "entryToString (mkEntry ty i r) @ rest =
      CHR ''/'' # c # CHR '':'' # to_string (unat i) @ CHR '':'' # accessMaskToChar r # rest"
    using assms(1) by (auto simp: entryToString_def mkEntry_def c_def named_def)
  have t: "entryTypeFromChar c = ty" "ty \<noteq> kInvalid"
    using assms(1) by (auto simp: entryTypeFromChar_def c_def named_def)
  show ?thesis
    unfolding read_entry_def e using rights_char(1) [OF assms(2)] assms(3,4) t
    by (simp add: eat_def read_id_to_string char_at_def)
qed

lemma read_mask_entry:
  assumes "r \<le> 7" "getMaskRights acl = kMaskUnset"
  shows "read_entry str (''/m::'' @ [accessMaskToChar r]) acl = Inr (setMaskRights r acl, [])"
  using rights_char(1) [OF assms(1)] assms(2)
  by (simp add: read_entry_def eat_def read_id_def char_at_def entryTypeFromChar_def getEntry_def invalidEntry_def
      mkEntry_def setEntry_def)

declare read_entries.simps [simp del]

text \<open>An entry that comes after all others of the list is not found in it, and is set at its end.\<close>

lemma next_entry:
  assumes "wf_entries (acl_entries acl @ e # es)"
  shows "entry_type (getEntry (entry_type e) (entry_id e) acl) = kInvalid"
    "setEntry (entry_type e) (entry_id e) (access_rights e) acl = acl\<lparr>acl_entries := acl_entries acl @ [e]\<rparr>"
proof -
  let ?old = "acl_entries acl"
  have e: "mkEntry (entry_type e) (entry_id e) (access_rights e) = e" by (simp add: mkEntry_def)
  have n: "named (entry_type e)" using assms by (auto simp: wf_entries_def)
  have wf: "wf_entries ?old" "length ?old < max_entries"
    and lt: "\<forall>x \<in> set ?old. key_less (entry_key x) (type_index (entry_type e), unat (entry_id e))"
    using assms by (auto simp: wf_entries_def sorted_wrt_append entry_key_def)
  have "find_named (entry_type e) (entry_id e) ?old = None"
    using lt by (auto simp: find_named_def find_None_iff entry_key_def)
  then show "entry_type (getEntry (entry_type e) (entry_id e) acl) = kInvalid"
    using n getNamed_find [OF wf(1)] by (auto simp: getEntry_def named_def invalidEntry_def mkEntry_def)
  show "setEntry (entry_type e) (entry_id e) (access_rights e) acl = acl\<lparr>acl_entries := ?old @ [e]\<rparr>"
    using setNamed_append [OF wf lt] n e by (auto simp: setEntry_def named_def)
qed

lemma read_entries_write:
  assumes "wf_entries (acl_entries acl @ es)" "\<forall>e \<in> set es. entry_id e \<noteq> 0xFFFFFFFF"
  shows "read_entries str (concat (map entryToString es) @ rest) acl =
    read_entries str rest (acl\<lparr>acl_entries := acl_entries acl @ es\<rparr>)"
  using assms
proof (induction es arbitrary: acl)
  case (Cons e es)
  let ?old = "acl_entries acl"
  have e: "e = mkEntry (entry_type e) (entry_id e) (access_rights e)" by (simp add: mkEntry_def)
  have n: "named (entry_type e)" "access_rights e \<le> 7" using Cons.prems(1) by (auto simp: wf_entries_def)
  note ne' = next_entry [OF Cons.prems(1)]
  from ne'(1) read_named [OF n, of "entry_id e" acl str "concat (map entryToString es) @ rest"] Cons.prems(2)
  have r: "read_entry str (entryToString e @ concat (map entryToString es) @ rest) acl =
      Inr (setEntry (entry_type e) (entry_id e) (access_rights e) acl, concat (map entryToString es) @ rest)"
    using e by simp
  have ne: "entryToString e \<noteq> []" using n(1) by (auto simp: entryToString_def named_def)
  show ?case
    using Cons.IH [of "acl\<lparr>acl_entries := ?old @ [e]\<rparr>"] Cons.prems r ne'(2) ne
    by (subst read_entries.simps) simp
qed simp

lemma posixFromString_posixToString:
  assumes wf: "wf_posix acl" and ids: "\<forall>e \<in> set (acl_entries acl). entry_id e \<noteq> 0xFFFFFFFF"
  shows "posixFromString (posixToString acl) = Inr acl"
proof -
  let ?b = "setOtherRights (getOtherRights acl) (setGroupRights (getGroupRights acl) (setOwnerRights (getOwnerRights acl) emptyPosixACL))"
  have r: "getOwnerRights acl \<le> 7" "getGroupRights acl \<le> 7" "getOtherRights acl \<le> 7"
    and es: "wf_entries (acl_entries acl)" and m: "getMaskRights acl = kMaskUnset \<or> getMaskRights acl \<le> 7"
    using wf by (simp_all add: wf_posix_def)
  have emp: "acl_entries emptyPosixACL = []" "getMaskRights emptyPosixACL = kMaskUnset"
    by (simp_all add: emptyPosixACL_def getMaskRights_def kMaskUnset_def)
  define rest where "rest = (if getMaskRights acl = kMaskUnset then [] else ''/m::'' @ [accessMaskToChar (getMaskRights acl)])"
  have st: "posixToString acl = CHR ''A'' # accessMaskToChar (getOwnerRights acl) # accessMaskToChar (getGroupRights acl) #
      accessMaskToChar (getOtherRights acl) # concat (map entryToString (acl_entries acl)) @ rest"
    by (simp add: posixToString_def getEntry_def mkEntry_def invalidEntry_def rest_def)
  have "posixFromString (posixToString acl) = read_entries (posixToString acl) (concat (map entryToString (acl_entries acl)) @ rest) ?b"
    using rights_char(1) [OF r(1)] rights_char(1) [OF r(2)] rights_char(1) [OF r(3)]
    unfolding posixFromString_def st by (simp add: eat_def char_at_def setEntry_def)
  also have "\<dots> = read_entries (posixToString acl) rest (?b\<lparr>acl_entries := acl_entries acl\<rparr>)"
    using read_entries_write [of ?b "acl_entries acl"] es ids by (simp add: emp)
  also have "\<dots> = Inr acl"
  proof (cases "getMaskRights acl = kMaskUnset")
    case True
    have "?b\<lparr>acl_entries := acl_entries acl\<rparr> = acl" by (rule posix_eqI) (simp_all add: emp True)
    then show ?thesis by (subst read_entries.simps) (simp add: rest_def True)
  next
    case False
    let ?a = "?b\<lparr>acl_entries := acl_entries acl\<rparr>"
    have "setMaskRights (getMaskRights acl) ?a = acl" by (rule posix_eqI) (simp_all add: emp)
    moreover have "read_entry (posixToString acl) rest ?a = Inr (setMaskRights (getMaskRights acl) ?a, [])"
      using read_mask_entry [of "getMaskRights acl" ?a] m False by (simp add: rest_def emp)
    ultimately show ?thesis
      by (subst read_entries.simps, simp) (simp add: read_entries.simps rest_def False)
  qed
  finally show ?thesis .
qed

section \<open>Properties\<close>

text \<open>
  C28. Printing a POSIX list and reading the text back gives the same list, for every list that keeps
  the invariant of the container and whose named ids are not the reserved one.
\<close>

theorem posix_text_roundtrip:
  assumes "wf_posix acl" and "\<forall>e \<in> set (acl_entries acl). entry_id e \<noteq> 0xFFFFFFFF"
  shows "posixFromString (posixToString acl) = Inr acl"
  using assms by (rule posixFromString_posixToString)

definition posix_example :: AccessControlList where
  "posix_example = \<lparr>acl_entries = [mkEntry kNamedUser 123 7, mkEntry kNamedGroup 166 4], basic_permissions = 0x6770\<rparr>"

theorem posix_text_roundtrip_witness:
  "posixFromString (posixToString posix_example) = Inr posix_example \<and>
   posixToString posix_example = ''A770/u:123:7/g:166:4/m::6''"
proof -
  have "wf_posix posix_example" "\<forall>e \<in> set (acl_entries posix_example). entry_id e \<noteq> 0xFFFFFFFF" by code_simp+
  from posix_text_roundtrip [OF this] show ?thesis by (rule conjI) code_simp
qed

end
