(* ===== verification/RichACL_Posix.thy ===== *)
theory RichACL_Posix
  imports RichACL_Compat PosixACL
begin

text \<open>
  Conversion between POSIX lists and RichACLs (\<open>src/src/common/richacl_posix_convert.cc\<close>).
\<close>

definition rightsMask :: "bool \<Rightarrow> 4 word \<Rightarrow> 32 word" where
  "rightsMask is_dir r = convertMode2Mask (ucast r) AND NOT (if is_dir then 0 else kDeleteChild)"

definition ownerWho :: Ace where "ownerWho = mkAce 0 kSpecialWho 0 kOwnerSpecialId"
definition groupWho :: Ace where "groupWho = mkAce 0 kSpecialWho 0 kGroupSpecialId"
definition everyoneWho :: Ace where "everyoneWho = mkAce 0 kSpecialWho 0 kEveryoneSpecialId"

definition namedAces :: "bool \<Rightarrow> Entry \<Rightarrow> Ace list" where
  "namedAces is_dir e =
     (if entry_type e = kNamedUser then [mkAce kAccessAllowedAceType 0 (rightsMask is_dir (access_rights e)) (entry_id e)]
      else if entry_type e = kNamedGroup
      then [mkAce kAccessAllowedAceType kIdentifierGroup (rightsMask is_dir (access_rights e)) (entry_id e)]
      else [])"

definition appendPosixACL :: "AccessControlList \<Rightarrow> bool \<Rightarrow> RichACL \<Rightarrow> RichACL" where
  "appendPosixACL posix_acl is_dir acl =
     (let rights = (\<lambda>ty. rightsMask is_dir (access_rights (getEntry ty 0 posix_acl)));
          acl0 = acl\<lparr>acl_flags := 0, owner_mask := 0, group_mask := 0, other_mask := 0\<rparr>
      in if minimalAcl posix_acl then
           acl0\<lparr>owner_mask := rights kUser, group_mask := rights kGroup, other_mask := rights kOther,
                acl_flags := kMasked OR kWriteThrough\<rparr>
         else
           (let em = rights kOther;
                acl1 = acl0\<lparr>ace_list := ace_list acl0 @
                   [mkAce kAccessAllowedAceType kSpecialWho (rights kUser) kOwnerSpecialId,
                    mkAce kAccessAllowedAceType kSpecialWho (rights kGroup) kGroupSpecialId] @
                   concat (map (namedAces is_dir) (acl_entries posix_acl)) @
                   [mkAce kAccessAllowedAceType kSpecialWho em kEveryoneSpecialId]\<rparr>;
                acl2 = isolateGroupClass em (isolateWho ownerWho em acl1);
                acl3 = acl2\<lparr>owner_mask := allowedToWho ownerWho acl2, group_mask := allowedToWho groupWho acl2,
                            other_mask := allowedToWho everyoneWho acl2\<rparr>;
                mask_entry = getEntry kMask 0 posix_acl
            in if entry_type mask_entry \<noteq> kInvalid
               then acl3\<lparr>group_mask := rightsMask is_dir (access_rights mask_entry), acl_flags := acl_flags acl3 OR kMasked\<rparr>
               else acl3))"

definition appendDefaultPosixACL :: "AccessControlList \<Rightarrow> RichACL \<Rightarrow> RichACL" where
  "appendDefaultPosixACL posix_acl acl =
     (let dir_acl = appendPosixACL posix_acl True emptyACL
      in acl\<lparr>ace_list := ace_list acl @
           map (\<lambda>a. a\<lparr>ace_flags := ace_flags a OR (kFileInheritAce OR kDirectoryInheritAce OR kInheritOnlyAce)\<rparr>)
             (ace_list dir_acl)\<rparr>)"

definition hasGroupEntry :: "RichACL \<Rightarrow> bool" where
  "hasGroupEntry acl \<longleftrightarrow> list_ex (\<lambda>a. \<not> isInheritOnly a \<and> isGroup a) (ace_list acl)"

text \<open>The loop over the entries of \<open>convertToPosixACL\<close>: the first entry of a user or group counts.\<close>

definition convert_step :: "RichACL \<Rightarrow> Ace \<Rightarrow> AccessControlList \<Rightarrow> AccessControlList" where
  "convert_step acl ace posix_acl =
     (if isInheritOnly ace then posix_acl
      else if isUnixUser ace then
        (if entry_type (getEntry kNamedUser (ace_id ace) posix_acl) \<noteq> kInvalid then posix_acl
         else setEntry kNamedUser (ace_id ace) (ucast (convertMask2Mode (allowedToWho ace acl))) posix_acl)
      else if isUnixGroup ace then
        (if entry_type (getEntry kNamedGroup (ace_id ace) posix_acl) \<noteq> kInvalid then posix_acl
         else setEntry kNamedGroup (ace_id ace) (ucast (convertMask2Mode (allowedToWho ace acl))) posix_acl)
      else posix_acl)"

definition convertToPosixACL :: "RichACL \<Rightarrow> bool \<times> AccessControlList" where
  "convertToPosixACL acl =
     (if \<not> isMasked acl \<and> ace_list acl = [] then (False, emptyPosixACL)
      else
        (let o1 = (if \<not> isWriteThrough acl then allowedToWho ownerWho acl else owner_mask acl);
             o2 = (if isMasked acl then o1 AND owner_mask acl else o1);
             g1 = (if isWriteThrough acl \<and> \<not> hasGroupEntry acl then group_mask acl else allowedToWho groupWho acl);
             e1 = (if \<not> isWriteThrough acl then allowedToWho everyoneWho acl else other_mask acl);
             e2 = (if isMasked acl then e1 AND other_mask acl else e1);
             mode = push_bit 6 (convertMask2Mode o2) OR push_bit 3 (convertMask2Mode g1) OR convertMask2Mode e2;
             posix1 = fold (convert_step acl) (ace_list acl) (posixSetMode mode emptyPosixACL)
         in (True, if isMasked acl \<and> hasGroupEntry acl
                   then setEntry kMask 0 (ucast (convertMask2Mode (group_mask acl))) posix1 else posix1)))"

definition convertToDefaultPosixACL :: "RichACL \<Rightarrow> bool \<times> AccessControlList" where
  "convertToDefaultPosixACL acl =
     (let rich_acl = emptyACL\<lparr>ace_list :=
            map (\<lambda>a. a\<lparr>ace_flags := ace_flags a AND NOT kInheritOnlyAce\<rparr>) (filter isInheritable (ace_list acl))\<rparr>
      in case convertToPosixACL rich_acl of
           (ok, posix) \<Rightarrow> (ok, if ok then setEntry kMask 0 7 posix else posix))"

subsection \<open>Identifiers\<close>

lemma isSameIdentifier_bits:
  "isSameIdentifier a b \<longleftrightarrow> bit (ace_flags a) 8 = bit (ace_flags b) 8 \<and> bit (ace_flags a) 6 = bit (ace_flags b) 6 \<and>
     ace_id a = ace_id b"
proof -
  have k: "bit (kSpecialWho OR kIdentifierGroup) n \<longleftrightarrow> n = 8 \<or> n = 6" for n
    using bit_single [of 6 n, where 'a = 9] bit_single [of 8 n, where 'a = 9]
    unfolding kIdentifierGroup_def kSpecialWho_def bit_or_iff by simp
  show ?thesis
    unfolding isSameIdentifier_def word_zero_bits bit_and_iff bit_xor_iff k by blast
qed

lemma same_refl [simp]: "isSameIdentifier a a"
  and same_sym: "isSameIdentifier a b \<Longrightarrow> isSameIdentifier b a"
  and same_trans: "isSameIdentifier a b \<Longrightarrow> isSameIdentifier b c \<Longrightarrow> isSameIdentifier a c"
  by (auto simp: isSameIdentifier_bits)

lemma same_everyone: "isSameIdentifier a b \<Longrightarrow> isEveryone a = isEveryone b"
  by (auto simp: isSameIdentifier_bits who_bits)

text \<open>The deny entry that \<open>isolateWho\<close> adds.\<close>

definition denyAce :: "Ace \<Rightarrow> 32 word \<Rightarrow> Ace" where
  "denyAce who deny = mkAce kAccessDeniedAceType (ace_flags who AND NOT kInheritanceFlags) deny (ace_id who)"

lemma denyAce_props:
  "isSameIdentifier (denyAce w d) w" "isDeny (denyAce w d)" "\<not> isInheritOnly (denyAce w d)" "\<not> isAllow (denyAce w d)"
proof -
  have "bit (ace_flags w AND NOT kInheritanceFlags) n \<longleftrightarrow> bit (ace_flags w) n \<and> n \<noteq> 0 \<and> n \<noteq> 1 \<and> n \<noteq> 2 \<and> n \<noteq> 3 \<and> n \<noteq> 7" for n
    unfolding bit_andnot bit_inheritance_flags by simp
  then show "isSameIdentifier (denyAce w d) w" "\<not> isInheritOnly (denyAce w d)"
    by (simp_all add: denyAce_def mkAce_def isSameIdentifier_bits isInheritOnly_bits)
qed (simp_all add: denyAce_def mkAce_def isDeny_def isAllow_def kAccessAllowedAceType_def kAccessDeniedAceType_def)

lemma isolate_pos_None:
  assumes "\<And>i. i < k \<Longrightarrow> isInheritOnly (aces ! i) \<or> \<not> isDeny (aces ! i) \<or> \<not> isSameIdentifier (aces ! i) w"
  shows "isolate_pos k aces w d = None"
  using assms by (induction k) (auto simp: Let_def)

lemma fold_clear:
  "(\<forall>a \<in> set as. isInheritOnly a \<or> \<not> isSameIdentifier a w) \<Longrightarrow>
   fold (\<lambda>ace d. if \<not> isInheritOnly ace \<and> isSameIdentifier ace w then d AND NOT (amask ace) else d) as d = d"
  by (induction as) auto

text \<open>
  One entry \<open>w\<close> of the identifier in the list, and it allows: \<open>isolateWho\<close> denies what everyone gets
  beyond it, in front of the last entry.
\<close>

lemma isolateWho_fresh:
  assumes l: "ace_list acl = P @ w' # Q @ [e]" and w: "isSameIdentifier w' w" "\<not> isInheritOnly w'" "\<not> isDeny w'"
    and P: "\<forall>a \<in> set P. isInheritOnly a \<or> \<not> isSameIdentifier a w"
    and Q: "\<forall>a \<in> set (Q @ [e]). isInheritOnly a \<or> \<not> isSameIdentifier a w"
  shows "isolateWho w deny acl = acl\<lparr>ace_list := P @ w' # Q @
    (if deny AND NOT (amask w') \<noteq> 0 then [denyAce w (deny AND NOT (amask w'))] else []) @ [e]\<rparr>"
proof -
  let ?f = "\<lambda>ace d. if \<not> isInheritOnly ace \<and> isSameIdentifier ace w then d AND NOT (amask ace) else d"
  have f: "fold ?f (ace_list acl) deny = deny AND NOT (amask w')"
    using fold_clear [OF P] fold_clear [OF Q] w by (simp add: l)
  have "isolate_pos (length (ace_list acl) - 1) (ace_list acl) w (deny AND NOT (amask w')) = None"
  proof (rule isolate_pos_None)
    fix i assume "i < length (ace_list acl) - 1"
    then have "ace_list acl ! i \<in> set P \<union> {w'} \<union> set Q"
      unfolding l by (auto simp: nth_append nth_Cons split: nat.splits)
    then show "isInheritOnly (ace_list acl ! i) \<or> \<not> isDeny (ace_list acl ! i) \<or> \<not> isSameIdentifier (ace_list acl ! i) w"
      using P Q w by auto
  qed
  then show ?thesis
    unfolding isolateWho_def f by (auto simp: l denyAce_def butlast_append)
qed

definition isolated :: "32 word \<Rightarrow> Ace \<Rightarrow> Ace list" where
  "isolated em a = (if em AND NOT (amask a) \<noteq> 0 then [denyAce a (em AND NOT (amask a))] else [])"

text \<open>An entry that \<open>isolate_down\<close> passes to \<open>isolateWho\<close>.\<close>

definition member :: "Ace \<Rightarrow> bool" where
  "member a \<longleftrightarrow> \<not> isInheritOnly a \<and> \<not> isOwner a \<and> \<not> isGroup a"

definition separate :: "Ace \<Rightarrow> Ace \<Rightarrow> bool" where
  "separate a b \<longleftrightarrow> isInheritOnly a \<or> isInheritOnly b \<or> \<not> isSameIdentifier a b"

lemma separate_sym: "separate a b \<Longrightarrow> separate b a"
  by (auto simp: separate_def dest: same_sym)

lemma isolated_separate:
  assumes "d \<in> set (isolated em a)" "separate b a" "\<not> isInheritOnly a"
  shows "separate b d"
  using assms denyAce_props [of a "em AND NOT (amask a)"] same_trans [of b "denyAce a (em AND NOT (amask a))" a]
  by (auto simp: isolated_def separate_def split: if_splits)

lemma isolate_down_members:
  assumes "ace_list acl = P @ R @ [e]"
    and "\<forall>a \<in> set P. member a \<longrightarrow> \<not> isDeny a \<and> (\<forall>b \<in> set (R @ [e]). separate a b)"
    and "sorted_wrt (\<lambda>a b. member a \<or> member b \<longrightarrow> separate a b) P"
  shows "isolate_down (length P) em acl =
    acl\<lparr>ace_list := P @ R @ concat (map (isolated em) (rev (filter member P))) @ [e]\<rparr>"
  using assms
proof (induction P arbitrary: R acl rule: rev_induct)
  case Nil
  then show ?case by simp
next
  case (snoc a P)
  have nth: "ace_list acl ! length P = a" using snoc.prems(1) by simp
  have s: "sorted_wrt (\<lambda>a b. member a \<or> member b \<longrightarrow> separate a b) P" "\<forall>b \<in> set P. member b \<or> member a \<longrightarrow> separate b a"
    using snoc.prems(3) by (auto simp: sorted_wrt_append)
  show ?case
  proof (cases "member a")
    case False
    then have "isolate_down (length (P @ [a])) em acl = isolate_down (length P) em acl"
      by (simp add: nth Let_def member_def)
    also have "\<dots> = acl\<lparr>ace_list := P @ (a # R) @ concat (map (isolated em) (rev (filter member P))) @ [e]\<rparr>"
      by (rule snoc.IH) (use snoc.prems s in auto)
    finally show ?thesis using False by simp
  next
    case True
    then have a: "\<not> isInheritOnly a" "\<not> isDeny a" "\<forall>b \<in> set (R @ [e]). separate a b"
      using snoc.prems(2) by (auto simp: member_def)
    let ?acl = "acl\<lparr>ace_list := P @ (a # R @ isolated em a) @ [e]\<rparr>"
    have sep: "\<forall>b \<in> set P. isInheritOnly b \<or> \<not> isSameIdentifier b a"
      "\<forall>b \<in> set (R @ [e]). isInheritOnly b \<or> \<not> isSameIdentifier b a"
      using s(2) True a unfolding separate_def by (blast dest: same_sym)+
    have "isolateWho a em acl = ?acl"
      unfolding isolated_def
      using isolateWho_fresh [OF _ same_refl a(1,2) sep, of acl em] snoc.prems(1) by simp
    then have "isolate_down (length (P @ [a])) em acl = isolate_down (length P) em ?acl"
      using True by (simp add: nth Let_def member_def)
    also have "\<dots> = ?acl\<lparr>ace_list := P @ (a # R @ isolated em a) @
        concat (map (isolated em) (rev (filter member P))) @ [e]\<rparr>"
      by (rule snoc.IH) (use snoc.prems s isolated_separate [OF _ _ a(1)] in auto)
    finally show ?thesis using True by simp
  qed
qed

lemma first_allows_append:
  "first_allows P n (xs @ ys) \<longleftrightarrow>
    (if \<exists>a \<in> set xs. P a \<and> bit (amask a) n then first_allows P n xs else first_allows P n ys)"
  by (induction xs) auto

lemma first_allows_all:
  assumes "\<forall>a \<in> set xs. isAllow a"
  shows "first_allows P n xs \<longleftrightarrow> (\<exists>a \<in> set xs. P a \<and> bit (amask a) n)"
  using assms by (induction xs) auto

lemma first_allows_deny:
  assumes "\<forall>a \<in> set xs. \<not> isAllow a"
  shows "\<not> first_allows P n xs"
  using assms by (induction xs) auto

lemma allowedToWho_isolated:
  assumes l: "ace_list acl = L0 @ A @ D @ [e]" and wf: "\<forall>a \<in> set (ace_list acl). wf_ace a"
    and L0: "\<forall>a \<in> set L0. isInheritOnly a"
    and A: "\<forall>a \<in> set A. isAllow a \<and> \<not> isEveryone a \<and> (isSameIdentifier a who \<longrightarrow> amask a = m)"
    and D: "\<forall>d \<in> set D. \<not> isAllow d \<and> \<not> isInheritOnly d \<and> \<not> isEveryone d \<and> (isSameIdentifier d who \<longrightarrow> amask d = amask e AND NOT m)"
    and e: "isEveryone e" "isAllow e" "\<not> isInheritOnly e"
    and w: "\<exists>a \<in> set A. \<not> isInheritOnly a \<and> isSameIdentifier a who"
    and d: "amask e AND NOT m \<noteq> 0 \<Longrightarrow> \<exists>d \<in> set D. isSameIdentifier d who"
  shows "allowedToWho who acl = m"
proof (rule bit_word_eqI)
  fix n
  let ?P = "\<lambda>a. \<not> isInheritOnly a \<and> (isSameIdentifier a who \<or> isEveryone a)"
  have "first_allows ?P n (ace_list acl) \<longleftrightarrow> first_allows ?P n (A @ D @ [e])"
    unfolding l first_allows_append [of _ _ L0] using L0 by auto
  also have "\<dots> \<longleftrightarrow> bit m n"
  proof (cases "bit m n")
    case True
    then have "\<exists>a \<in> set A. ?P a \<and> bit (amask a) n" using w A by blast
    then show ?thesis using True A first_allows_all [of A ?P n] by (simp add: first_allows_append)
  next
    case False
    then have nA: "\<not> (\<exists>a \<in> set A. ?P a \<and> bit (amask a) n)" using A by blast
    show ?thesis
    proof (cases "bit (amask e) n")
      case True
      then have b: "bit (amask e AND NOT m) n" using False by (simp add: bit_andnot)
      then have "amask e AND NOT m \<noteq> 0" by auto
      then have "\<exists>a \<in> set D. ?P a \<and> bit (amask a) n" using d D b by metis
      then have "first_allows ?P n (A @ D @ [e]) = first_allows ?P n D"
        unfolding first_allows_append [of _ _ A] first_allows_append [of _ _ D] if_not_P [OF nA] by simp
      then show ?thesis using False first_allows_deny [of D ?P n] D by simp
    next
      case nb: False
      then have "\<not> (\<exists>a \<in> set D. ?P a \<and> bit (amask a) n)" using D by (metis bit_and_iff)
      then have "first_allows ?P n (A @ D @ [e]) = first_allows ?P n [e]"
        unfolding first_allows_append [of _ _ A] first_allows_append [of _ _ D] if_not_P [OF nA] by (rule if_not_P)
      then show ?thesis using False nb by simp
    qed
  qed
  finally show "bit (allowedToWho who acl) n = bit m n"
    using allowedToWho_bit [OF wf] by simp
qed

lemma amask_bound: "bit (amask a) n \<Longrightarrow> n < 21"
  by (auto simp: amask_def bit_ucast_iff dest: bit_imp_le_length)

lemma amask_denyAce: "amask (denyAce w (amask e AND NOT m)) = amask e AND NOT m"
  unfolding denyAce_def by (rule bit_word_eqI) (auto simp: amask_mkAce bit_and_iff dest: amask_bound)

text \<open>
  The list that \<open>appendPosixACL\<close> leaves: inherit-only entries, allow entries of different
  identifiers, the deny entries that isolate them, and the entry of everyone.
\<close>

definition posix_shape :: "Ace list \<Rightarrow> Ace list \<Rightarrow> Ace \<Rightarrow> Ace list \<Rightarrow> bool" where
  "posix_shape L0 A e l \<longleftrightarrow>
     (\<exists>D. l = L0 @ A @ D @ [e] \<and> set D = (\<Union>a \<in> set A. set (isolated (amask e) a))) \<and>
     (\<forall>a \<in> set L0. wf_ace a \<and> isInheritOnly a) \<and>
     (\<forall>a \<in> set A. wf_ace a \<and> isAllow a \<and> \<not> isInheritOnly a \<and> \<not> isEveryone a) \<and> sorted_wrt separate A \<and>
     wf_ace e \<and> isEveryone e \<and> isAllow e \<and> \<not> isInheritOnly e"

lemma sorted_separate_unique:
  assumes "sorted_wrt separate A" "a \<in> set A" "b \<in> set A" "\<not> isInheritOnly a" "\<not> isInheritOnly b" "isSameIdentifier a b"
  shows "a = b"
  using assms by (induction A) (auto simp: separate_def dest: same_sym)

lemma wf_same: "isSameIdentifier d a \<Longrightarrow> wf_ace a \<Longrightarrow> isDeny d \<Longrightarrow> wf_ace d"
  by (simp only: wf_ace_def isSameIdentifier_bits ace_flag_bits) simp

lemma isolatedD:
  assumes "d \<in> set (isolated (amask e) a)"
  shows "isSameIdentifier d a" "isDeny d" "\<not> isAllow d" "\<not> isInheritOnly d" "amask d = amask e AND NOT (amask a)"
  using assms denyAce_props [of a "amask e AND NOT (amask a)"] amask_denyAce [of a e "amask a"]
  by (auto simp: isolated_def split: if_splits)

lemma posix_shape_wf:
  assumes "posix_shape L0 A e l"
  shows "\<forall>a \<in> set l. wf_ace a"
proof -
  have "wf_ace d" if "a \<in> set A" "d \<in> set (isolated (amask e) a)" for a d
    using wf_same [OF isolatedD(1) _ isolatedD(2), OF that(2) _ that(2)] that(1) assms by (auto simp: posix_shape_def)
  then show ?thesis using assms unfolding posix_shape_def by auto
qed

lemma allowedToWho_member:
  assumes sh: "posix_shape L0 A e (ace_list acl)" and a: "a \<in> set A" and w: "isSameIdentifier a who"
  shows "allowedToWho who acl = amask a"
proof -
  obtain D where D: "ace_list acl = L0 @ A @ D @ [e]" "set D = (\<Union>a \<in> set A. set (isolated (amask e) a))"
    using sh by (auto simp: posix_shape_def)
  note S = sh [unfolded posix_shape_def]
  have u: "b = a" if "b \<in> set A" "isSameIdentifier b who" for b
    using sorted_separate_unique [of A b a] S a that same_trans [OF that(2) same_sym [OF w]] by blast
  show ?thesis
  proof (rule allowedToWho_isolated [OF D(1) posix_shape_wf [OF sh]])
    show "\<forall>d \<in> set D. \<not> isAllow d \<and> \<not> isInheritOnly d \<and> \<not> isEveryone d \<and>
        (isSameIdentifier d who \<longrightarrow> amask d = amask e AND NOT (amask a))"
    proof
      fix d assume "d \<in> set D"
      then obtain b where b: "b \<in> set A" "d \<in> set (isolated (amask e) b)" using D(2) by blast
      note d = isolatedD [OF b(2)]
      have "\<not> isEveryone d" using same_everyone [OF d(1)] b(1) S by blast
      moreover have "b = a" if "isSameIdentifier d who"
        using u [OF b(1) same_trans [OF same_sym [OF d(1)] that]] .
      ultimately show "\<not> isAllow d \<and> \<not> isInheritOnly d \<and> \<not> isEveryone d \<and>
        (isSameIdentifier d who \<longrightarrow> amask d = amask e AND NOT (amask a))" using d by blast
    qed
    show "\<exists>d \<in> set D. isSameIdentifier d who" if "amask e AND NOT (amask a) \<noteq> 0"
    proof -
      have "denyAce a (amask e AND NOT (amask a)) \<in> set D" unfolding D(2) using a that by (auto simp: isolated_def)
      then show ?thesis using same_trans [OF denyAce_props(1) w] by blast
    qed
  qed (use S a w u in auto)
qed

lemma allowedToWho_everyone:
  assumes sh: "posix_shape L0 A e (ace_list acl)" and w: "isEveryone who"
  shows "allowedToWho who acl = amask e"
proof (rule bit_word_eqI)
  fix n
  obtain D where D: "ace_list acl = L0 @ A @ D @ [e]" "set D = (\<Union>a \<in> set A. set (isolated (amask e) a))"
    using sh by (auto simp: posix_shape_def)
  note S = sh [unfolded posix_shape_def]
  let ?P = "\<lambda>a. \<not> isInheritOnly a \<and> (isSameIdentifier a who \<or> isEveryone a)"
  have "\<not> ?P d" if d: "d \<in> set (L0 @ A @ D)" for d
  proof -
    consider "d \<in> set L0" | "d \<in> set A" | a where "a \<in> set A" "d \<in> set (isolated (amask e) a)"
      using d unfolding set_append D(2) by blast
    then have "isInheritOnly d \<or> \<not> isEveryone d"
      by cases (use S same_everyone isolatedD(1) in blast)+
    then show ?thesis using same_everyone [of d who] w by blast
  qed
  then have "first_allows ?P n ((L0 @ A @ D) @ [e]) = first_allows ?P n [e]"
    unfolding first_allows_append [of _ _ "L0 @ A @ D"] by auto
  then show "bit (allowedToWho who acl) n = bit (amask e) n"
    using S unfolding allowedToWho_bit [OF posix_shape_wf [OF sh]] D(1) by simp
qed

subsection \<open>What a POSIX list becomes\<close>

lemma bit_rightsMask: "bit (rightsMask is_dir r) n \<Longrightarrow> n < 21"
  unfolding rightsMask_def bit_andnot bit_convertMode2Mask by auto

lemma amask_rights [simp]: "amask (mkAce t f (rightsMask is_dir r) i) = rightsMask is_dir r"
  by (rule bit_word_eqI) (auto simp: amask_mkAce dest: bit_rightsMask)

lemma small_bits: "r \<le> 7 \<Longrightarrow> bit r n \<Longrightarrow> n < 3" for r :: "4 word"
proof -
  assume r: "r \<le> 7" and b: "bit r n"
  have "unat r < 2 ^ 3" using r by (simp add: word_le_nat_alt)
  then have "unat (take_bit 3 r) = unat r" by (simp add: unsigned_take_bit_eq take_bit_nat_eq_self)
  then have "take_bit 3 r = r" by (rule unsigned_word_eqI)
  then show ?thesis using b bit_take_bit_iff by metis
qed

lemma rightsMask_mode:
  assumes "r \<le> 7"
  shows "convertMask2Mode (rightsMask is_dir r) = ucast r"
proof -
  have "(ucast r :: 16 word) AND 7 = ucast r"
  proof (rule bit_word_eqI)
    fix n
    show "bit ((ucast r :: 16 word) AND 7) n = bit (ucast r :: 16 word) n"
      using small_bits [OF assms] by (auto simp: bit_and_7 bit_ucast_iff)
  qed
  then show ?thesis unfolding rightsMask_def mask_mode_inverse .
qed

lemma ucast_rightsMask: "r \<le> 7 \<Longrightarrow> ucast (convertMask2Mode (rightsMask is_dir r)) = (r :: 4 word)"
  unfolding rightsMask_mode by (rule bit_word_eqI) (simp add: bit_ucast_iff)

definition namedAce :: "bool \<Rightarrow> Entry \<Rightarrow> Ace" where
  "namedAce is_dir e = mkAce kAccessAllowedAceType (if entry_type e = kNamedUser then 0 else kIdentifierGroup)
     (rightsMask is_dir (access_rights e)) (entry_id e)"

lemma concat_namedAces:
  "\<forall>e \<in> set es. named (entry_type e) \<Longrightarrow> concat (map (namedAces is_dir) es) = map (namedAce is_dir) es"
  by (induction es) (auto simp: namedAces_def namedAce_def named_def)

lemmas ace_consts = isAllow_def isDeny_def isOwner_def isGroup_def isEveryone_def isUnixUser_def isUnixGroup_def
  isInheritOnly_def mkAce_def kSpecialWho_def kIdentifierGroup_def kInheritOnlyAce_def kAccessAllowedAceType_def
  kAccessDeniedAceType_def kOwnerSpecialId_def kGroupSpecialId_def kEveryoneSpecialId_def

abbreviation ownerAce :: "32 word \<Rightarrow> Ace" where "ownerAce m \<equiv> mkAce kAccessAllowedAceType kSpecialWho m kOwnerSpecialId"
abbreviation groupAce :: "32 word \<Rightarrow> Ace" where "groupAce m \<equiv> mkAce kAccessAllowedAceType kSpecialWho m kGroupSpecialId"
abbreviation everyoneAce :: "32 word \<Rightarrow> Ace" where "everyoneAce m \<equiv> mkAce kAccessAllowedAceType kSpecialWho m kEveryoneSpecialId"

lemma special_ace:
  "isAllow (mkAce kAccessAllowedAceType f m i)" "\<not> isDeny (mkAce kAccessAllowedAceType f m i)"
  "\<not> isInheritOnly (mkAce t kSpecialWho m i)"
  "isOwner (mkAce t kSpecialWho m i) \<longleftrightarrow> i = kOwnerSpecialId" "isGroup (mkAce t kSpecialWho m i) \<longleftrightarrow> i = kGroupSpecialId"
  "isEveryone (mkAce t kSpecialWho m i) \<longleftrightarrow> i = kEveryoneSpecialId"
  "\<not> isUnixUser (mkAce t kSpecialWho m i)" "\<not> isUnixGroup (mkAce t kSpecialWho m i)"
  "kOwnerSpecialId \<noteq> kGroupSpecialId" "kOwnerSpecialId \<noteq> kEveryoneSpecialId" "kGroupSpecialId \<noteq> kEveryoneSpecialId"
  by (simp_all add: ace_consts)

lemma named_ace:
  "isAllow (namedAce d e)" "\<not> isDeny (namedAce d e)" "\<not> isInheritOnly (namedAce d e)" "\<not> isOwner (namedAce d e)"
  "\<not> isGroup (namedAce d e)" "\<not> isEveryone (namedAce d e)" "isUnixUser (namedAce d e) \<longleftrightarrow> entry_type e = kNamedUser"
  "isUnixGroup (namedAce d e) \<longleftrightarrow> entry_type e \<noteq> kNamedUser" "ace_id (namedAce d e) = entry_id e"
  "amask (namedAce d e) = rightsMask d (access_rights e)" "wf_ace (namedAce d e)"
  by (simp_all add: namedAce_def) (simp_all add: ace_consts wf_ace_def)

lemma named_same:
  assumes "named (entry_type a)" "named (entry_type b)"
  shows "isSameIdentifier (namedAce d a) (namedAce d b) \<longleftrightarrow> entry_type a = entry_type b \<and> entry_id a = entry_id b"
  using assms by (auto simp: isSameIdentifier_def namedAce_def mkAce_def named_def kIdentifierGroup_def kSpecialWho_def)

lemma special_same:
  "isSameIdentifier (mkAce t kSpecialWho m i) (mkAce t' kSpecialWho m' i') \<longleftrightarrow> i = i'"
  "\<not> isSameIdentifier (mkAce t kSpecialWho m i) (namedAce d e)" "\<not> isSameIdentifier (namedAce d e) (mkAce t kSpecialWho m i)"
  by (simp_all add: isSameIdentifier_def namedAce_def mkAce_def kIdentifierGroup_def kSpecialWho_def)

lemma named_separate:
  assumes "wf_entries es"
  shows "sorted_wrt separate (map (namedAce d) es)"
proof -
  have "sorted_wrt (\<lambda>a b. separate (namedAce d a) (namedAce d b)) es"
  proof (rule sorted_wrt_mono_rel)
    show "sorted_wrt (\<lambda>a b. key_less (entry_key a) (entry_key b)) es" using assms by (simp add: wf_entries_def)
    fix a b assume "a \<in> set es" "b \<in> set es" "key_less (entry_key a) (entry_key b)"
    then show "separate (namedAce d a) (namedAce d b)"
      using assms by (auto simp: separate_def named_same wf_entries_def named_ace entry_key_eq [symmetric])
  qed
  then show ?thesis by (simp add: sorted_wrt_map)
qed

definition posixAces :: "bool \<Rightarrow> AccessControlList \<Rightarrow> Ace list" where
  "posixAces is_dir p = [ownerAce (rightsMask is_dir (getOwnerRights p)), groupAce (rightsMask is_dir (getGroupRights p))] @
     map (namedAce is_dir) (acl_entries p)"

lemma posixAces_separate:
  assumes "wf_entries (acl_entries p)"
  shows "sorted_wrt separate (posixAces is_dir p)"
  using named_separate [OF assms] by (auto simp: posixAces_def separate_def special_same special_ace(9))

lemma denyAce_who: "ace_flags a = ace_flags b \<Longrightarrow> ace_id a = ace_id b \<Longrightarrow> denyAce a d = denyAce b d"
  by (simp add: denyAce_def)

lemma isolated_fresh:
  assumes l: "ace_list acl = P @ a # Q @ [e]" and a: "isSameIdentifier a w" "\<not> isInheritOnly a" "\<not> isDeny a"
    and PQ: "\<forall>b \<in> set (P @ Q @ [e]). separate b a" and w: "ace_flags w = ace_flags a" "ace_id w = ace_id a"
  shows "isolateWho w em acl = acl\<lparr>ace_list := P @ a # Q @ isolated em a @ [e]\<rparr>"
proof -
  have "\<forall>b \<in> set P. isInheritOnly b \<or> \<not> isSameIdentifier b w" "\<forall>b \<in> set (Q @ [e]). isInheritOnly b \<or> \<not> isSameIdentifier b w"
    using PQ a same_trans [OF _ same_sym [OF a(1)]] unfolding separate_def by auto
  from isolateWho_fresh [OF l a this, of em] show ?thesis
    unfolding isolated_def denyAce_who [OF w] by simp
qed

lemma isolateGroupClass_step:
  assumes "ace_list acl \<noteq> []" "isEveryone (last (ace_list acl))" "\<not> isInheritOnly (last (ace_list acl))"
    "amask (last (ace_list acl)) = em" "em \<noteq> 0"
  shows "isolateGroupClass em acl =
    isolate_down (length (ace_list (isolateWho groupWho em acl)) - 1) em (isolateWho groupWho em acl)"
proof -
  have "em OR (em AND NOT g) = em" for g :: "32 word"
    by (rule bit_word_eqI) (auto simp: bit_or_iff bit_andnot)
  then show ?thesis
    using assms unfolding isolateGroupClass_def Let_def groupWho_def by simp
qed

lemma sorted_wrt_all: "(\<And>a b. a \<in> set xs \<Longrightarrow> b \<in> set xs \<Longrightarrow> R a b) \<Longrightarrow> sorted_wrt R xs"
  by (induction xs) auto

lemma isolated_0 [simp]: "isolated 0 a = []"
  by (simp add: isolated_def)

lemma isolated_who:
  "d \<in> set (isolated em a) \<Longrightarrow> isOwner d = isOwner a \<and> isGroup d = isGroup a \<and> isSameIdentifier d a"
  using denyAce_props(1) [of a "em AND NOT (amask a)"]
  by (auto simp: isolated_def who_bits isSameIdentifier_bits split: if_splits)

lemma isolated_sep: "\<not> isInheritOnly a \<Longrightarrow> separate b a \<Longrightarrow> d \<in> set (isolated em a) \<Longrightarrow> separate d b"
  using isolated_separate separate_sym by blast


lemma isolate_class:
  assumes l: "ace_list acl = L0 @ ow # gr # N @ [e]" and L0: "\<forall>a \<in> set L0. isInheritOnly a"
    and sep: "sorted_wrt separate (ow # gr # N @ [e])" and N: "\<forall>a \<in> set N. member a \<and> \<not> isDeny a"
    and ow: "\<not> isInheritOnly ow" "\<not> isDeny ow" "isOwner ow" "isSameIdentifier ow ownerWho"
      "ace_flags ownerWho = ace_flags ow" "ace_id ownerWho = ace_id ow"
    and gr: "\<not> isInheritOnly gr" "\<not> isDeny gr" "isGroup gr" "isSameIdentifier gr groupWho"
      "ace_flags groupWho = ace_flags gr" "ace_id groupWho = ace_id gr"
    and e: "isEveryone e" "\<not> isInheritOnly e" "amask e = em" "em \<noteq> 0"
  shows "ace_list (isolateGroupClass em (isolateWho ownerWho em acl)) =
    L0 @ ow # gr # N @ isolated em ow @ isolated em gr @ concat (map (isolated em) (rev N)) @ [e]"
proof -
  have io: "separate a b" "separate b a" if "a \<in> set L0" for a b using L0 that by (simp_all add: separate_def)
  have so: "\<forall>b \<in> set (L0 @ (gr # N) @ [e]). separate b ow" using sep io separate_sym by auto
  have sg: "\<forall>b \<in> set (ow # N @ [e]). separate b gr" using sep separate_sym by auto
  have so': "\<forall>b \<in> set (isolated em ow). separate b gr" "\<forall>b \<in> set (isolated em ow @ isolated em gr). \<forall>a \<in> set (N @ [e]). separate a b"
  proof -
    have "separate a b" if "a \<in> set (N @ [e])" "b \<in> set (isolated em ow) \<or> b \<in> set (isolated em gr)" for a b
      using that so sg isolated_separate [of b em ow a] isolated_separate [of b em gr a] ow(1) gr(1) by auto
    moreover have "separate b gr" if "b \<in> set (isolated em ow)" for b
      using that so isolated_separate [of b em ow gr] ow(1) separate_sym [of gr b] by auto
    ultimately show "\<forall>b \<in> set (isolated em ow). separate b gr"
      "\<forall>b \<in> set (isolated em ow @ isolated em gr). \<forall>a \<in> set (N @ [e]). separate a b" by auto
  qed
  define a1 where "a1 = acl\<lparr>ace_list := L0 @ ow # gr # N @ isolated em ow @ [e]\<rparr>"
  have 1: "isolateWho ownerWho em acl = a1"
    using isolated_fresh [of acl L0 ow "gr # N" e, OF _ ow(4,1,2) so ow(5,6)] l by (simp add: a1_def)
  let ?P = "L0 @ ow # gr # N @ isolated em ow @ isolated em gr"
  define a2 where "a2 = acl\<lparr>ace_list := ?P @ [] @ [e]\<rparr>"
  have "\<forall>b \<in> set ((L0 @ [ow]) @ (N @ isolated em ow) @ [e]). separate b gr" using sg so' io by auto
  then have 2: "isolateWho groupWho em a1 = a2"
    using isolated_fresh [of a1 "L0 @ [ow]" gr "N @ isolated em ow" e, OF _ gr(4,1,2) _ gr(5,6)]
    by (simp add: a1_def a2_def)
  have nm: "\<not> member d" if "d \<in> set (isolated em ow @ isolated em gr)" for d
    using that isolated_who ow(3) gr(3) unfolding member_def set_append by blast
  have ng: "\<not> member ow" "\<not> member gr" using ow(3) gr(3) by (simp_all add: member_def)
  have m: "filter member ?P = N"
    using nm N L0 ow(3) gr(3) by (auto simp: member_def filter_empty_conv intro!: filter_True)
  have "isolate_down (length ?P) em a2 = a2\<lparr>ace_list := ?P @ [] @ concat (map (isolated em) (rev (filter member ?P))) @ [e]\<rparr>"
  proof (rule isolate_down_members)
    let ?R = "\<lambda>a b. member a \<or> member b \<longrightarrow> separate a b"
    have "sorted_wrt ?R L0" "sorted_wrt ?R (isolated em ow @ isolated em gr)"
      using io nm by (auto intro!: sorted_wrt_all)
    moreover have "sorted_wrt ?R (ow # gr # N)"
      by (rule sorted_wrt_mono_rel [of _ separate]) (use sep in \<open>auto simp: sorted_wrt_append\<close>)
    moreover have "?R a b" if "a \<in> set (ow # gr # N)" "b \<in> set (isolated em ow @ isolated em gr)" for a b
      using that nm ng so'(2) by auto
    ultimately have "sorted_wrt ?R (L0 @ (ow # gr # N) @ isolated em ow @ isolated em gr)"
      using io unfolding sorted_wrt_append [of _ L0] sorted_wrt_append [of _ "ow # gr # N"] by blast
    then show "sorted_wrt ?R ?P" by simp
    show "\<forall>a \<in> set ?P. member a \<longrightarrow> \<not> isDeny a \<and> (\<forall>b \<in> set ([] @ [e]). separate a b)"
      using N nm ng so sg sep L0 by (auto simp: sorted_wrt_append member_def)
  qed (simp add: a2_def)
  moreover have "isolateGroupClass em a1 = isolate_down (length ?P) em a2"
    using isolateGroupClass_step [of a1 em] e unfolding 2 by (simp add: a1_def a2_def)
  ultimately show ?thesis unfolding 1 m by (simp add: a2_def)
qed

lemma isolateWho_fields:
  "owner_mask (isolateWho w d acl) = owner_mask acl" "group_mask (isolateWho w d acl) = group_mask acl"
  "other_mask (isolateWho w d acl) = other_mask acl" "acl_flags (isolateWho w d acl) = acl_flags acl"
  by (simp_all add: isolateWho_def Let_def split: option.splits)

lemma isolate_down_fields:
  "acl_flags (isolate_down i d acl) = acl_flags acl"
  by (induction i arbitrary: acl) (simp_all add: isolateWho_fields Let_def)

lemma isolateGroupClass_flags: "acl_flags (isolateGroupClass d acl) = acl_flags acl"
  by (simp add: isolateGroupClass_def Let_def isolate_down_fields isolateWho_fields)

lemma wf_special: "i \<in> {kOwnerSpecialId, kGroupSpecialId, kEveryoneSpecialId} \<Longrightarrow> wf_ace (mkAce kAccessAllowedAceType f m i)"
  unfolding wf_ace_def by (simp add: special_ace(1)) (simp add: mkAce_def)

lemma fold_zero:
  "fold (\<lambda>ace d. if \<not> isInheritOnly ace \<and> isSameIdentifier ace w then d AND NOT (amask ace) else d) as 0 = 0"
  by (induction as) auto

lemma posixAces_shape:
  assumes wf: "wf_entries (acl_entries p)" and L0: "\<forall>a \<in> set L0. wf_ace a \<and> isInheritOnly a"
    and l: "ace_list acl = L0 @ posixAces is_dir p @ [everyoneAce (rightsMask is_dir r)]"
  shows "posix_shape L0 (posixAces is_dir p) (everyoneAce (rightsMask is_dir r))
    (ace_list (isolateGroupClass (rightsMask is_dir r) (isolateWho ownerWho (rightsMask is_dir r) acl)))"
proof -
  define em where "em = rightsMask is_dir r"
  define e where "e = everyoneAce em"
  define ow where "ow = ownerAce (rightsMask is_dir (getOwnerRights p))"
  define gr where "gr = groupAce (rightsMask is_dir (getGroupRights p))"
  define N where "N = map (namedAce is_dir) (acl_entries p)"
  have A: "posixAces is_dir p = ow # gr # N" by (simp add: posixAces_def ow_def gr_def N_def)
  have fl: "\<not> isInheritOnly ow" "\<not> isDeny ow" "\<not> isInheritOnly gr" "\<not> isDeny gr" "isOwner ow" "isGroup gr"
    "isEveryone e" "\<not> isInheritOnly e" "isAllow e" "amask e = em"
    by (simp_all add: ow_def gr_def e_def em_def special_ace)
  have who: "isSameIdentifier ow ownerWho" "isSameIdentifier gr groupWho" "ace_flags ownerWho = ace_flags ow"
    "ace_id ownerWho = ace_id ow" "ace_flags groupWho = ace_flags gr" "ace_id groupWho = ace_id gr"
    by (simp_all add: ow_def gr_def ownerWho_def groupWho_def special_same) (simp_all add: mkAce_def)
  have sA: "sorted_wrt separate (ow # gr # N)" using posixAces_separate [OF wf, of is_dir] by (simp add: A)
  have "separate a e" if "a \<in> set (ow # gr # N)" for a
    using that by (auto simp: ow_def gr_def N_def e_def separate_def special_same special_ace)
  then have sep: "sorted_wrt separate (ow # gr # N @ [e])" using sA by (auto simp: sorted_wrt_append)
  have N: "\<forall>a \<in> set N. member a \<and> \<not> isDeny a" by (auto simp: N_def member_def named_ace)
  have le: "ace_list acl = L0 @ ow # gr # N @ [e]" using l by (simp add: A e_def em_def)
  obtain D where D: "ace_list (isolateGroupClass em (isolateWho ownerWho em acl)) = L0 @ (ow # gr # N) @ D @ [e]"
    "set D = (\<Union>a \<in> set (ow # gr # N). set (isolated em a))"
  proof (cases "em = 0")
    case True
    have "isolateWho ownerWho em acl = acl"
      unfolding True isolateWho_def Let_def by (simp add: fold_zero)
    moreover have "isolateGroupClass 0 acl = acl"
      using fl(10) True by (simp add: isolateGroupClass_def le)
    ultimately show ?thesis using that [of "[]"] le by (simp add: True)
  next
    case False
    have "ace_list (isolateGroupClass em (isolateWho ownerWho em acl)) =
      L0 @ (ow # gr # N) @ (isolated em ow @ isolated em gr @ concat (map (isolated em) (rev N))) @ [e]"
      using isolate_class [OF le _ sep N fl(1,2,5) who(1,3,4) fl(3,4,6) who(2,5,6) fl(7,8,10) False] L0 by simp
    then show ?thesis by (rule that) auto
  qed
  moreover have "wf_ace a \<and> isAllow a \<and> \<not> isInheritOnly a \<and> \<not> isEveryone a" if "a \<in> set (ow # gr # N)" for a
    using that by (auto simp: ow_def gr_def N_def named_ace special_ace wf_special)
  moreover have "wf_ace e" by (simp add: e_def wf_special)
  ultimately show ?thesis
    unfolding posix_shape_def A em_def [symmetric] e_def [symmetric] fl(10) using L0 sA fl by blast
qed

lemma convert_named:
  assumes "wf_entries (acl_entries q @ es)"
    and "\<forall>e \<in> set es. allowedToWho (namedAce d e) acl = rightsMask d (access_rights e)"
  shows "fold (convert_step acl) (map (namedAce d) es) q = q\<lparr>acl_entries := acl_entries q @ es\<rparr>"
  using assms
proof (induction es arbitrary: q)
  case (Cons e es)
  have n: "named (entry_type e)" "access_rights e \<le> 7" using Cons.prems(1) by (auto simp: wf_entries_def)
  have "convert_step acl (namedAce d e) q = q\<lparr>acl_entries := acl_entries q @ [e]\<rparr>"
    using next_entry [OF Cons.prems(1)] n Cons.prems(2) ucast_rightsMask [OF n(2), of d]
    by (auto simp: convert_step_def named_ace named_def)
  then show ?case using Cons.IH [of "q\<lparr>acl_entries := acl_entries q @ [e]\<rparr>"] Cons.prems by simp
qed simp

lemma fold_same: "(\<And>a. a \<in> set as \<Longrightarrow> f a q = q) \<Longrightarrow> fold f as q = q"
  by (induction as) auto

lemma same_owner: "isSameIdentifier a b \<Longrightarrow> isOwner a = isOwner b \<and> isGroup a = isGroup b"
  by (auto simp: isSameIdentifier_bits who_bits)

lemma convert_found:
  assumes "wf_entries (acl_entries q)" "e \<in> set (acl_entries q)" "isSameIdentifier a (namedAce d e)"
  shows "convert_step acl a q = q"
proof -
  let ?P = "\<lambda>x. entry_type x = entry_type e \<and> entry_id x = entry_id e"
  have n: "named (entry_type e)" using assms(1,2) by (auto simp: wf_entries_def)
  obtain x where x: "List.find ?P (acl_entries q) = Some x"
    using assms(2) by (cases "List.find ?P (acl_entries q)") (auto simp: find_None_iff)
  then have "?P x" by (auto simp: find_Some_iff)
  then have "entry_type (getEntry (entry_type e) (entry_id e) q) \<noteq> kInvalid"
    using n x getNamed_find [OF assms(1), of "entry_type e" "entry_id e"] by (auto simp: getEntry_def named_def find_named_def)
  moreover have "isUnixUser a = isUnixUser (namedAce d e)" "isUnixGroup a = isUnixGroup (namedAce d e)"
      "ace_id a = entry_id e"
    using assms(3) named_ace(9) [of d e] by (auto simp: isSameIdentifier_bits who_bits)
  ultimately show ?thesis using n by (auto simp: convert_step_def named_ace named_def)
qed

lemma convert_fold:
  assumes wf: "wf_entries (acl_entries p)" and sh: "posix_shape L0 (posixAces d p) (everyoneAce em) (ace_list acl)"
    and q: "acl_entries q = []"
  shows "fold (convert_step acl) (ace_list acl) q = q\<lparr>acl_entries := acl_entries p\<rparr>"
proof -
  define q' where "q' = q\<lparr>acl_entries := acl_entries p\<rparr>"
  obtain D where D: "ace_list acl = L0 @ posixAces d p @ D @ [everyoneAce em]"
      "set D = (\<Union>a \<in> set (posixAces d p). set (isolated (amask (everyoneAce em)) a))"
    using sh unfolding posix_shape_def by (elim conjE exE)
  have 1: "fold (convert_step acl) L0 q = q"
    by (rule fold_same) (use sh in \<open>simp add: posix_shape_def convert_step_def\<close>)
  have al: "\<forall>e \<in> set (acl_entries p). allowedToWho (namedAce d e) acl = rightsMask d (access_rights e)"
    using allowedToWho_member [OF sh _ same_refl] by (auto simp: posixAces_def named_ace)
  have 2: "fold (convert_step acl) (posixAces d p) q = q'"
    using convert_named [of q "acl_entries p" d acl] wf q al
    by (simp add: posixAces_def q'_def) (simp add: convert_step_def special_ace)
  have 3: "fold (convert_step acl) (D @ [everyoneAce em]) q' = q'"
  proof (rule fold_same)
    fix a assume a: "a \<in> set (D @ [everyoneAce em])"
    consider (e) "a = everyoneAce em" | (b) b where "b \<in> set (posixAces d p)" "isSameIdentifier a b"
    proof -
      have "isSameIdentifier a b" if "a \<in> set (isolated (amask (everyoneAce em)) b)" for b
        using isolated_who [OF that] by blast
      then show ?thesis using a that D(2) by auto
    qed
    then show "convert_step acl a q' = q'"
    proof cases
      case b
      then consider (s) "isOwner a \<or> isGroup a" | (n) x where "x \<in> set (acl_entries p)" "b = namedAce d x"
        using same_owner [OF b(2)] by (auto simp: posixAces_def special_ace)
      then show ?thesis
      proof cases
        case s
        then show ?thesis by (auto simp: convert_step_def who_bits)
      next
        case n
        then show ?thesis using convert_found [of q' x a d acl] wf b(2) by (simp add: q'_def)
      qed
    qed (simp add: convert_step_def special_ace)
  qed
  show ?thesis unfolding D(1) q'_def [symmetric] fold_append comp_def 1 2 using 3 by simp
qed

lemma mode_parts:
  fixes a b c :: "4 word"
  assumes "a \<le> 7" "b \<le> 7" "c \<le> 7"
  defines "m \<equiv> push_bit 6 (ucast a) OR push_bit 3 (ucast b) OR (ucast c :: 16 word)"
  shows "ucast (m AND 7) = c" "ucast (drop_bit 3 m AND 7) = b" "ucast (drop_bit 6 m AND 7) = a"
proof -
  note s = small_bits [OF assms(1)] small_bits [OF assms(2)] small_bits [OF assms(3)]
  have w: "bit (ucast (x AND 7) :: 4 word) n \<longleftrightarrow> n < 3 \<and> bit x n" for x :: "16 word" and n
    by (auto simp: bit_ucast_iff bit_and_7)
  have m: "bit m n \<longleftrightarrow> 6 \<le> n \<and> bit a (n - 6) \<or> 3 \<le> n \<and> bit b (n - 3) \<or> bit c n" if "n < 16" for n
    using that unfolding m_def bit_or_iff by (auto simp: bit_push_bit_iff bit_ucast_iff)
  show "ucast (m AND 7) = c"
    by (rule bit_word_eqI) (use m s(3) in \<open>auto simp: w\<close>)
  show "ucast (drop_bit 3 m AND 7) = b"
    by (rule bit_word_eqI) (use m s(2,3) in \<open>auto simp: w bit_drop_bit_eq dest: s\<close>)
  show "ucast (drop_bit 6 m AND 7) = a"
    by (rule bit_word_eqI) (use m s in \<open>auto simp: w bit_drop_bit_eq dest: s\<close>)
qed

lemma posixSetMode_empty:
  assumes "a \<le> 7" "b \<le> 7" "c \<le> 7"
  defines "m \<equiv> push_bit 6 (ucast a) OR push_bit 3 (ucast b) OR (ucast c :: 16 word)"
  shows "acl_entries (posixSetMode m emptyPosixACL) = []" "getOwnerRights (posixSetMode m emptyPosixACL) = a"
    "getGroupRights (posixSetMode m emptyPosixACL) = b" "getOtherRights (posixSetMode m emptyPosixACL) = c"
    "getMaskRights (posixSetMode m emptyPosixACL) = kMaskUnset"
proof -
  have emp: "acl_entries emptyPosixACL = []" "getMaskRights emptyPosixACL = kMaskUnset"
    by (simp_all add: emptyPosixACL_def getMaskRights_def kMaskUnset_def)
  note p = mode_parts [OF assms(1-3), folded m_def]
  show "acl_entries (posixSetMode m emptyPosixACL) = []" "getOwnerRights (posixSetMode m emptyPosixACL) = a"
    "getGroupRights (posixSetMode m emptyPosixACL) = b" "getOtherRights (posixSetMode m emptyPosixACL) = c"
    "getMaskRights (posixSetMode m emptyPosixACL) = kMaskUnset"
    by (simp_all only: posixSetMode_def Let_def p rights_simps rights_entries emp simp_thms if_True)
qed

lemma allowedToWho_list: "ace_list a = ace_list b \<Longrightarrow> allowedToWho w a = allowedToWho w b"
  by (simp add: allowedToWho_def)

lemma append_extended:
  assumes wf: "wf_posix p" and L0: "\<forall>a \<in> set (ace_list acl). wf_ace a \<and> isInheritOnly a" and nm: "\<not> minimalAcl p"
    and r_def: "r = appendPosixACL p is_dir acl"
  shows "posix_shape (ace_list acl) (posixAces is_dir p) (everyoneAce (rightsMask is_dir (getOtherRights p))) (ace_list r)"
    and "owner_mask r = rightsMask is_dir (getOwnerRights p)" "other_mask r = rightsMask is_dir (getOtherRights p)"
    and "acl_flags r = (if getMaskRights p \<noteq> kMaskUnset then kMasked else 0)"
    and "getMaskRights p \<noteq> kMaskUnset \<Longrightarrow> group_mask r = rightsMask is_dir (getMaskRights p)"
proof -
  define em where "em = rightsMask is_dir (getOtherRights p)"
  define acl1 where "acl1 = acl\<lparr>acl_flags := 0, owner_mask := 0, group_mask := 0, other_mask := 0,
    ace_list := ace_list acl @ posixAces is_dir p @ [everyoneAce em]\<rparr>"
  define acl2 where "acl2 = isolateGroupClass em (isolateWho ownerWho em acl1)"
  have wfe: "wf_entries (acl_entries p)" using wf by (simp add: wf_posix_def)
  then have "\<forall>e \<in> set (acl_entries p). named (entry_type e)" by (simp add: wf_entries_def)
  then have acl1': "acl1 = acl\<lparr>acl_flags := 0, owner_mask := 0, group_mask := 0, other_mask := 0,
     ace_list := ace_list acl @ [ownerAce (rightsMask is_dir (getOwnerRights p)), groupAce (rightsMask is_dir (getGroupRights p))] @
       concat (map (namedAces is_dir) (acl_entries p)) @ [everyoneAce em]\<rparr>"
    by (simp add: acl1_def posixAces_def concat_namedAces)
  have r: "r = (let acl3 = acl2\<lparr>owner_mask := allowedToWho ownerWho acl2, group_mask := allowedToWho groupWho acl2,
                            other_mask := allowedToWho everyoneWho acl2\<rparr>
     in if getMaskRights p \<noteq> kMaskUnset
        then acl3\<lparr>group_mask := rightsMask is_dir (getMaskRights p), acl_flags := acl_flags acl3 OR kMasked\<rparr> else acl3)"
    using nm unfolding r_def appendPosixACL_def acl2_def acl1' em_def
    by (simp add: Let_def getEntry_def mkEntry_def invalidEntry_def)
  have f: "acl_flags acl2 = 0" by (simp add: acl2_def isolateGroupClass_flags isolateWho_fields acl1_def)
  have sh: "posix_shape (ace_list acl) (posixAces is_dir p) (everyoneAce em) (ace_list acl2)"
    unfolding acl2_def em_def by (rule posixAces_shape [OF wfe L0]) (simp add: acl1_def em_def)
  have o: "allowedToWho ownerWho acl2 = rightsMask is_dir (getOwnerRights p)"
    using allowedToWho_member [OF sh, of "ownerAce (rightsMask is_dir (getOwnerRights p))" ownerWho]
    by (simp add: posixAces_def ownerWho_def special_same)
  have e: "allowedToWho everyoneWho acl2 = em"
    using allowedToWho_everyone [OF sh, of everyoneWho] by (simp add: everyoneWho_def special_ace em_def)
  show "posix_shape (ace_list acl) (posixAces is_dir p) (everyoneAce (rightsMask is_dir (getOtherRights p))) (ace_list r)"
    "owner_mask r = rightsMask is_dir (getOwnerRights p)" "other_mask r = rightsMask is_dir (getOtherRights p)"
    "acl_flags r = (if getMaskRights p \<noteq> kMaskUnset then kMasked else 0)"
    "getMaskRights p \<noteq> kMaskUnset \<Longrightarrow> group_mask r = rightsMask is_dir (getMaskRights p)"
    using sh o e f unfolding r by (simp_all add: Let_def em_def)
qed

lemma masked_flags:
  "isMasked acl \<longleftrightarrow> acl_flags acl AND kMasked \<noteq> 0" "isWriteThrough acl \<longleftrightarrow> acl_flags acl AND kWriteThrough \<noteq> 0"
  "kMasked AND kMasked \<noteq> 0" "kMasked AND kWriteThrough = 0" "(kMasked OR kWriteThrough) AND kMasked \<noteq> 0"
  "(kMasked OR kWriteThrough) AND kWriteThrough \<noteq> 0"
  by (simp_all add: isMasked_def isWriteThrough_def kMasked_def kWriteThrough_def)

lemma convert_minimal:
  assumes wf: "wf_posix p" and L0: "\<forall>a \<in> set (ace_list acl). isInheritOnly a" and m: "minimalAcl p"
  shows "convertToPosixACL (appendPosixACL p is_dir acl) = (True, p)"
proof -
  define r where "r = appendPosixACL p is_dir acl"
  have r: "owner_mask r = rightsMask is_dir (getOwnerRights p)" "group_mask r = rightsMask is_dir (getGroupRights p)"
    "other_mask r = rightsMask is_dir (getOtherRights p)" "acl_flags r = kMasked OR kWriteThrough" "ace_list r = ace_list acl"
    using m by (simp_all add: r_def appendPosixACL_def Let_def getEntry_def mkEntry_def)
  have w: "getOwnerRights p \<le> 7" "getGroupRights p \<le> 7" "getOtherRights p \<le> 7" using wf by (simp_all add: wf_posix_def)
  have mw: "isMasked r" "isWriteThrough r" unfolding masked_flags(1,2) r(4) by (rule masked_flags(5,6))+
  have ng: "\<not> hasGroupEntry r" using L0 by (auto simp: hasGroupEntry_def list_ex_iff r)
  have fold: "fold (convert_step r) (ace_list r) q = q" for q
    by (rule fold_same) (use L0 in \<open>simp add: convert_step_def r\<close>)
  have "convertToPosixACL r = (True, posixSetMode (push_bit 6 (ucast (getOwnerRights p)) OR
      push_bit 3 (ucast (getGroupRights p)) OR ucast (getOtherRights p)) emptyPosixACL)"
    unfolding convertToPosixACL_def Let_def fold using ng mw by (simp add: r rightsMask_mode w)
  moreover have "posixSetMode (push_bit 6 (ucast (getOwnerRights p)) OR push_bit 3 (ucast (getGroupRights p)) OR
      ucast (getOtherRights p)) emptyPosixACL = p"
    by (rule posix_eqI) (use m posixSetMode_empty [OF w] in \<open>simp_all add: minimalAcl_def\<close>)
  ultimately show ?thesis by (simp add: r_def)
qed

lemma convert_extended:
  assumes wf: "wf_posix p" and L0: "\<forall>a \<in> set (ace_list acl). wf_ace a \<and> isInheritOnly a" and nm: "\<not> minimalAcl p"
  shows "convertToPosixACL (appendPosixACL p is_dir acl) = (True, p)"
proof -
  define r where "r = appendPosixACL p is_dir acl"
  note r = append_extended [OF wf L0 nm r_def]
  let ?ow = "ownerAce (rightsMask is_dir (getOwnerRights p))" and ?gr = "groupAce (rightsMask is_dir (getGroupRights p))"
  have w: "getOwnerRights p \<le> 7" "getGroupRights p \<le> 7" "getOtherRights p \<le> 7"
    and wfe: "wf_entries (acl_entries p)" and mk: "getMaskRights p = kMaskUnset \<or> getMaskRights p \<le> 7"
    using wf by (simp_all add: wf_posix_def)
  have mem: "?ow \<in> set (posixAces is_dir p)" "?gr \<in> set (posixAces is_dir p)" by (simp_all add: posixAces_def)
  have o: "allowedToWho ownerWho r = rightsMask is_dir (getOwnerRights p)"
    using allowedToWho_member [OF r(1) mem(1), of ownerWho] by (simp add: ownerWho_def special_same)
  have g: "allowedToWho groupWho r = rightsMask is_dir (getGroupRights p)"
    using allowedToWho_member [OF r(1) mem(2), of groupWho] by (simp add: groupWho_def special_same)
  have e: "allowedToWho everyoneWho r = rightsMask is_dir (getOtherRights p)"
    using allowedToWho_everyone [OF r(1), of everyoneWho] by (simp add: everyoneWho_def special_ace)
  have "?gr \<in> set (ace_list r)" using r(1) mem(2) unfolding posix_shape_def by fastforce
  then have hg: "hasGroupEntry r" unfolding hasGroupEntry_def list_ex_iff by (auto intro!: bexI [of _ ?gr] simp: special_ace)
  have ne: "ace_list r \<noteq> []" using r(1) by (auto simp: posix_shape_def)
  have ms: "isMasked r \<longleftrightarrow> getMaskRights p \<noteq> kMaskUnset" "\<not> isWriteThrough r"
    unfolding masked_flags(1,2) r(4) using masked_flags(3,4) by simp_all
  let ?m = "push_bit 6 (ucast (getOwnerRights p)) OR push_bit 3 (ucast (getGroupRights p)) OR (ucast (getOtherRights p) :: 16 word)"
  note sm = posixSetMode_empty [OF w]
  let ?q = "(posixSetMode ?m emptyPosixACL)\<lparr>acl_entries := acl_entries p\<rparr>"
  have "convertToPosixACL r = (True, if getMaskRights p \<noteq> kMaskUnset
      then setEntry kMask 0 (ucast (convertMask2Mode (group_mask r))) ?q else ?q)"
    using ne ms hg unfolding convertToPosixACL_def Let_def o g e r(2,3)
    by (simp add: rightsMask_mode w convert_fold [OF wfe r(1) sm(1)])
  also have "\<dots> = (True, p)"
  proof (cases "getMaskRights p = kMaskUnset")
    case True
    have "?q = p" by (rule posix_eqI) (simp_all add: sm True)
    then show ?thesis using True by simp
  next
    case False
    then have "ucast (convertMask2Mode (group_mask r)) = getMaskRights p" using r(5) mk by (simp add: ucast_rightsMask)
    moreover have "setMaskRights (getMaskRights p) ?q = p" by (rule posix_eqI) (simp_all add: sm)
    ultimately show ?thesis using False by (simp add: setEntry_def)
  qed
  finally show ?thesis by (simp add: r_def)
qed

section \<open>Properties\<close>

text \<open>
  C26. Storing a POSIX list as a RichACL and reading it back as a POSIX list gives the same list, for
  files and directories, minimal or not, whatever inherit-only entries the RichACL already had.
\<close>

theorem posix_rich_roundtrip:
  assumes "wf_posix posix_acl" and "\<forall>a \<in> set (ace_list acl). wf_ace a \<and> isInheritOnly a"
  shows "convertToPosixACL (appendPosixACL posix_acl is_dir acl) = (True, posix_acl)"
  using convert_minimal convert_extended assms by blast

theorem posix_rich_roundtrip_witness:
  "convertToPosixACL (appendPosixACL posix_example False emptyACL) = (True, posix_example) \<and>
   \<not> minimalAcl posix_example \<and> ace_list (appendPosixACL posix_example False emptyACL) \<noteq> []"
proof -
  have "wf_posix posix_example" by code_simp
  then have "convertToPosixACL (appendPosixACL posix_example False emptyACL) = (True, posix_example)"
    by (rule posix_rich_roundtrip) (simp add: emptyACL_def)
  moreover have "\<not> minimalAcl posix_example \<and> ace_list (appendPosixACL posix_example False emptyACL) \<noteq> []" by code_simp
  ultimately show ?thesis by blast
qed

text \<open>
  C29. A minimal POSIX list is stored as file masks and no entry. The check of such a list refuses a
  member of the owning group, who is not the owner, every request, whatever rights the list and the
  mode taken from it give to the group.
\<close>

theorem minimal_posix_denies_group:
  assumes "minimalAcl posix_acl" and "uid \<noteq> owner_uid" and "owner_gid \<in> set groups" and "requested \<noteq> 0"
  shows "\<not> checkPermission (appendPosixACL posix_acl is_dir emptyACL) requested owner_uid owner_gid uid groups"
proof -
  have "ace_list (appendPosixACL posix_acl is_dir emptyACL) = []"
    using assms(1) by (simp add: appendPosixACL_def Let_def emptyACL_def)
  then show ?thesis using assms(2-4) by (auto simp: checkPermission_def Let_def)
qed

theorem minimal_posix_denies_group_witness:
  "\<not> checkPermission (appendPosixACL (setGroupRights 7 emptyPosixACL) False emptyACL) kReadData 1 7 2 [7] \<and>
   getMode (appendPosixACL (setGroupRights 7 emptyPosixACL) False emptyACL) = 0x38"
proof
  show "\<not> checkPermission (appendPosixACL (setGroupRights 7 emptyPosixACL) False emptyACL) kReadData 1 7 2 [7]"
    by (rule minimal_posix_denies_group) code_simp+
qed code_simp

end
