(* ===== verification/AclStorage.thy ===== *)
theory AclStorage
  imports RichACL_Posix
begin

text \<open>
  The store of access control lists of the metadata server (\<open>src/src/master/acl_storage.h\<close>,
  \<open>acl_storage.cc\<close>). Equal lists are stored once, in \<open>storage_\<close>, with the number of inodes that
  refer to them; \<open>acl_\<close> maps an inode to a reference to an element of \<open>storage_\<close>. A reference is
  modelled by the key of the element it refers to. An operation that follows a reference to an
  element that has been erased, or that fails the assertion of \<open>unref\<close>, has the result \<open>None\<close>; what
  \<open>ref\<close> asserts, that a stored count is positive, is part of the invariant.
\<close>

section \<open>Command sequences\<close>

text \<open>
  What the file-system operations rely on: a command of a store never fails, keeps the invariant of the
  store, and its effect on what the store means is the one its specification states. Then so do
  sequences of commands.
\<close>

fun run_cmds :: "('c \<Rightarrow> 's \<Rightarrow> 's option) \<Rightarrow> 'c list \<Rightarrow> 's \<Rightarrow> 's option" where
  "run_cmds exec [] s = Some s"
| "run_cmds exec (c # cs) s = (case exec c s of None \<Rightarrow> None | Some s' \<Rightarrow> run_cmds exec cs s')"

locale command_refinement =
  fixes inv :: "'s \<Rightarrow> bool"
    and meaning :: "'s \<Rightarrow> 'a"
    and exec :: "'c \<Rightarrow> 's \<Rightarrow> 's option"
    and spec :: "'c \<Rightarrow> 'a \<Rightarrow> 'a"
  assumes exec_law: "inv s \<Longrightarrow> \<exists>s'. exec c s = Some s' \<and> inv s' \<and> meaning s' = spec c (meaning s)"
begin

lemma run_refines:
  assumes "inv s"
  shows "\<exists>s'. run_cmds exec cs s = Some s' \<and> inv s' \<and> meaning s' = fold spec cs (meaning s)"
  using assms
proof (induction cs arbitrary: s)
  case (Cons c cs)
  obtain s1 where s1: "exec c s = Some s1" "inv s1" "meaning s1 = spec c (meaning s)"
    using exec_law [OF Cons.prems, of c] by blast
  from Cons.IH [OF s1(2)] show ?case using s1(1,3) by simp
qed simp

lemma run_invariant: "inv s \<Longrightarrow> run_cmds exec cs s = Some s' \<Longrightarrow> inv s'"
  using run_refines [of s cs] by auto

end

section \<open>The store\<close>

record AclStorage =
  storage :: "RichACL \<rightharpoonup> nat"
  acl_of :: "inode \<rightharpoonup> RichACL"

definition emptyAclStorage :: AclStorage where
  "emptyAclStorage = \<lparr>storage = Map.empty, acl_of = Map.empty\<rparr>"

definition acl_ref :: "RichACL \<Rightarrow> AclStorage \<Rightarrow> AclStorage" where
  "acl_ref acl st = st\<lparr>storage := (storage st)(acl \<mapsto> (case storage st acl of None \<Rightarrow> 1 | Some n \<Rightarrow> n + 1))\<rparr>"

definition acl_unref :: "RichACL \<Rightarrow> AclStorage \<Rightarrow> AclStorage option" where
  "acl_unref acl st =
     (case storage st acl of
        None \<Rightarrow> None
      | Some n \<Rightarrow>
          if n = 0 then None
          else if n = 1 then Some (st\<lparr>storage := (storage st)(acl := None)\<rparr>)
          else Some (st\<lparr>storage := (storage st)(acl \<mapsto> n - 1)\<rparr>))"

text \<open>\<open>get\<close>: the outer \<open>None\<close> is a dangling reference, the inner one the null pointer.\<close>

definition acl_get :: "AclStorage \<Rightarrow> inode \<Rightarrow> RichACL option option" where
  "acl_get st ino =
     (case acl_of st ino of
        None \<Rightarrow> Some None
      | Some acl \<Rightarrow> if storage st acl = None then None else Some (Some acl))"

definition acl_set :: "inode \<Rightarrow> RichACL \<Rightarrow> AclStorage \<Rightarrow> AclStorage option" where
  "acl_set ino acl st =
     (let st1 = acl_ref acl st in
      case acl_of st ino of
        None \<Rightarrow> Some (st1\<lparr>acl_of := (acl_of st1)(ino \<mapsto> acl)\<rparr>)
      | Some old \<Rightarrow>
          (case acl_unref old st1 of
             None \<Rightarrow> None
           | Some st2 \<Rightarrow> Some (st2\<lparr>acl_of := (acl_of st2)(ino \<mapsto> acl)\<rparr>)))"

definition acl_erase :: "inode \<Rightarrow> AclStorage \<Rightarrow> AclStorage option" where
  "acl_erase ino st =
     (case acl_of st ino of
        None \<Rightarrow> Some st
      | Some old \<Rightarrow>
          (case acl_unref old st of
             None \<Rightarrow> None
           | Some st1 \<Rightarrow> Some (st1\<lparr>acl_of := (acl_of st1)(ino := None)\<rparr>)))"

definition acl_setMode :: "inode \<Rightarrow> 16 word \<Rightarrow> bool \<Rightarrow> AclStorage \<Rightarrow> AclStorage option" where
  "acl_setMode ino mode is_dir st =
     (case acl_of st ino of
        None \<Rightarrow> Some st
      | Some old \<Rightarrow>
          if storage st old = None then None
          else
            (let acl_with_mode = setMode mode is_dir old in
             if acl_with_mode \<noteq> old then
               (case acl_unref old st of
                  None \<Rightarrow> None
                | Some st1 \<Rightarrow>
                    (let st2 = acl_ref acl_with_mode st1
                     in Some (st2\<lparr>acl_of := (acl_of st2)(ino \<mapsto> acl_with_mode)\<rparr>)))
             else Some st))"

subsection \<open>Reference counts\<close>

text \<open>
  The inodes that refer to a list, and the invariant: a list is stored exactly when an inode refers to
  it, with the number of those inodes, which is what the destructor asserts.
\<close>

definition users :: "AclStorage \<Rightarrow> RichACL \<Rightarrow> inode set" where
  "users st acl = {i. acl_of st i = Some acl}"

definition refcount :: "inode set \<Rightarrow> nat option" where
  "refcount us = (if us = {} then None else Some (card us))"

definition acl_inv :: "AclStorage \<Rightarrow> bool" where
  "acl_inv st \<longleftrightarrow> finite (dom (acl_of st)) \<and> (\<forall>acl. storage st acl = refcount (users st acl))"

lemma acl_inv_empty: "acl_inv emptyAclStorage"
  by (simp add: acl_inv_def emptyAclStorage_def users_def refcount_def)

lemma finite_users: "acl_inv st \<Longrightarrow> finite (users st acl)"
  by (rule finite_subset [of _ "dom (acl_of st)"]) (auto simp: acl_inv_def users_def)

lemma refcount_insert: "finite us \<Longrightarrow> i \<notin> us \<Longrightarrow>
  refcount (insert i us) = Some (case refcount us of None \<Rightarrow> 1 | Some n \<Rightarrow> n + 1)"
  by (simp add: refcount_def)

lemma refcount_remove:
  assumes "finite us" "i \<in> us"
  shows "refcount us = Some (Suc (card (us - {i})))"
    "refcount (us - {i}) = (if card (us - {i}) = 0 then None else Some (card (us - {i})))"
proof -
  have "card us = Suc (card (us - {i}))" by (rule card.remove [OF assms])
  moreover have "us \<noteq> {}" using assms(2) by blast
  ultimately show "refcount us = Some (Suc (card (us - {i})))" by (simp only: refcount_def if_False)
  show "refcount (us - {i}) = (if card (us - {i}) = 0 then None else Some (card (us - {i})))"
    using card_eq_0_iff [of "us - {i}"] finite_Diff [OF assms(1)] by (simp only: refcount_def) presburger
qed

text \<open>Giving up a reference and taking one, seen from the set of users of each list.\<close>

lemma acl_unref_users:
  assumes "finite (users st old)" "i \<in> users st old" "storage st old = refcount (users st old)"
  shows "acl_unref old st = Some (st\<lparr>storage := (storage st)(old := refcount (users st old - {i}))\<rparr>)"
  unfolding acl_unref_def assms(3) refcount_remove [OF assms(1,2)] by simp

lemma acl_ref_users:
  assumes "finite us" "i \<notin> us" "storage st new = refcount us"
  shows "acl_ref new st = st\<lparr>storage := (storage st)(new := refcount (insert i us))\<rparr>"
  using refcount_insert [OF assms(1,2)] assms(3) by (simp add: acl_ref_def)

lemma users_upd:
  "users (st\<lparr>acl_of := (acl_of st)(i := v)\<rparr>) acl = (if v = Some acl then insert i (users st acl) else users st acl - {i})"
  by (auto simp: users_def)

lemma users_storage [simp]: "users (st\<lparr>storage := s\<rparr>) acl = users st acl"
  by (simp add: users_def)

text \<open>A store whose counts are those of the users keeps the invariant when an inode changes its list.\<close>

lemma acl_invI:
  assumes "acl_inv st" "st' = st\<lparr>storage := s, acl_of := (acl_of st)(i := v)\<rparr>"
    "\<And>acl. s acl = refcount (if v = Some acl then insert i (users st acl) else users st acl - {i})"
  shows "acl_inv st'"
proof -
  have "users st' acl = (if v = Some acl then insert i (users st acl) else users st acl - {i})" for acl
    unfolding assms(2) by (auto simp: users_def)
  moreover have "finite (dom (acl_of st'))"
    using assms(1) by (simp add: assms(2) acl_inv_def)
  ultimately show ?thesis using assms(3) by (simp add: acl_inv_def assms(2))
qed

lemma acl_set_law:
  assumes inv: "acl_inv st"
  shows "\<exists>st'. acl_set i new st = Some st' \<and> acl_inv st' \<and> acl_of st' = (acl_of st)(i \<mapsto> new)"
proof -
  have st: "storage st acl = refcount (users st acl)" for acl using inv by (simp add: acl_inv_def)
  note fin = finite_users [OF inv]
  consider (none) "acl_of st i = None" | (same) "acl_of st i = Some new" | (other) old where "acl_of st i = Some old" "old \<noteq> new"
    by fastforce
  then show ?thesis
  proof cases
    case none
    then have i: "i \<notin> users st acl" for acl by (simp add: users_def)
    let ?st = "st\<lparr>storage := (storage st)(new := refcount (insert i (users st new))), acl_of := (acl_of st)(i \<mapsto> new)\<rparr>"
    have "acl_set i new st = Some ?st"
      using none acl_ref_users [OF fin i st, of new] by (simp add: acl_set_def)
    moreover have "acl_inv ?st" by (rule acl_invI [OF inv refl]) (use i st in auto)
    ultimately show ?thesis by simp
  next
    case same
    then have "i \<in> users st new" by (simp add: users_def)
    then have "storage st new = Some (Suc (card (users st new - {i})))" using refcount_remove(1) [OF fin] st by auto
    then have "acl_set i new st = Some st"
      using same by (simp add: acl_set_def acl_ref_def acl_unref_def Let_def fun_upd_idem)
    then show ?thesis using inv same by auto
  next
    case (other old)
    then have io: "i \<in> users st old" and i: "acl \<noteq> old \<Longrightarrow> i \<notin> users st acl" for acl by (auto simp: users_def)
    define st1 where "st1 = acl_ref new st"
    have st1: "st1 = st\<lparr>storage := (storage st)(new := refcount (insert i (users st new)))\<rparr>"
      unfolding st1_def using acl_ref_users [OF fin i [OF other(2) [symmetric]] st] .
    have u: "users st1 acl = users st acl" for acl by (simp add: st1)
    have "acl_unref old st1 = Some (st1\<lparr>storage := (storage st1)(old := refcount (users st old - {i}))\<rparr>)"
      using acl_unref_users [of st1 old i] fin io other(2) st unfolding u by (simp add: st1)
    then have "acl_set i new st = Some (st\<lparr>storage := (storage st)(new := refcount (insert i (users st new)),
        old := refcount (users st old - {i})), acl_of := (acl_of st)(i \<mapsto> new)\<rparr>)" (is "_ = Some ?st")
      using other(1) unfolding acl_set_def Let_def st1_def [symmetric] by (simp add: st1)
    moreover have "acl_inv ?st" by (rule acl_invI [OF inv refl]) (use io i other(2) st in auto)
    ultimately show ?thesis by simp
  qed
qed

lemma acl_erase_law:
  assumes inv: "acl_inv st"
  shows "\<exists>st'. acl_erase i st = Some st' \<and> acl_inv st' \<and> acl_of st' = (acl_of st)(i := None)"
proof (cases "acl_of st i")
  case None
  then show ?thesis using inv by (auto simp: acl_erase_def)
next
  case (Some old)
  have st: "storage st acl = refcount (users st acl)" for acl using inv by (simp add: acl_inv_def)
  have io: "i \<in> users st old" and i: "acl \<noteq> old \<Longrightarrow> i \<notin> users st acl" for acl using Some by (auto simp: users_def)
  let ?st = "st\<lparr>storage := (storage st)(old := refcount (users st old - {i})), acl_of := (acl_of st)(i := None)\<rparr>"
  have "acl_erase i st = Some ?st"
    using acl_unref_users [OF finite_users [OF inv] _ st, of i old] Some by (simp add: acl_erase_def users_def)
  moreover have "acl_inv ?st" by (rule acl_invI [OF inv refl]) (use io i st in auto)
  ultimately show ?thesis by simp
qed

lemma acl_get_law: "acl_inv st \<Longrightarrow> acl_get st i = Some (acl_of st i)"
  by (auto simp: acl_get_def acl_inv_def refcount_def users_def split: option.splits)

text \<open>\<open>setMode\<close> gives up the old list before it takes the new one.\<close>

lemma acl_setMode_law:
  assumes inv: "acl_inv st"
  shows "\<exists>st'. acl_setMode i mode is_dir st = Some st' \<and> acl_inv st' \<and>
    acl_of st' = (acl_of st)(i := map_option (setMode mode is_dir) (acl_of st i))"
proof (cases "acl_of st i")
  case None
  then show ?thesis using inv by (auto simp: acl_setMode_def)
next
  case (Some old)
  have st: "storage st acl = refcount (users st acl)" for acl using inv by (simp add: acl_inv_def)
  note fin = finite_users [OF inv]
  have io: "i \<in> users st old" and i: "acl \<noteq> old \<Longrightarrow> i \<notin> users st acl" for acl using Some by (auto simp: users_def)
  define new where "new = setMode mode is_dir old"
  have ne: "storage st old \<noteq> None" using io st [of old] by (auto simp: refcount_def)
  show ?thesis
  proof (cases "new = old")
    case True
    then show ?thesis using Some inv ne by (auto simp: acl_setMode_def new_def [symmetric] Let_def)
  next
    case False
    define st1 where "st1 = st\<lparr>storage := (storage st)(old := refcount (users st old - {i}))\<rparr>"
    have "acl_unref old st = Some st1"
      unfolding st1_def by (rule acl_unref_users [OF fin _ st]) (simp add: Some users_def)
    moreover have "acl_ref new st1 = st1\<lparr>storage := (storage st1)(new := refcount (insert i (users st new)))\<rparr>"
      by (rule acl_ref_users [OF fin i [OF False]]) (use False st in \<open>simp add: st1_def\<close>)
    ultimately have "acl_setMode i mode is_dir st = Some (st\<lparr>storage := (storage st)(old := refcount (users st old - {i}),
        new := refcount (insert i (users st new))), acl_of := (acl_of st)(i \<mapsto> new)\<rparr>)" (is "_ = Some ?st")
      using Some ne False by (simp add: acl_setMode_def new_def [symmetric] Let_def) (simp add: st1_def)
    moreover have "acl_inv ?st" by (rule acl_invI [OF inv refl]) (use io i False st in auto)
    ultimately show ?thesis using Some by (simp add: new_def)
  qed
qed

subsection \<open>Any sequence of commands\<close>

datatype acl_cmd = AclSet inode RichACL | AclErase inode | AclSetMode inode "16 word" bool

fun acl_exec :: "acl_cmd \<Rightarrow> AclStorage \<Rightarrow> AclStorage option" where
  "acl_exec (AclSet ino acl) st = acl_set ino acl st"
| "acl_exec (AclErase ino) st = acl_erase ino st"
| "acl_exec (AclSetMode ino mode is_dir) st = acl_setMode ino mode is_dir st"

text \<open>What the commands mean for the map from inodes to lists.\<close>

fun acl_spec :: "acl_cmd \<Rightarrow> (inode \<rightharpoonup> RichACL) \<Rightarrow> (inode \<rightharpoonup> RichACL)" where
  "acl_spec (AclSet ino acl) m = m(ino \<mapsto> acl)"
| "acl_spec (AclErase ino) m = m(ino := None)"
| "acl_spec (AclSetMode ino mode is_dir) m = m(ino := map_option (setMode mode is_dir) (m ino))"

interpretation acls: command_refinement acl_inv acl_of acl_exec acl_spec
proof unfold_locales
  fix st c
  assume "acl_inv st"
  then show "\<exists>st'. acl_exec c st = Some st' \<and> acl_inv st' \<and> acl_of st' = acl_spec c (acl_of st)"
    by (cases c) (simp_all add: acl_set_law acl_erase_law acl_setMode_law)
qed

text \<open>
  C30. Any sequence of set, erase and setMode commands on an empty store runs without following a
  dangling reference or failing an assertion; afterwards \<open>get\<close> answers for every inode what the
  commands mean for a plain map from inodes to lists, and every stored list has as reference count the
  number of inodes that have it, which is what the destructor asserts.
\<close>

theorem acl_storage_refines_map:
  "\<exists>st. run_cmds acl_exec cmds emptyAclStorage = Some st \<and>
     (\<forall>ino. acl_get st ino = Some (fold acl_spec cmds Map.empty ino)) \<and>
     (\<forall>acl. storage st acl = refcount {ino. fold acl_spec cmds Map.empty ino = Some acl})"
proof -
  have "acl_of emptyAclStorage = Map.empty" by (simp add: emptyAclStorage_def)
  with acls.run_refines [OF acl_inv_empty, of cmds] obtain st where
    st: "run_cmds acl_exec cmds emptyAclStorage = Some st" "acl_inv st" "acl_of st = fold acl_spec cmds Map.empty"
    by auto
  from st(2) have "storage st acl = refcount {ino. fold acl_spec cmds Map.empty ino = Some acl}" for acl
    by (simp add: acl_inv_def users_def st(3))
  with st acl_get_law [OF st(2)] show ?thesis by auto
qed

end
