(* ===== verification/FsTypes.thy ===== *)
theory FsTypes
  imports AclStorage
begin

text \<open>
  The nodes of the name space (\<open>src/src/master/filesystem_node_types.h\<close>) and the statistics of a node
  (\<open>FilesystemNodeOperationsBase::getStats\<close> and the size functions of
  \<open>src/src/master/filesystem_node.cc\<close>), for the build with 32-bit inode numbers and the default block
  size. The classes derived from \<open>FSNode\<close> are one record whose file, symlink, device and directory
  fields are used for the nodes of these types only. Names are strings; pointers to nodes are inode
  numbers. Checksums and the lower-case index of case-insensitive directories are not modelled.
\<close>

unbundle bit_operations_syntax

datatype FSNodeType = kFile | kDirectory | kSymlink | kFifo | kBlockDev | kCharDev | kSocket | kTrash | kReserved | kUnknown

datatype StatsRecord = StatsRecord
  (st_inodes: "32 word") (st_dirs: "32 word") (st_files: "32 word") (st_links: "32 word")
  (st_chunks: "32 word") (st_length: "64 word") (st_size: "64 word") (st_realsize: "64 word")

text \<open>Statistics are added and subtracted member by member, with the wrap-around of each member.\<close>

instantiation StatsRecord :: ab_group_add
begin

definition zero_StatsRecord :: StatsRecord where "0 = StatsRecord 0 0 0 0 0 0 0 0"

fun plus_StatsRecord :: "StatsRecord \<Rightarrow> StatsRecord \<Rightarrow> StatsRecord" where
  "StatsRecord i d f l c n s r + StatsRecord i' d' f' l' c' n' s' r' =
     StatsRecord (i + i') (d + d') (f + f') (l + l') (c + c') (n + n') (s + s') (r + r')"

fun minus_StatsRecord :: "StatsRecord \<Rightarrow> StatsRecord \<Rightarrow> StatsRecord" where
  "StatsRecord i d f l c n s r - StatsRecord i' d' f' l' c' n' s' r' =
     StatsRecord (i - i') (d - d') (f - f') (l - l') (c - c') (n - n') (s - s') (r - r')"

fun uminus_StatsRecord :: "StatsRecord \<Rightarrow> StatsRecord" where
  "- StatsRecord i d f l c n s r = StatsRecord (- i) (- d) (- f) (- l) (- c) (- n) (- s) (- r)"

instance
proof
  fix a b c :: StatsRecord
  show "a + b + c = a + (b + c)" by (cases a; cases b; cases c) simp
  show "a + b = b + a" by (cases a; cases b) (simp add: add.commute)
  show "0 + a = a" by (cases a) (simp add: zero_StatsRecord_def)
  show "- a + a = 0" by (cases a) (simp add: zero_StatsRecord_def)
  show "a - b = a + - b" by (cases a; cases b) simp
qed

end

record FSNode =
  n_type :: FSNodeType
  n_goal :: "8 word"
  n_mode :: "16 word"
  n_uid :: "32 word"
  n_gid :: "32 word"
  n_atime :: "32 word"
  n_mtime :: "32 word"
  n_ctime :: "32 word"
  n_trashtime :: "32 word"
  n_parents :: "(inode \<times> string) list"
  n_length :: "64 word"
  n_sessionIds :: "32 word list"
  n_chunks :: "64 word list"
  n_path :: string
  n_path_length :: "16 word"
  n_rdev :: "32 word"
  n_entries :: "(string \<times> inode) list"
  n_stats :: StatsRecord
  n_nlink :: "32 word"

text \<open>\<open>FSNode::create\<close>: every member zero or empty, but the link count of a directory.\<close>

definition newNode :: "FSNodeType \<Rightarrow> FSNode" where
  "newNode ty = \<lparr>n_type = ty, n_goal = 0, n_mode = 0, n_uid = 0, n_gid = 0, n_atime = 0, n_mtime = 0, n_ctime = 0,
     n_trashtime = 0, n_parents = [], n_length = 0, n_sessionIds = [], n_chunks = [], n_path = [], n_path_length = 0, n_rdev = 0,
     n_entries = [], n_stats = 0, n_nlink = 2\<rparr>"

type_synonym nodes = "inode \<rightharpoonup> FSNode"

definition SPECIAL_INODE_ROOT :: inode where "SPECIAL_INODE_ROOT = 1"

abbreviation is_dir :: "FSNode \<Rightarrow> bool" where "is_dir d \<equiv> n_type d = kDirectory"

definition is_file :: "FSNode \<Rightarrow> bool" where
  "is_file d \<longleftrightarrow> n_type d = kFile \<or> n_type d = kTrash \<or> n_type d = kReserved"

section \<open>Sizes\<close>

definition SFSBLOCKSIZE :: nat where "SFSBLOCKSIZE = 65536"
definition SFSBLOCKSINCHUNK :: nat where "SFSBLOCKSINCHUNK = 1024"
definition SFSCHUNKSIZE :: nat where "SFSCHUNKSIZE = SFSBLOCKSIZE * SFSBLOCKSINCHUNK"
definition SFSHDRSIZE :: nat where "SFSHDRSIZE = 4 * SFSBLOCKSINCHUNK + 1024"

definition lastChunkBlocks :: "FSNode \<Rightarrow> 32 word" where
  "lastChunkBlocks node =
     (let lastByte = n_length node - 1;
          lastByteOffset = ucast (lastByte mod of_nat SFSCHUNKSIZE) :: 32 word;
          lastBlock = lastByteOffset div of_nat SFSBLOCKSIZE
      in lastBlock + 1)"

definition isLastFileChunkNonEmpty :: "FSNode \<Rightarrow> bool" where
  "isLastFileChunkNonEmpty node =
     (if n_chunks node = [] then False
      else
        (let lastByte = n_length node - 1;
             lastChunk = unat (ucast (lastByte div of_nat SFSCHUNKSIZE) :: 32 word)
         in if lastChunk < length (n_chunks node) then n_chunks node ! lastChunk \<noteq> 0 else False))"

definition getLiveFileChunkCount :: "FSNode \<Rightarrow> 32 word" where
  "getLiveFileChunkCount node = fold (\<lambda>v sum. sum + (if v \<noteq> 0 then 1 else 0)) (n_chunks node) 0"

definition fileSize :: "FSNode \<Rightarrow> 32 word \<Rightarrow> 64 word" where
  "fileSize node nonZeroChunks =
     (let size = ucast nonZeroChunks * of_nat (SFSCHUNKSIZE + SFSHDRSIZE)
      in if isLastFileChunkNonEmpty node
         then size - of_nat SFSCHUNKSIZE + ucast (lastChunkBlocks node * of_nat SFSBLOCKSIZE)
         else size)"

definition ecChunkRealSize :: "32 word \<Rightarrow> 32 word \<Rightarrow> 32 word \<Rightarrow> 32 word" where
  "ecChunkRealSize blocks dataPartCount parityPartCount =
     (let stripes = (blocks + dataPartCount - 1) div dataPartCount
      in blocks * of_nat SFSBLOCKSIZE + parityPartCount * stripes * of_nat SFSBLOCKSIZE +
         of_nat (SFSBLOCKSINCHUNK * 4) * (dataPartCount + parityPartCount))"

text \<open>
  What \<open>fileRealSize\<close> asks a slice of a goal: the number of copies of a standard or tape slice, the
  data and parity parts of a xor or erasure-coded one. The goal definitions are read from the
  configuration.
\<close>

datatype goal_slice = CopiesSlice "32 word" | ParitySlice "32 word" "32 word" | UnknownSlice

type_synonym goal_defs = "8 word \<Rightarrow> goal_slice list"

fun realSize_loop :: "FSNode \<Rightarrow> 32 word \<Rightarrow> 64 word \<Rightarrow> goal_slice list \<Rightarrow> 64 word \<Rightarrow> 64 word" where
  "realSize_loop node nonZeroChunks logicalFileSize [] fullSize = fullSize"
| "realSize_loop node nonZeroChunks logicalFileSize (CopiesSlice copies # slices) fullSize =
    realSize_loop node nonZeroChunks logicalFileSize slices (fullSize + logicalFileSize * ucast copies)"
| "realSize_loop node nonZeroChunks logicalFileSize (ParitySlice dataParts parityParts # slices) fullSize =
    (let fullChunkRealSize = ecChunkRealSize (of_nat SFSBLOCKSINCHUNK) dataParts parityParts;
         size = ucast nonZeroChunks * ucast fullChunkRealSize;
         size' = (if isLastFileChunkNonEmpty node
                  then size - ucast fullChunkRealSize + ucast (ecChunkRealSize (lastChunkBlocks node) dataParts parityParts)
                  else size)
     in realSize_loop node nonZeroChunks logicalFileSize slices (fullSize + size'))"
| "realSize_loop node nonZeroChunks logicalFileSize (UnknownSlice # slices) fullSize = 0"

definition fileRealSize :: "goal_defs \<Rightarrow> FSNode \<Rightarrow> 32 word \<Rightarrow> 64 word \<Rightarrow> 64 word" where
  "fileRealSize goals node nonZeroChunks logicalFileSize =
     realSize_loop node nonZeroChunks logicalFileSize (goals (n_goal node)) 0"

definition getStats :: "goal_defs \<Rightarrow> FSNode \<Rightarrow> StatsRecord" where
  "getStats goals node =
     (if is_dir node then n_stats node + StatsRecord 1 1 0 0 0 0 0 0
      else if is_file node then
        (let chunks = getLiveFileChunkCount node;
             size = fileSize node chunks
         in StatsRecord 1 0 1 0 chunks (n_length node) size (fileRealSize goals node chunks size))
      else if n_type node = kSymlink then StatsRecord 1 0 0 1 0 (ucast (n_path_length node)) 0 0
      else StatsRecord 1 0 0 0 0 0 0 0)"

definition getSize :: "goal_defs \<Rightarrow> FSNode \<Rightarrow> 64 word" where
  "getSize goals node = st_size (getStats goals node)"

text \<open>Statistics do not depend on ownership, times, mode, links or, but for directories, on \<open>n_stats\<close>.\<close>

lemma getStats_dir: "is_dir node \<Longrightarrow> getStats goals node = n_stats node + StatsRecord 1 1 0 0 0 0 0 0"
  by (simp add: getStats_def)

end
