(* ===== verification/FsTree.thy ===== *)
theory FsTree
  imports FsTypes
begin

text \<open>
  The tree of nodes and its directory statistics: \<open>link\<close>, \<open>removeEdge\<close>, \<open>addStats\<close>, \<open>subStats\<close>,
  \<open>isAncestor\<close> of \<open>src/src/master/filesystem_node.cc\<close>. A node table maps inode numbers to nodes; an
  update through a pointer is \<open>upd\<close>. The recursion of \<open>addStats\<close> and \<open>subStats\<close> over the parents is the
  walk \<open>walkUp\<close> over the directories still to visit, the loop of \<open>isAncestor\<close> is \<open>ancestor_loop\<close>; both
  are \<open>None\<close> when they do not return or when an assertion on a node fails. The order of the entries of a
  directory, that of the hashes of their names, is not modelled: a new entry comes last.

  \<open>tree_inv\<close> is the shape of the tree: entries and parents agree, names in a directory are distinct,
  directories have at most one parent, no directory is its own ancestor. \<open>stats_inv\<close> says that the
  statistics of every directory are the sum over its entries, and its link count two more than the
  number of its subdirectories. The central lemma is \<open>walkUp_defect\<close>: a walk from a directory ends and
  changes the difference between statistics and sum at this directory only.
\<close>

section \<open>Access to nodes\<close>

definition pars :: "nodes \<Rightarrow> inode \<Rightarrow> (inode \<times> string) list" where
  "pars ns c = (case ns c of None \<Rightarrow> [] | Some n \<Rightarrow> n_parents n)"

definition kids :: "nodes \<Rightarrow> inode \<Rightarrow> (string \<times> inode) list" where
  "kids ns p = (case ns p of None \<Rightarrow> [] | Some d \<Rightarrow> n_entries d)"

definition isdir :: "nodes \<Rightarrow> inode \<Rightarrow> bool" where
  "isdir ns i \<longleftrightarrow> (case ns i of None \<Rightarrow> False | Some d \<Rightarrow> is_dir d)"

definition upd :: "inode \<Rightarrow> (FSNode \<Rightarrow> FSNode) \<Rightarrow> nodes \<Rightarrow> nodes" where
  "upd i f ns = ns(i := map_option f (ns i))"

definition lookup :: "nodes \<Rightarrow> inode \<Rightarrow> string \<Rightarrow> inode option" where
  "lookup ns p name = map_of (kids ns p) name"

section \<open>Statistics of the ancestors\<close>

definition set_stats :: "(StatsRecord \<Rightarrow> StatsRecord) \<Rightarrow> FSNode \<Rightarrow> FSNode" where
  "set_stats f d = d\<lparr>n_stats := f (n_stats d)\<rparr>"

partial_function (option) walkUp :: "(StatsRecord \<Rightarrow> StatsRecord) \<Rightarrow> inode list \<Rightarrow> nodes \<Rightarrow> nodes option" where
  "walkUp f ps ns =
     (case ps of
        [] \<Rightarrow> Some ns
      | p # ps' \<Rightarrow>
          if \<not> isdir ns p then None
          else
            (let ns' = upd p (set_stats f) ns
             in if p \<noteq> SPECIAL_INODE_ROOT then walkUp f (map fst (pars ns' p) @ ps') ns'
                else walkUp f ps' ns'))"

definition addStats :: "StatsRecord \<Rightarrow> inode \<Rightarrow> nodes \<Rightarrow> nodes option" where
  "addStats stats parent ns = walkUp (\<lambda>s. s + stats) [parent] ns"

definition subStats :: "StatsRecord \<Rightarrow> inode \<Rightarrow> nodes \<Rightarrow> nodes option" where
  "subStats stats parent ns = walkUp (\<lambda>s. s - stats) [parent] ns"

definition addSubStats :: "StatsRecord \<Rightarrow> StatsRecord \<Rightarrow> inode \<Rightarrow> nodes \<Rightarrow> nodes option" where
  "addSubStats newStats previousStats parent ns = addStats (newStats - previousStats) parent ns"

fun updateParentStats_loop :: "StatsRecord \<Rightarrow> StatsRecord \<Rightarrow> inode list \<Rightarrow> nodes \<Rightarrow> nodes option" where
  "updateParentStats_loop new prev [] ns = Some ns"
| "updateParentStats_loop new prev (p # ps) ns =
    (case addSubStats new prev p ns of None \<Rightarrow> None | Some ns' \<Rightarrow> updateParentStats_loop new prev ps ns')"

definition updateParentStatsForNode :: "StatsRecord \<Rightarrow> StatsRecord \<Rightarrow> inode \<Rightarrow> nodes \<Rightarrow> nodes option" where
  "updateParentStatsForNode newStats previousStats node ns =
     updateParentStats_loop newStats previousStats (map fst (pars ns node)) ns"

section \<open>Ancestors and paths\<close>

partial_function (option) ancestor_loop :: "inode \<Rightarrow> inode \<Rightarrow> nodes \<Rightarrow> bool option" where
  "ancestor_loop ancestor dirNode ns =
     (if \<not> isdir ns dirNode then None
      else if ancestor = dirNode then Some True
      else if length (pars ns dirNode) > 1 then None
      else
        (case pars ns dirNode of
           [] \<Rightarrow> Some False
         | (q, _) # _ \<Rightarrow> ancestor_loop ancestor q ns))"

fun ancestor_parents :: "inode \<Rightarrow> (inode \<times> string) list \<Rightarrow> nodes \<Rightarrow> bool option" where
  "ancestor_parents ancestor [] ns = Some False"
| "ancestor_parents ancestor ((p, _) # ps) ns =
    (case ancestor_loop ancestor p ns of
       None \<Rightarrow> None
     | Some True \<Rightarrow> Some True
     | Some False \<Rightarrow> ancestor_parents ancestor ps ns)"

definition isAncestor :: "inode \<Rightarrow> inode \<Rightarrow> nodes \<Rightarrow> bool option" where
  "isAncestor ancestor node ns = ancestor_parents ancestor (pars ns node) ns"

definition isAncestorOrNodeReservedOrTrash :: "inode \<Rightarrow> inode \<Rightarrow> nodes \<Rightarrow> bool option" where
  "isAncestorOrNodeReservedOrTrash ancestor node ns =
     (if (case ns node of None \<Rightarrow> False | Some n \<Rightarrow> n_type n = kReserved \<or> n_type n = kTrash) then Some True
      else isAncestor ancestor node ns)"

section \<open>Edges\<close>

definition nodeStats :: "goal_defs \<Rightarrow> nodes \<Rightarrow> inode \<Rightarrow> StatsRecord" where
  "nodeStats goals ns c = (case ns c of None \<Rightarrow> 0 | Some n \<Rightarrow> getStats goals n)"

text \<open>The first part of \<open>link\<close>, before the statistics are brought up to date.\<close>

definition addEdge :: "inode \<Rightarrow> inode \<Rightarrow> string \<Rightarrow> nodes \<Rightarrow> nodes" where
  "addEdge parent child name ns =
     (let ns1 = upd parent (\<lambda>d. d\<lparr>n_entries := n_entries d @ [(name, child)]\<rparr>) ns;
          ns2 = upd child (\<lambda>n. n\<lparr>n_parents := n_parents n @ [(parent, name)]\<rparr>) ns1
      in if isdir ns2 child then upd parent (\<lambda>d. d\<lparr>n_nlink := n_nlink d + 1\<rparr>) ns2 else ns2)"

definition fs_link :: "goal_defs \<Rightarrow> 32 word \<Rightarrow> inode \<Rightarrow> inode \<Rightarrow> string \<Rightarrow> nodes \<Rightarrow> nodes option" where
  "fs_link goals timeStamp parent child name ns =
     (let ns3 = addEdge parent child name ns
      in case addStats (nodeStats goals ns3 child) parent ns3 of
           None \<Rightarrow> None
         | Some ns4 \<Rightarrow>
             if timeStamp > 0 then
               (let ns5 = upd parent (\<lambda>d. d\<lparr>n_mtime := timeStamp, n_ctime := timeStamp\<rparr>) ns4
                in if map_option n_type (ns5 child) = Some kTrash then None
                   else Some (upd child (\<lambda>n. n\<lparr>n_ctime := timeStamp\<rparr>) ns5))
             else Some ns4)"

definition removeEdge :: "goal_defs \<Rightarrow> 32 word \<Rightarrow> inode \<Rightarrow> string \<Rightarrow> inode \<Rightarrow> nodes \<Rightarrow> nodes option" where
  "removeEdge goals timeStamp parent childName childNode ns =
     (if lookup ns parent childName \<noteq> Some childNode then None
      else
        (let ns1 = upd parent (\<lambda>d. d\<lparr>n_entries := remove1 (childName, childNode) (n_entries d)\<rparr>) ns
         in case subStats (nodeStats goals ns1 childNode) parent ns1 of
              None \<Rightarrow> None
            | Some ns2 \<Rightarrow>
                (let ns3 = upd parent (\<lambda>d. d\<lparr>n_mtime := timeStamp, n_ctime := timeStamp\<rparr>) ns2;
                     ns4 = (if isdir ns3 childNode then upd parent (\<lambda>d. d\<lparr>n_nlink := n_nlink d - 1\<rparr>) ns3 else ns3);
                     ns5 = upd childNode (\<lambda>n. n\<lparr>n_parents := remove1 (parent, childName) (n_parents n)\<rparr>) ns4
                 in if map_option n_type (ns5 childNode) = Some kTrash then None
                    else Some (upd childNode (\<lambda>n. n\<lparr>n_ctime := timeStamp\<rparr>) ns5))))"

section \<open>The shape of the tree\<close>

definition edges :: "nodes \<Rightarrow> (inode \<times> inode) set" where
  "edges ns = {(q, p). q \<in> fst ` set (pars ns p)}"

definition tree_inv :: "nodes \<Rightarrow> bool" where
  "tree_inv ns \<longleftrightarrow>
     finite (dom ns) \<and> acyclic (edges ns) \<and>
     isdir ns SPECIAL_INODE_ROOT \<and> pars ns SPECIAL_INODE_ROOT = [] \<and>
     (\<forall>c. distinct (pars ns c)) \<and> (\<forall>c. isdir ns c \<longrightarrow> length (pars ns c) \<le> 1) \<and>
     (\<forall>p. distinct (map fst (kids ns p))) \<and>
     (\<forall>p name c. (name, c) \<in> set (kids ns p) \<longleftrightarrow> (p, name) \<in> set (pars ns c)) \<and>
     (\<forall>p. kids ns p \<noteq> [] \<longrightarrow> isdir ns p)"

definition childSum :: "goal_defs \<Rightarrow> nodes \<Rightarrow> inode \<Rightarrow> StatsRecord" where
  "childSum goals ns p = sum_list (map (\<lambda>e. nodeStats goals ns (snd e)) (kids ns p))"

definition subdirs :: "nodes \<Rightarrow> inode \<Rightarrow> nat" where
  "subdirs ns p = length (filter (\<lambda>e. isdir ns (snd e)) (kids ns p))"

definition stats_inv :: "goal_defs \<Rightarrow> nodes \<Rightarrow> bool" where
  "stats_inv goals ns \<longleftrightarrow>
     (\<forall>p d. ns p = Some d \<and> is_dir d \<longrightarrow>
        n_stats d = childSum goals ns p \<and> n_nlink d = 2 + of_nat (subdirs ns p))"


subsection \<open>Views of an updated table\<close>

lemma pars_upd: "pars (upd i f ns) c = (if c = i \<and> ns i \<noteq> None then n_parents (f (the (ns i))) else pars ns c)"
  by (auto simp: pars_def upd_def split: option.splits)

lemma kids_upd: "kids (upd i f ns) c = (if c = i \<and> ns i \<noteq> None then n_entries (f (the (ns i))) else kids ns c)"
  by (auto simp: kids_def upd_def split: option.splits)

lemma isdir_upd: "isdir (upd i f ns) c = (if c = i \<and> ns i \<noteq> None then is_dir (f (the (ns i))) else isdir ns c)"
  by (auto simp: isdir_def upd_def split: option.splits)

lemma isdir_upd_type: "(\<And>n. n_type (f n) = n_type n) \<Longrightarrow> isdir (upd i f ns) = isdir ns"
  by (auto simp: fun_eq_iff isdir_def upd_def split: option.splits)

lemma dom_upd [simp]: "dom (upd i f ns) = dom ns"
  by (auto simp: upd_def)

lemma upd_other: "j \<noteq> i \<Longrightarrow> upd i f ns j = ns j"
  by (simp add: upd_def)

lemma pars_Some: "ns c = Some n \<Longrightarrow> pars ns c = n_parents n"
  and kids_Some: "ns c = Some n \<Longrightarrow> kids ns c = n_entries n"
  and isdir_Some: "ns c = Some n \<Longrightarrow> isdir ns c = is_dir n"
  by (simp_all add: pars_def kids_def isdir_def)

text \<open>What the shape depends on: the views, not the other members of the nodes.\<close>

definition same_tree :: "nodes \<Rightarrow> nodes \<Rightarrow> bool" where
  "same_tree ns ns' \<longleftrightarrow> dom ns' = dom ns \<and> pars ns' = pars ns \<and> kids ns' = kids ns \<and> isdir ns' = isdir ns"

lemma same_tree_refl [simp]: "same_tree ns ns" by (simp add: same_tree_def)

lemma same_tree_trans [trans]: "same_tree a b \<Longrightarrow> same_tree b c \<Longrightarrow> same_tree a c" by (simp add: same_tree_def)

lemma same_tree_upd:
  assumes "\<And>n. n_parents (f n) = n_parents n" "\<And>n. n_entries (f n) = n_entries n" "\<And>n. n_type (f n) = n_type n"
  shows "same_tree ns (upd i f ns)"
  using assms by (auto simp: same_tree_def fun_eq_iff pars_upd kids_upd isdir_upd pars_Some kids_Some isdir_Some)

lemma tree_inv_same: "same_tree ns ns' \<Longrightarrow> tree_inv ns' = tree_inv ns"
  by (simp add: same_tree_def tree_inv_def edges_def)

lemma edges_same: "same_tree ns ns' \<Longrightarrow> edges ns' = edges ns"
  by (simp add: same_tree_def edges_def)

lemma wf_edges: "tree_inv ns \<Longrightarrow> wf (edges ns)"
proof -
  assume inv: "tree_inv ns"
  have "edges ns \<subseteq> (\<lambda>(q, p). (q, p)) ` (dom ns \<times> dom ns)"
  proof
    fix e assume "e \<in> edges ns"
    then obtain q p name where e: "e = (q, p)" "(q, name) \<in> set (pars ns p)" by (auto simp: edges_def)
    then have "(name, p) \<in> set (kids ns q)" using inv by (simp add: tree_inv_def)
    then have "q \<in> dom ns" "p \<in> dom ns" using e(2) by (cases "ns q"; cases "ns p"; force simp: kids_def pars_def)+
    then show "e \<in> (\<lambda>(q, p). (q, p)) ` (dom ns \<times> dom ns)" using e(1) by auto
  qed
  moreover have "finite (dom ns \<times> dom ns)" using inv by (simp add: tree_inv_def)
  ultimately have "finite (edges ns)" by (meson finite_imageI finite_subset)
  then show ?thesis using inv by (simp add: finite_acyclic_wf tree_inv_def)
qed

lemma tree_inv_edge:
  assumes "tree_inv ns" "(q, name) \<in> set (pars ns p)"
  shows "(name, p) \<in> set (kids ns q)" "isdir ns q" "q \<noteq> p"
proof -
  show k: "(name, p) \<in> set (kids ns q)" using assms by (simp add: tree_inv_def)
  then have "kids ns q \<noteq> []" by auto
  then show "isdir ns q" using assms(1) by (simp add: tree_inv_def)
  have "(q, p) \<in> edges ns" using assms(2) by (force simp: edges_def)
  then show "q \<noteq> p" using assms(1) by (auto simp: tree_inv_def acyclic_def)
qed

lemma tree_inv_iff: "tree_inv ns \<Longrightarrow> (name, c) \<in> set (kids ns p) \<longleftrightarrow> (p, name) \<in> set (pars ns c)"
  by (simp add: tree_inv_def)

lemma dir_parents_cases:
  assumes "tree_inv ns" "isdir ns p"
  obtains "pars ns p = []" | q name where "pars ns p = [(q, name)]" "p \<noteq> SPECIAL_INODE_ROOT"
proof -
  have "length (pars ns p) \<le> 1" using assms by (simp add: tree_inv_def)
  then consider "pars ns p = []" | e where "pars ns p = [e]" by (cases "pars ns p") auto
  then show thesis
  proof cases
    case 2
    then have "p \<noteq> SPECIAL_INODE_ROOT" using assms(1) by (auto simp: tree_inv_def)
    with 2 that show ?thesis by (cases e) auto
  qed (use that in auto)
qed

subsection \<open>Walking up\<close>

lemma walkUp_Nil [simp]: "walkUp f [] ns = Some ns"
  by (simp add: walkUp.simps)

lemma same_tree_stats [simp]: "same_tree ns (upd p (set_stats f) ns)"
  by (rule same_tree_upd) (simp_all add: set_stats_def)

lemma views_stats [simp]:
  "pars (upd p (set_stats f) ns) = pars ns" "kids (upd p (set_stats f) ns) = kids ns"
  "isdir (upd p (set_stats f) ns) = isdir ns"
  using same_tree_stats [of ns p f] by (simp_all only: same_tree_def)

lemma walkUp_top:
  "isdir ns p \<Longrightarrow> pars ns p = [] \<Longrightarrow> walkUp f [p] ns = Some (upd p (set_stats f) ns)"
  by (subst walkUp.simps) (simp add: Let_def)

lemma walkUp_step:
  "isdir ns p \<Longrightarrow> p \<noteq> SPECIAL_INODE_ROOT \<Longrightarrow> pars ns p = [(q, name)] \<Longrightarrow>
   walkUp f [p] ns = walkUp f [q] (upd p (set_stats f) ns)"
  by (subst walkUp.simps) (simp add: Let_def)

text \<open>
  The difference between the statistics a directory has and the sum over its entries. Walking up from a
  directory changes this difference at the directory itself only.
\<close>

definition ownStats :: "nodes \<Rightarrow> inode \<Rightarrow> StatsRecord" where
  "ownStats ns p = (case ns p of None \<Rightarrow> 0 | Some d \<Rightarrow> n_stats d)"

definition defect :: "goal_defs \<Rightarrow> nodes \<Rightarrow> inode \<Rightarrow> StatsRecord" where
  "defect goals ns p = ownStats ns p - childSum goals ns p"

lemma sum_list_single:
  fixes s :: "'a :: comm_monoid_add"
  assumes "distinct xs" "\<And>x y. x \<in> set xs \<Longrightarrow> y \<in> set xs \<Longrightarrow> P x \<Longrightarrow> P y \<Longrightarrow> x = y"
  shows "sum_list (map (\<lambda>x. if P x then s else 0) xs) = (if \<exists>x \<in> set xs. P x then s else 0)"
  using assms
proof (induction xs)
  case (Cons x xs)
  have "sum_list (map (\<lambda>x. if P x then s else 0) xs) = (if \<exists>x \<in> set xs. P x then s else 0)"
    using Cons.prems by (intro Cons.IH) auto
  then show ?case using Cons.prems by auto
qed simp

lemma nodeStats_set_stats:
  "isdir ns p \<Longrightarrow> nodeStats goals (upd p (set_stats (\<lambda>x. x + s)) ns) c = nodeStats goals ns c + (if c = p then s else 0)"
  by (auto simp: set_stats_def nodeStats_def upd_def isdir_def getStats_dir split: option.splits)

lemma ownStats_set_stats:
  "isdir ns p \<Longrightarrow> ownStats (upd p (set_stats (\<lambda>x. x + s)) ns) c = ownStats ns c + (if c = p then s else 0)"
  by (auto simp: set_stats_def ownStats_def upd_def isdir_def split: option.splits)

lemma kid_unique:
  assumes "tree_inv ns" "isdir ns p" "(a, p) \<in> set (kids ns q)" "(b, p) \<in> set (kids ns r)"
  shows "q = r \<and> a = b"
proof -
  have "(q, a) \<in> set (pars ns p)" "(r, b) \<in> set (pars ns p)" using assms by (simp_all add: tree_inv_def)
  moreover have "length (pars ns p) \<le> 1" using assms by (simp add: tree_inv_def)
  ultimately show ?thesis by (cases "pars ns p") auto
qed

lemma childSum_set_stats:
  assumes inv: "tree_inv ns" and p: "isdir ns p"
  shows "childSum goals (upd p (set_stats (\<lambda>x. x + s)) ns) q =
    childSum goals ns q + (if q \<in> fst ` set (pars ns p) then s else 0)"
proof -
  let ?ns = "upd p (set_stats (\<lambda>x. x + s)) ns"
  have k: "kids ?ns = kids ns" by simp
  have d: "distinct (kids ns q)" using inv by (simp add: tree_inv_def distinct_map)
  have "childSum goals ?ns q =
      sum_list (map (\<lambda>e. nodeStats goals ns (snd e) + (if snd e = p then s else 0)) (kids ns q))"
    by (simp add: childSum_def k nodeStats_set_stats [OF p])
  also have "\<dots> = childSum goals ns q + sum_list (map (\<lambda>e. if snd e = p then s else 0) (kids ns q))"
    by (simp add: childSum_def sum_list_addf)
  also have "sum_list (map (\<lambda>e. if snd e = p then s else 0) (kids ns q)) =
      (if \<exists>e \<in> set (kids ns q). snd e = p then s else 0)"
  proof (rule sum_list_single [OF d])
    fix x y assume "x \<in> set (kids ns q)" "y \<in> set (kids ns q)" "snd x = p" "snd y = p"
    moreover from this obtain a b where "x = (a, p)" "y = (b, p)" by (metis prod.collapse)
    ultimately show "x = y" using kid_unique [OF inv p, of a q b q] by simp
  qed
  also have "(\<exists>e \<in> set (kids ns q). snd e = p) \<longleftrightarrow> (\<exists>name. (name, p) \<in> set (kids ns q))" by force
  also have "\<dots> \<longleftrightarrow> (\<exists>name. (q, name) \<in> set (pars ns p))" using inv by (simp add: tree_inv_def)
  also have "\<dots> \<longleftrightarrow> q \<in> fst ` set (pars ns p)" by force
  finally show ?thesis .
qed

lemma defect_set_stats:
  assumes "tree_inv ns" "isdir ns p"
  shows "defect goals (upd p (set_stats (\<lambda>x. x + s)) ns) q =
    defect goals ns q + (if q = p then s else 0) - (if q \<in> fst ` set (pars ns p) then s else 0)"
  by (simp add: defect_def ownStats_set_stats [OF assms(2)] childSum_set_stats [OF assms])

text \<open>What the walk leaves alone: everything but the statistics of directories.\<close>

definition stats_only :: "nodes \<Rightarrow> nodes \<Rightarrow> bool" where
  "stats_only ns ns' \<longleftrightarrow>
     (\<forall>i. ns' i = ns i \<or> (\<exists>d s. ns i = Some d \<and> is_dir d \<and> ns' i = Some (d\<lparr>n_stats := s\<rparr>)))"

lemma stats_only_refl [simp]: "stats_only ns ns" by (simp add: stats_only_def)

lemma stats_only_set_stats: "isdir ns p \<Longrightarrow> stats_only ns (upd p (set_stats f) ns)"
  by (auto simp: set_stats_def stats_only_def upd_def isdir_def split: option.splits)

lemma stats_only_trans [trans]:
  assumes "stats_only a b" "stats_only b c"
  shows "stats_only a c"
  unfolding stats_only_def
proof
  fix i
  from assms(1) consider "b i = a i" | d s where "a i = Some d" "is_dir d" "b i = Some (d\<lparr>n_stats := s\<rparr>)"
    unfolding stats_only_def by blast
  then show "c i = a i \<or> (\<exists>d s. a i = Some d \<and> is_dir d \<and> c i = Some (d\<lparr>n_stats := s\<rparr>))"
  proof cases
    case 1
    moreover have "c i = b i \<or> (\<exists>d s. b i = Some d \<and> is_dir d \<and> c i = Some (d\<lparr>n_stats := s\<rparr>))"
      using assms(2) by (simp add: stats_only_def)
    ultimately show ?thesis by simp
  next
    case 2
    from assms(2) consider "c i = b i" | e r where "b i = Some e" "c i = Some (e\<lparr>n_stats := r\<rparr>)"
      unfolding stats_only_def by blast
    then show ?thesis using 2 by cases auto
  qed
qed

lemma walkUp_defect:
  assumes "wf R" "tree_inv ns" "edges ns = R" "isdir ns p"
  shows "\<exists>ns'. walkUp (\<lambda>x. x + s) [p] ns = Some ns' \<and> same_tree ns ns' \<and> stats_only ns ns' \<and>
    (\<forall>q. defect goals ns' q = defect goals ns q + (if q = p then s else 0))"
  using assms
proof (induction p arbitrary: ns rule: wf_induct_rule)
  case (less p)
  note inv = less.prems(1) and p = less.prems(3)
  let ?ns = "upd p (set_stats (\<lambda>x. x + s)) ns"
  from inv p show ?case
  proof (cases rule: dir_parents_cases)
    case 1
    then show ?thesis
      using walkUp_top [OF p] stats_only_set_stats [OF p] defect_set_stats [OF inv p] by simp
  next
    case (2 q name)
    have q: "(q, p) \<in> R" "isdir ns q" "q \<noteq> p"
      using tree_inv_edge [OF inv, of q name p] 2(1) less.prems(2) by (auto simp: edges_def)
    have "tree_inv ?ns" "edges ?ns = R" "isdir ?ns q"
      using inv less.prems(2) q(2) tree_inv_same [OF same_tree_stats] edges_same [OF same_tree_stats] by simp_all
    from less.IH [OF q(1) this] obtain ns' where
      ns': "walkUp (\<lambda>x. x + s) [q] ?ns = Some ns'" "same_tree ?ns ns'" "stats_only ?ns ns'"
        "\<And>r. defect goals ns' r = defect goals ?ns r + (if r = q then s else 0)" by blast
    have "same_tree ns ns'" by (rule same_tree_trans [OF same_tree_stats ns'(2)])
    moreover have "stats_only ns ns'" by (rule stats_only_trans [OF stats_only_set_stats [OF p] ns'(3)])
    moreover have "defect goals ns' r = defect goals ns r + (if r = p then s else 0)" for r
      using q(3) by (simp add: ns'(4) defect_set_stats [OF inv p] 2(1))
    ultimately show ?thesis using ns'(1) walkUp_step [OF p 2(2,1)] by auto
  qed
qed


lemma addStats_law:
  assumes "tree_inv ns" "isdir ns p"
  shows "\<exists>ns'. addStats s p ns = Some ns' \<and> same_tree ns ns' \<and> stats_only ns ns' \<and>
    (\<forall>q. defect goals ns' q = defect goals ns q + (if q = p then s else 0))"
  unfolding addStats_def by (rule walkUp_defect [OF wf_edges [OF assms(1)] assms(1) refl assms(2)])

lemma subStats_eq: "subStats s p ns = addStats (- s) p ns"
  by (simp add: subStats_def addStats_def)

text \<open>A node that is not among the ancestors of a directory does not matter to the walk.\<close>

lemma upd_commute: "i \<noteq> j \<Longrightarrow> upd i f (upd j g ns) = upd j g (upd i f ns)"
  by (auto simp: upd_def)

lemma upd_upd: "upd i f (upd i g ns) = upd i (\<lambda>n. f (g n)) ns"
  by (simp add: upd_def option.map_comp comp_def)

lemma walkUp_commute:
  assumes "wf R" "tree_inv ns" "edges ns = R" "isdir ns p" "(c, p) \<notin> R\<^sup>*" "\<And>n. n_type (h n) = n_type n"
  shows "walkUp f [p] (upd c h ns) = map_option (upd c h) (walkUp f [p] ns)"
  using assms(1-5)
proof (induction p arbitrary: ns rule: wf_induct_rule)
  case (less p)
  note inv = less.prems(1) and p = less.prems(3)
  have pc: "p \<noteq> c" using less.prems(4) by auto
  have p': "isdir (upd c h ns) p" "pars (upd c h ns) p = pars ns p" using pc p by (simp_all add: isdir_upd pars_upd)
  have swap: "upd p (set_stats f) (upd c h ns) = upd c h (upd p (set_stats f) ns)" by (rule upd_commute [OF pc])
  from inv p show ?case
  proof (cases rule: dir_parents_cases)
    case 1
    then show ?thesis using walkUp_top [OF p] walkUp_top [OF p'(1)] p'(2) swap by simp
  next
    case (2 q name)
    have q: "(q, p) \<in> R" "isdir ns q"
      using tree_inv_edge [OF inv, of q name p] 2(1) less.prems(2) by (auto simp: edges_def)
    have "(c, q) \<notin> R\<^sup>*" using q(1) less.prems(4) by (meson rtrancl.rtrancl_into_rtrancl)
    then have "walkUp f [q] (upd c h (upd p (set_stats f) ns)) = map_option (upd c h) (walkUp f [q] (upd p (set_stats f) ns))"
      using inv q less.prems(2) tree_inv_same [OF same_tree_stats] edges_same [OF same_tree_stats]
      by (intro less.IH) simp_all
    then show ?thesis
      using walkUp_step [OF p 2(2,1)] walkUp_step [OF p'(1) 2(2), of q name f] p'(2) 2(1) swap by simp
  qed
qed

section \<open>Adding and removing an edge\<close>

lemma tree_inv_insert:
  assumes inv: "tree_inv ns" and views: "dom ns' = dom ns" "isdir ns' = isdir ns"
      "pars ns' = (pars ns)(c := pars ns c @ [(p, name)])" "kids ns' = (kids ns)(p := kids ns p @ [(name, c)])"
    and p: "isdir ns p" and name: "name \<notin> fst ` set (kids ns p)" and c: "(c, p) \<notin> (edges ns)\<^sup>*"
      "isdir ns c \<Longrightarrow> pars ns c = []" "c \<noteq> SPECIAL_INODE_ROOT"
  shows "tree_inv ns'"
proof -
  have new: "(name, c) \<notin> set (kids ns p)" using name by force
  have iff: "(nm, x) \<in> set (kids ns q) \<longleftrightarrow> (q, nm) \<in> set (pars ns x)" for nm x q
    using inv by (simp add: tree_inv_def)
  have "edges ns' = insert (p, c) (edges ns)" by (auto simp: edges_def views(3) split: if_splits)
  then have "acyclic (edges ns')" using inv c(1) by (simp add: tree_inv_def)
  moreover have "distinct (pars ns' x)" for x using inv new iff by (simp add: tree_inv_def views(3))
  moreover have "isdir ns' x \<longrightarrow> length (pars ns' x) \<le> 1" for x using inv c(2) by (simp add: tree_inv_def views)
  moreover have "distinct (map fst (kids ns' x))" for x using inv name by (simp add: tree_inv_def views(4))
  moreover have "(nm, x) \<in> set (kids ns' q) \<longleftrightarrow> (q, nm) \<in> set (pars ns' x)" for nm x q
    using iff by (auto simp: views(3,4))
  ultimately show ?thesis using inv p c(3) by (simp add: tree_inv_def views)
qed

lemma tree_inv_delete:
  assumes inv: "tree_inv ns" and views: "dom ns' = dom ns" "isdir ns' = isdir ns"
      "pars ns' = (pars ns)(c := remove1 (p, name) (pars ns c))" "kids ns' = (kids ns)(p := remove1 (name, c) (kids ns p))"
  shows "tree_inv ns'"
proof -
  have iff: "(nm, x) \<in> set (kids ns q) \<longleftrightarrow> (q, nm) \<in> set (pars ns x)" for nm x q
    using inv by (simp add: tree_inv_def)
  have d: "distinct (pars ns x)" "distinct (map fst (kids ns x))" for x using inv by (simp_all add: tree_inv_def)
  then have dk: "distinct (kids ns x)" for x by (simp add: distinct_map)
  have "edges ns' \<subseteq> edges ns" using set_remove1_subset by (fastforce simp: edges_def views(3) split: if_splits)
  then have "acyclic (edges ns')" using inv acyclic_subset by (auto simp: tree_inv_def)
  moreover have "isdir ns' x \<longrightarrow> length (pars ns' x) \<le> 1" for x
    using inv by (auto simp: tree_inv_def views length_remove1 intro: le_trans [OF diff_le_self])
  moreover have "distinct (map fst (kids ns' x))" for x
    using d(2) [of p] d(2) by (auto simp: views(4) distinct_map intro: inj_on_diff)
  moreover have "(nm, x) \<in> set (kids ns' q) \<longleftrightarrow> (q, nm) \<in> set (pars ns' x)" for nm x q
    using iff d(1) dk by (auto simp: views(3,4))
  moreover have "kids ns' x \<noteq> [] \<longrightarrow> isdir ns' x" for x
    using inv by (cases "kids ns p = []") (auto simp: tree_inv_def views)
  ultimately show ?thesis using inv d(1) by (simp add: tree_inv_def views)
qed


subsection \<open>Updates that statistics do not see\<close>

definition nlinkOf :: "nodes \<Rightarrow> inode \<Rightarrow> 32 word" where
  "nlinkOf ns p = (case ns p of None \<Rightarrow> 0 | Some d \<Rightarrow> n_nlink d)"

lemma stats_inv_alt:
  "stats_inv goals ns \<longleftrightarrow> (\<forall>p. isdir ns p \<longrightarrow> defect goals ns p = 0 \<and> nlinkOf ns p = 2 + of_nat (subdirs ns p))"
  by (auto simp: stats_inv_def isdir_def defect_def ownStats_def nlinkOf_def split: option.splits)

lemma getStats_cong:
  assumes "n_type n' = n_type n" "n_goal n' = n_goal n" "n_length n' = n_length n" "n_chunks n' = n_chunks n"
    "n_path_length n' = n_path_length n" "n_stats n' = n_stats n"
  shows "getStats goals n' = getStats goals n"
proof -
  have l: "lastChunkBlocks n' = lastChunkBlocks n" "isLastFileChunkNonEmpty n' = isLastFileChunkNonEmpty n"
    using assms by (simp_all add: lastChunkBlocks_def isLastFileChunkNonEmpty_def)
  have "realSize_loop n' c s sl fs = realSize_loop n c s sl fs" for c s sl fs
  proof (induction sl arbitrary: fs)
    case (Cons x sl)
    then show ?case by (cases x) (simp_all add: l Let_def)
  qed simp
  then have "fileRealSize goals n' c s = fileRealSize goals n c s" "fileSize n' c = fileSize n c"
    "getLiveFileChunkCount n' = getLiveFileChunkCount n" for c s
    using assms l by (simp_all add: getLiveFileChunkCount_def fileSize_def fileRealSize_def Let_def)
  then show ?thesis using assms by (simp add: getStats_def is_file_def)
qed

text \<open>An update of a node is quiet when neither the tree nor the statistics depend on what it changes.\<close>

definition quiet :: "(FSNode \<Rightarrow> FSNode) \<Rightarrow> bool" where
  "quiet f \<longleftrightarrow> (\<forall>n. n_type (f n) = n_type n \<and> n_goal (f n) = n_goal n \<and> n_length (f n) = n_length n \<and>
     n_chunks (f n) = n_chunks n \<and> n_path_length (f n) = n_path_length n \<and> n_stats (f n) = n_stats n \<and>
     n_parents (f n) = n_parents n \<and> n_entries (f n) = n_entries n \<and> n_nlink (f n) = n_nlink n)"

definition same_fs :: "goal_defs \<Rightarrow> nodes \<Rightarrow> nodes \<Rightarrow> bool" where
  "same_fs goals ns ns' \<longleftrightarrow> same_tree ns ns' \<and> nodeStats goals ns' = nodeStats goals ns \<and>
     ownStats ns' = ownStats ns \<and> nlinkOf ns' = nlinkOf ns"

lemma same_fs_trans [trans]: "same_fs goals a b \<Longrightarrow> same_fs goals b c \<Longrightarrow> same_fs goals a c"
  by (simp add: same_fs_def same_tree_def)

lemma quiet_upd:
  assumes "quiet f"
  shows "same_fs goals ns (upd i f ns)"
proof -
  have "getStats goals (f n) = getStats goals n" for n using assms by (intro getStats_cong) (simp_all add: quiet_def)
  then have "nodeStats goals (upd i f ns) c = nodeStats goals ns c" for c
    by (simp add: nodeStats_def upd_def split: option.splits)
  moreover have "ownStats (upd i f ns) c = ownStats ns c" "nlinkOf (upd i f ns) c = nlinkOf ns c" for c
    using assms by (simp_all add: ownStats_def nlinkOf_def upd_def quiet_def split: option.splits)
  moreover have "same_tree ns (upd i f ns)" using assms by (intro same_tree_upd) (simp_all add: quiet_def)
  ultimately show ?thesis by (simp add: same_fs_def fun_eq_iff)
qed

lemma same_fs_inv:
  assumes "same_fs goals ns ns'"
  shows "tree_inv ns' = tree_inv ns" "defect goals ns' = defect goals ns" "subdirs ns' = subdirs ns"
    "stats_inv goals ns' = stats_inv goals ns"
proof -
  show "tree_inv ns' = tree_inv ns" using assms tree_inv_same by (simp add: same_fs_def)
  show *: "defect goals ns' = defect goals ns" "subdirs ns' = subdirs ns"
    using assms by (simp_all add: same_fs_def same_tree_def fun_eq_iff defect_def childSum_def subdirs_def)
  then show "stats_inv goals ns' = stats_inv goals ns"
    using assms by (simp add: stats_inv_alt same_fs_def same_tree_def)
qed

definition fs_inv :: "goal_defs \<Rightarrow> nodes \<Rightarrow> bool" where
  "fs_inv goals ns \<longleftrightarrow> tree_inv ns \<and> stats_inv goals ns"

lemma fs_inv_same: "same_fs goals ns ns' \<Longrightarrow> fs_inv goals ns' = fs_inv goals ns"
  using same_fs_inv by (simp add: fs_inv_def)

subsection \<open>Frames\<close>

text \<open>What neither adding nor removing an edge changes.\<close>

definition core :: "FSNode \<Rightarrow> FSNode" where
  "core n = n\<lparr>n_parents := [], n_entries := [], n_stats := 0, n_nlink := 0, n_mtime := 0, n_ctime := 0\<rparr>"

lemma core_upd [simp]:
  "core (n\<lparr>n_parents := x1\<rparr>) = core n" "core (n\<lparr>n_entries := x2\<rparr>) = core n" "core (n\<lparr>n_stats := x3\<rparr>) = core n"
  "core (n\<lparr>n_nlink := x4\<rparr>) = core n" "core (n\<lparr>n_mtime := x5\<rparr>) = core n" "core (n\<lparr>n_ctime := x6\<rparr>) = core n"
  by (simp_all add: core_def)

definition same_core :: "nodes \<Rightarrow> nodes \<Rightarrow> bool" where
  "same_core ns ns' \<longleftrightarrow> (\<forall>i. map_option core (ns' i) = map_option core (ns i))"

lemma same_core_refl [simp]: "same_core ns ns" by (simp add: same_core_def)

lemma same_core_trans [trans]: "same_core a b \<Longrightarrow> same_core b c \<Longrightarrow> same_core a c" by (simp add: same_core_def)

lemma same_core_upd: "(\<And>n. core (f n) = core n) \<Longrightarrow> same_core ns (upd i f ns)"
  by (simp add: same_core_def upd_def option.map_comp comp_def)

lemma same_core_updI: "same_core a b \<Longrightarrow> (\<And>n. core (f n) = core n) \<Longrightarrow> same_core a (upd i f b)"
  by (rule same_core_trans [OF _ same_core_upd])

lemma same_core_stats: "stats_only ns ns' \<Longrightarrow> same_core ns ns'"
  unfolding same_core_def
proof
  fix i assume "stats_only ns ns'"
  then consider "ns' i = ns i" | d s where "ns i = Some d" "ns' i = Some (d\<lparr>n_stats := s\<rparr>)"
    unfolding stats_only_def by blast
  then show "map_option core (ns' i) = map_option core (ns i)" by cases (simp_all add: core_def)
qed


subsection \<open>Adding an edge\<close>

lemma addEdge_eq:
  assumes "ns parent = Some d" "ns child = Some n" "parent \<noteq> child"
  shows "addEdge parent child name ns =
    ns(parent \<mapsto> d\<lparr>n_entries := n_entries d @ [(name, child)], n_nlink := n_nlink d + (if is_dir n then 1 else 0)\<rparr>,
       child \<mapsto> n\<lparr>n_parents := n_parents n @ [(parent, name)]\<rparr>)"
  using assms by (simp add: addEdge_def Let_def upd_def isdir_def fun_upd_twist)

text \<open>The views of a table in which two nodes are replaced.\<close>

lemma views_two:
  assumes "ns p = Some d" "ns c = Some n" "p \<noteq> c" "n_type d' = n_type d" "n_type n' = n_type n"
    "getStats goals d' = getStats goals d" "getStats goals n' = getStats goals n"
    "n_stats d' = n_stats d" "n_stats n' = n_stats n" "core d' = core d" "core n' = core n"
  shows "dom (ns(p \<mapsto> d', c \<mapsto> n')) = dom ns" "isdir (ns(p \<mapsto> d', c \<mapsto> n')) = isdir ns"
    "pars (ns(p \<mapsto> d', c \<mapsto> n')) = (pars ns)(p := n_parents d', c := n_parents n')"
    "kids (ns(p \<mapsto> d', c \<mapsto> n')) = (kids ns)(p := n_entries d', c := n_entries n')"
    "nodeStats goals (ns(p \<mapsto> d', c \<mapsto> n')) = nodeStats goals ns" "ownStats (ns(p \<mapsto> d', c \<mapsto> n')) = ownStats ns"
    "nlinkOf (ns(p \<mapsto> d', c \<mapsto> n')) = (nlinkOf ns)(p := n_nlink d', c := n_nlink n')"
    "same_core ns (ns(p \<mapsto> d', c \<mapsto> n'))"
  using assms
  by (auto simp: isdir_def pars_def kids_def nodeStats_def ownStats_def nlinkOf_def same_core_def fun_eq_iff)

lemma addEdge_views:
  assumes "ns parent = Some d" "ns child = Some n" "parent \<noteq> child"
  shows "dom (addEdge parent child name ns) = dom ns" "isdir (addEdge parent child name ns) = isdir ns"
    "pars (addEdge parent child name ns) = (pars ns)(child := pars ns child @ [(parent, name)])"
    "kids (addEdge parent child name ns) = (kids ns)(parent := kids ns parent @ [(name, child)])"
    "nodeStats goals (addEdge parent child name ns) = nodeStats goals ns"
    "ownStats (addEdge parent child name ns) = ownStats ns"
    "nlinkOf (addEdge parent child name ns) = (nlinkOf ns)(parent := nlinkOf ns parent + (if isdir ns child then 1 else 0))"
    "same_core ns (addEdge parent child name ns)"
proof -
  let ?d = "d\<lparr>n_entries := n_entries d @ [(name, child)], n_nlink := n_nlink d + (if is_dir n then 1 else 0)\<rparr>"
  let ?n = "n\<lparr>n_parents := n_parents n @ [(parent, name)]\<rparr>"
  have "getStats goals ?d = getStats goals d" "getStats goals ?n = getStats goals n" for goals
    by (rule getStats_cong, simp_all)+
  then have v: "dom (ns(parent \<mapsto> ?d, child \<mapsto> ?n)) = dom ns" "isdir (ns(parent \<mapsto> ?d, child \<mapsto> ?n)) = isdir ns"
    "pars (ns(parent \<mapsto> ?d, child \<mapsto> ?n)) = (pars ns)(parent := n_parents ?d, child := n_parents ?n)"
    "kids (ns(parent \<mapsto> ?d, child \<mapsto> ?n)) = (kids ns)(parent := n_entries ?d, child := n_entries ?n)"
    "nodeStats goals (ns(parent \<mapsto> ?d, child \<mapsto> ?n)) = nodeStats goals ns" "ownStats (ns(parent \<mapsto> ?d, child \<mapsto> ?n)) = ownStats ns"
    "nlinkOf (ns(parent \<mapsto> ?d, child \<mapsto> ?n)) = (nlinkOf ns)(parent := n_nlink ?d, child := n_nlink ?n)"
    "same_core ns (ns(parent \<mapsto> ?d, child \<mapsto> ?n))" for goals
    by (intro views_two [OF assms]; simp add: core_def)+
  show "dom (addEdge parent child name ns) = dom ns" "isdir (addEdge parent child name ns) = isdir ns"
    "pars (addEdge parent child name ns) = (pars ns)(child := pars ns child @ [(parent, name)])"
    "kids (addEdge parent child name ns) = (kids ns)(parent := kids ns parent @ [(name, child)])"
    "nodeStats goals (addEdge parent child name ns) = nodeStats goals ns"
    "ownStats (addEdge parent child name ns) = ownStats ns"
    "nlinkOf (addEdge parent child name ns) = (nlinkOf ns)(parent := nlinkOf ns parent + (if isdir ns child then 1 else 0))"
    unfolding addEdge_eq [OF assms] v using assms
    by (simp_all add: pars_Some kids_Some isdir_Some nlinkOf_def fun_upd_idem)
  show "same_core ns (addEdge parent child name ns)" unfolding addEdge_eq [OF assms] by (rule v(8))
qed

lemma addEdge_defect:
  assumes "ns parent = Some d" "ns child = Some n" "parent \<noteq> child"
  shows "defect goals (addEdge parent child name ns) q =
    defect goals ns q - (if q = parent then nodeStats goals ns child else 0)"
  by (simp add: defect_def childSum_def addEdge_views [OF assms])

lemma addEdge_subdirs:
  assumes "ns parent = Some d" "ns child = Some n" "parent \<noteq> child"
  shows "subdirs (addEdge parent child name ns) q = subdirs ns q + (if q = parent \<and> isdir ns child then 1 else 0)"
  by (simp add: subdirs_def addEdge_views [OF assms])

definition can_link :: "nodes \<Rightarrow> inode \<Rightarrow> inode \<Rightarrow> string \<Rightarrow> bool" where
  "can_link ns parent child name \<longleftrightarrow>
     isdir ns parent \<and> (\<exists>n. ns child = Some n \<and> n_type n \<noteq> kTrash) \<and> lookup ns parent name = None \<and>
     (child, parent) \<notin> (edges ns)\<^sup>* \<and> (isdir ns child \<longrightarrow> pars ns child = []) \<and> child \<noteq> SPECIAL_INODE_ROOT"


text \<open>Linking succeeds where it may happen, keeps the tree, and makes the statistics right again.\<close>

lemma core_type: "core n' = core n \<Longrightarrow> n_type n' = n_type n"
  by (drule arg_cong [of _ _ n_type]) (simp add: core_def)

lemma same_core_type: "same_core ns ns' \<Longrightarrow> map_option n_type (ns' i) = map_option n_type (ns i)"
proof -
  assume "same_core ns ns'"
  then have "map_option core (ns' i) = map_option core (ns i)" by (simp add: same_core_def)
  then show ?thesis by (cases "ns i"; cases "ns' i") (auto dest: core_type)
qed

lemma quiet_times [simp]:
  "quiet (\<lambda>n. n\<lparr>n_mtime := t, n_ctime := t\<rparr>)" "quiet (\<lambda>n. n\<lparr>n_ctime := t\<rparr>)"
  by (simp_all add: quiet_def)

lemma nlinkOf_stats_only: "stats_only ns ns' \<Longrightarrow> nlinkOf ns' = nlinkOf ns"
proof
  fix i assume "stats_only ns ns'"
  then consider "ns' i = ns i" | d s where "ns i = Some d" "ns' i = Some (d\<lparr>n_stats := s\<rparr>)"
    unfolding stats_only_def by blast
  then show "nlinkOf ns' i = nlinkOf ns i" by cases (simp_all add: nlinkOf_def)
qed

lemma stats_only_nondir: "stats_only ns ns' \<Longrightarrow> \<not> isdir ns i \<Longrightarrow> ns' i = ns i"
proof -
  assume "stats_only ns ns'" "\<not> isdir ns i"
  then consider "ns' i = ns i" | d s where "ns i = Some d" "is_dir d" unfolding stats_only_def by blast
  then show ?thesis using \<open>\<not> isdir ns i\<close> by cases (simp_all add: isdir_def)
qed

lemma fs_link_law:
  assumes inv: "tree_inv ns" and can: "can_link ns parent child name"
  shows "\<exists>ns'. fs_link goals ts parent child name ns = Some ns' \<and> tree_inv ns' \<and> same_core ns ns' \<and>
    dom ns' = dom ns \<and> isdir ns' = isdir ns \<and>
    pars ns' = (pars ns)(child := pars ns child @ [(parent, name)]) \<and>
    kids ns' = (kids ns)(parent := kids ns parent @ [(name, child)]) \<and>
    (\<forall>i. \<not> isdir ns i \<and> i \<noteq> child \<longrightarrow> ns' i = ns i) \<and>
    (stats_inv goals ns \<longrightarrow> stats_inv goals ns')"
proof -
  from can obtain d n where pc: "ns parent = Some d" "ns child = Some n" "parent \<noteq> child"
      and n: "n_type n \<noteq> kTrash" and p: "isdir ns parent"
    by (auto simp: can_link_def isdir_def split: option.splits)
  let ?ns = "addEdge parent child name ns" and ?s = "nodeStats goals ns child"
  note v = addEdge_views [OF pc, where name = name]
  have inv': "tree_inv ?ns"
    by (rule tree_inv_insert [OF inv v(1-4) p])
      (use can in \<open>auto simp: can_link_def lookup_def map_of_eq_None_iff\<close>)
  have "isdir ?ns parent" using p by (simp add: v)
  with inv' obtain ns4 where ns4: "addStats ?s parent ?ns = Some ns4" "same_tree ?ns ns4" "stats_only ?ns ns4"
      "\<And>q. defect goals ns4 q = defect goals ?ns q + (if q = parent then ?s else 0)"
    using addStats_law [of ?ns parent ?s goals] by blast
  have t4: "map_option n_type (upd parent (\<lambda>d. d\<lparr>n_mtime := ts, n_ctime := ts\<rparr>) ns4 child) \<noteq> Some kTrash"
    using same_core_type [OF v(8), of child] same_core_type [OF same_core_stats [OF ns4(3)], of child] pc n
    by (auto simp: upd_other)
  define ns' where "ns' = (if ts > 0 then
      upd child (\<lambda>n. n\<lparr>n_ctime := ts\<rparr>) (upd parent (\<lambda>d. d\<lparr>n_mtime := ts, n_ctime := ts\<rparr>) ns4) else ns4)"
  have link: "fs_link goals ts parent child name ns = Some ns'"
    using ns4(1) t4 by (auto simp: fs_link_def v(5) ns'_def Let_def)
  have "same_fs goals ns4 ns'"
    unfolding ns'_def using same_fs_trans [OF quiet_upd quiet_upd] by (simp add: same_fs_def)
  moreover have "same_core ns4 ns'"
    unfolding ns'_def by (auto intro!: same_core_updI)
  ultimately have "same_fs goals ns4 ns'" "same_core ns4 ns'" by auto
  note same = same_fs_inv [OF this(1)] and core = this(2) and fs = this(1)
  have views: "dom ns' = dom ?ns" "isdir ns' = isdir ?ns" "pars ns' = pars ?ns" "kids ns' = kids ?ns"
    using ns4(2) fs by (simp_all add: same_fs_def same_tree_def)
  have "tree_inv ns'" using inv' ns4(2) tree_inv_same same(1) by blast
  moreover have "same_core ns ns'"
    by (rule same_core_trans [OF same_core_trans [OF v(8) same_core_stats [OF ns4(3)]] core])
  moreover have "stats_inv goals ns'" if "stats_inv goals ns"
  proof -
    have "defect goals ns' q = defect goals ns q" for q by (simp add: same(2) ns4(4) addEdge_defect [OF pc])
    moreover have "nlinkOf ns' = nlinkOf ?ns" using fs nlinkOf_stats_only [OF ns4(3)] by (simp add: same_fs_def)
    moreover have "subdirs ns' = subdirs ?ns" by (simp add: fun_eq_iff subdirs_def views)
    ultimately show ?thesis
      using that by (auto simp: stats_inv_alt views v addEdge_subdirs [OF pc])
  qed
  moreover have "ns' i = ns i" if "\<not> isdir ns i" "i \<noteq> child" for i
  proof -
    have "i \<noteq> parent" using that(1) p by auto
    then have "ns' i = ns4 i" "?ns i = ns i" using that(2) by (simp_all add: ns'_def upd_other addEdge_eq [OF pc])
    moreover have "ns4 i = ?ns i" using stats_only_nondir [OF ns4(3)] that(1) by (simp add: v(2))
    ultimately show ?thesis by simp
  qed
  ultimately show ?thesis using link views v(1-4) by auto
qed


subsection \<open>Removing an edge\<close>

text \<open>
  \<open>removeEdge\<close> takes the entry out of the parent, walks up, and only then takes the parent out of the
  child. \<open>cutEdge\<close> is the table in which both are gone.
\<close>

definition cutEdge :: "inode \<Rightarrow> string \<Rightarrow> inode \<Rightarrow> nodes \<Rightarrow> nodes" where
  "cutEdge parent name child ns =
     upd child (\<lambda>n. n\<lparr>n_parents := remove1 (parent, name) (n_parents n)\<rparr>)
       (upd parent (\<lambda>d. d\<lparr>n_entries := remove1 (name, child) (n_entries d)\<rparr>) ns)"

lemma cutEdge_eq:
  assumes "ns parent = Some d" "ns child = Some n" "parent \<noteq> child"
  shows "cutEdge parent name child ns =
    ns(parent \<mapsto> d\<lparr>n_entries := remove1 (name, child) (n_entries d)\<rparr>,
       child \<mapsto> n\<lparr>n_parents := remove1 (parent, name) (n_parents n)\<rparr>)"
  using assms by (simp add: cutEdge_def upd_def)

lemma cutEdge_views:
  assumes "ns parent = Some d" "ns child = Some n" "parent \<noteq> child"
  shows "dom (cutEdge parent name child ns) = dom ns" "isdir (cutEdge parent name child ns) = isdir ns"
    "pars (cutEdge parent name child ns) = (pars ns)(child := remove1 (parent, name) (pars ns child))"
    "kids (cutEdge parent name child ns) = (kids ns)(parent := remove1 (name, child) (kids ns parent))"
    "nodeStats goals (cutEdge parent name child ns) = nodeStats goals ns"
    "ownStats (cutEdge parent name child ns) = ownStats ns"
    "nlinkOf (cutEdge parent name child ns) = nlinkOf ns"
    "same_core ns (cutEdge parent name child ns)"
proof -
  let ?d = "d\<lparr>n_entries := remove1 (name, child) (n_entries d)\<rparr>"
  let ?n = "n\<lparr>n_parents := remove1 (parent, name) (n_parents n)\<rparr>"
  have "getStats goals ?d = getStats goals d" "getStats goals ?n = getStats goals n" for goals
    by (rule getStats_cong, simp_all)+
  then have v: "dom (ns(parent \<mapsto> ?d, child \<mapsto> ?n)) = dom ns" "isdir (ns(parent \<mapsto> ?d, child \<mapsto> ?n)) = isdir ns"
    "pars (ns(parent \<mapsto> ?d, child \<mapsto> ?n)) = (pars ns)(parent := n_parents ?d, child := n_parents ?n)"
    "kids (ns(parent \<mapsto> ?d, child \<mapsto> ?n)) = (kids ns)(parent := n_entries ?d, child := n_entries ?n)"
    "nodeStats goals (ns(parent \<mapsto> ?d, child \<mapsto> ?n)) = nodeStats goals ns" "ownStats (ns(parent \<mapsto> ?d, child \<mapsto> ?n)) = ownStats ns"
    "nlinkOf (ns(parent \<mapsto> ?d, child \<mapsto> ?n)) = (nlinkOf ns)(parent := n_nlink ?d, child := n_nlink ?n)"
    "same_core ns (ns(parent \<mapsto> ?d, child \<mapsto> ?n))" for goals
    by (intro views_two [OF assms]; simp add: core_def)+
  show "dom (cutEdge parent name child ns) = dom ns" "isdir (cutEdge parent name child ns) = isdir ns"
    "pars (cutEdge parent name child ns) = (pars ns)(child := remove1 (parent, name) (pars ns child))"
    "kids (cutEdge parent name child ns) = (kids ns)(parent := remove1 (name, child) (kids ns parent))"
    "nodeStats goals (cutEdge parent name child ns) = nodeStats goals ns"
    "ownStats (cutEdge parent name child ns) = ownStats ns"
    "nlinkOf (cutEdge parent name child ns) = nlinkOf ns"
    unfolding cutEdge_eq [OF assms] v using assms
    by (simp_all add: pars_Some kids_Some isdir_Some nlinkOf_def fun_upd_idem)
  show "same_core ns (cutEdge parent name child ns)" unfolding cutEdge_eq [OF assms] by (rule v(8))
qed

lemma cutEdge_defect:
  assumes "ns parent = Some d" "ns child = Some n" "parent \<noteq> child" "(name, child) \<in> set (kids ns parent)"
  shows "defect goals (cutEdge parent name child ns) q =
    defect goals ns q + (if q = parent then nodeStats goals ns child else 0)"
  using sum_list_map_remove1 [OF assms(4), of "\<lambda>e. nodeStats goals ns (snd e)"]
  by (simp add: defect_def childSum_def cutEdge_views [OF assms(1-3)])

lemma length_filter_remove1:
  "x \<in> set xs \<Longrightarrow> length (filter P xs) = length (filter P (remove1 x xs)) + (if P x then 1 else 0)"
  by (induction xs) auto

lemma cutEdge_subdirs:
  assumes "ns parent = Some d" "ns child = Some n" "parent \<noteq> child" "(name, child) \<in> set (kids ns parent)"
  shows "subdirs ns q = subdirs (cutEdge parent name child ns) q + (if q = parent \<and> isdir ns child then 1 else 0)"
  using length_filter_remove1 [OF assms(4), of "\<lambda>e. isdir ns (snd e)"]
  by (simp add: subdirs_def cutEdge_views [OF assms(1-3)])

text \<open>Removing an edge that is there succeeds, keeps the tree, and keeps the statistics right.\<close>

lemma removeEdge_walk:
  assumes inv: "tree_inv ns" and e: "(name, child) \<in> set (kids ns parent)"
    and pc: "ns parent = Some d" "ns child = Some n" "parent \<noteq> child"
  shows "\<exists>ns2. subStats (nodeStats goals ns child) parent
        (upd parent (\<lambda>d. d\<lparr>n_entries := remove1 (name, child) (n_entries d)\<rparr>) ns) =
      Some (upd child (\<lambda>m. m\<lparr>n_parents := n_parents n\<rparr>) ns2) \<and>
    tree_inv ns2 \<and> same_tree (cutEdge parent name child ns) ns2 \<and> stats_only (cutEdge parent name child ns) ns2 \<and>
    (\<forall>q. defect goals ns2 q = defect goals ns q)"
proof -
  let ?c = "cutEdge parent name child ns" and ?s = "nodeStats goals ns child" and ?h = "\<lambda>m. m\<lparr>n_parents := n_parents n\<rparr>"
  let ?ns = "upd parent (\<lambda>d. d\<lparr>n_entries := remove1 (name, child) (n_entries d)\<rparr>) ns"
  note v = cutEdge_views [OF pc, where name = name]
  have inv': "tree_inv ?c" by (rule tree_inv_delete [OF inv v(1-4)])
  have "isdir ns parent" using tree_inv_edge(2) [OF inv] tree_inv_iff [OF inv] e by blast
  then have p: "isdir ?c parent" by (simp add: v)
  have "(child, parent) \<notin> (edges ns)\<^sup>*"
  proof
    assume "(child, parent) \<in> (edges ns)\<^sup>*"
    moreover have "(parent, child) \<in> edges ns" using tree_inv_iff [OF inv] e by (force simp: edges_def)
    ultimately have "(parent, parent) \<in> (edges ns)\<^sup>+" by (rule rtrancl_into_trancl2 [rotated])
    then show False using inv by (auto simp: tree_inv_def acyclic_def)
  qed
  moreover have "edges ?c \<subseteq> edges ns" using set_remove1_subset by (fastforce simp: edges_def v(3) split: if_splits)
  ultimately have nc: "(child, parent) \<notin> (edges ?c)\<^sup>*" using rtrancl_mono by blast
  obtain ns2 where ns2: "addStats (- ?s) parent ?c = Some ns2" "same_tree ?c ns2" "stats_only ?c ns2"
      "\<And>q. defect goals ns2 q = defect goals ?c q + (if q = parent then - ?s else 0)"
    using addStats_law [OF inv' p, of "- ?s" goals] by blast
  have "?ns = upd child ?h ?c" using pc by (simp add: cutEdge_eq upd_def fun_upd_twist fun_upd_idem)
  then have "subStats ?s parent ?ns = Some (upd child ?h ns2)"
    using walkUp_commute [OF wf_edges [OF inv'] inv' refl p nc, of ?h] ns2(1) by (simp add: subStats_eq addStats_def)
  moreover have "defect goals ns2 q = defect goals ns q" for q by (simp add: ns2(4) cutEdge_defect [OF pc e])
  ultimately show ?thesis using ns2 inv' tree_inv_same by blast
qed


lemma nodeStats_upd:
  "(\<And>n. getStats goals (f n) = getStats goals n) \<Longrightarrow> nodeStats goals (upd i f ns) = nodeStats goals ns"
  by (simp add: fun_eq_iff nodeStats_def upd_def split: option.splits)

lemma getStats_entries [simp]: "getStats goals (n\<lparr>n_entries := x\<rparr>) = getStats goals n"
  by (rule getStats_cong) simp_all

text \<open>What \<open>removeEdge\<close> writes into the parent after the walk.\<close>

definition afterCut :: "bool \<Rightarrow> 32 word \<Rightarrow> FSNode \<Rightarrow> FSNode" where
  "afterCut dir ts d =
     (if dir then d\<lparr>n_mtime := ts, n_ctime := ts, n_nlink := n_nlink d - 1\<rparr> else d\<lparr>n_mtime := ts, n_ctime := ts\<rparr>)"

lemma afterCut_core [simp]: "core (afterCut dir ts d) = core d"
  by (simp add: afterCut_def)

lemma removeEdge_result:
  assumes inv: "tree_inv ns" and e: "lookup ns parent name = Some child" and n: "n_type n \<noteq> kTrash"
    and pc: "ns parent = Some d" "ns child = Some n" "parent \<noteq> child"
  shows "\<exists>ns2. removeEdge goals ts parent name child ns =
      Some (upd child (\<lambda>m. m\<lparr>n_ctime := ts\<rparr>) (upd parent (afterCut (isdir ns child) ts) ns2)) \<and>
    tree_inv ns2 \<and> same_tree (cutEdge parent name child ns) ns2 \<and> stats_only (cutEdge parent name child ns) ns2 \<and>
    (\<forall>q. defect goals ns2 q = defect goals ns q)"
proof -
  have e': "(name, child) \<in> set (kids ns parent)" using e by (simp add: lookup_def map_of_SomeD)
  let ?c = "cutEdge parent name child ns" and ?h = "\<lambda>m. m\<lparr>n_parents := n_parents n\<rparr>"
  let ?g = "\<lambda>m. m\<lparr>n_parents := remove1 (parent, name) (n_parents m)\<rparr>" and ?F = "afterCut (isdir ns child) ts"
  let ?ns1 = "upd parent (\<lambda>d. d\<lparr>n_entries := remove1 (name, child) (n_entries d)\<rparr>) ns"
  note v = cutEdge_views [OF pc, where name = name]
  obtain ns2 where ns2: "subStats (nodeStats goals ns child) parent ?ns1 = Some (upd child ?h ns2)"
      "tree_inv ns2" "same_tree ?c ns2" "stats_only ?c ns2" "\<And>q. defect goals ns2 q = defect goals ns q"
    using removeEdge_walk [OF inv e' pc] by blast
  have "pars ns2 child = remove1 (parent, name) (n_parents n)" "child \<in> dom ns2"
    using ns2(3) pc by (auto simp: same_tree_def v pars_Some)
  then have "\<exists>m. ns2 child = Some m \<and> n_parents m = remove1 (parent, name) (n_parents n)" by (auto simp: pars_def)
  then have "upd child ?g (upd child ?h ns2) = ns2" by (auto simp: upd_def fun_upd_idem_iff)
  then have restore: "upd child ?g (upd parent f (upd child ?h ns2)) = upd parent f ns2" for f
    using upd_commute [OF pc(3), of f ?g "upd child ?h ns2"] by simp
  have "same_core ns ns2" by (rule same_core_trans [OF v(8) same_core_stats [OF ns2(4)]])
  from same_core_type [OF this, of child] have ty: "map_option n_type (upd parent ?F ns2 child) \<noteq> Some kTrash"
    using pc n by (auto simp: upd_other)
  have dir: "isdir (upd parent f (upd child ?h ns2)) child = isdir ns child" for f
    using pc(3) ns2(3) by (simp add: isdir_upd isdir_upd_type same_tree_def v)
  have F: "(if isdir ns child then upd parent (\<lambda>d. d\<lparr>n_nlink := n_nlink d - 1\<rparr>) (upd parent (\<lambda>d. d\<lparr>n_mtime := ts, n_ctime := ts\<rparr>) x)
      else upd parent (\<lambda>d. d\<lparr>n_mtime := ts, n_ctime := ts\<rparr>) x) = upd parent ?F x" for x
    by (simp add: upd_upd afterCut_def [abs_def])
  have "nodeStats goals ?ns1 child = nodeStats goals ns child" by (simp add: nodeStats_upd)
  then have "removeEdge goals ts parent name child ns = Some (upd child (\<lambda>m. m\<lparr>n_ctime := ts\<rparr>) (upd parent ?F ns2))"
    unfolding removeEdge_def Let_def using e ns2(1) ty by (simp only: dir F restore option.case if_False simp_thms)
  then show ?thesis using ns2 by blast
qed

lemma removeEdge_law:
  assumes inv: "tree_inv ns" and e: "lookup ns parent name = Some child" and n: "ns child = Some n" "n_type n \<noteq> kTrash"
  shows "\<exists>ns'. removeEdge goals ts parent name child ns = Some ns' \<and> tree_inv ns' \<and> same_core ns ns' \<and>
    dom ns' = dom ns \<and> isdir ns' = isdir ns \<and>
    pars ns' = (pars ns)(child := remove1 (parent, name) (pars ns child)) \<and>
    kids ns' = (kids ns)(parent := remove1 (name, child) (kids ns parent)) \<and>
    (\<forall>i. \<not> isdir ns i \<and> i \<noteq> child \<longrightarrow> ns' i = ns i) \<and>
    (stats_inv goals ns \<longrightarrow> stats_inv goals ns')"
proof -
  have e': "(name, child) \<in> set (kids ns parent)" using e by (simp add: lookup_def map_of_SomeD)
  then have "isdir ns parent" "parent \<noteq> child" using tree_inv_edge(2,3) [OF inv] tree_inv_iff [OF inv] by blast+
  note \<open>isdir ns parent\<close>
  with n \<open>parent \<noteq> child\<close> obtain d where pc: "ns parent = Some d" "ns child = Some n" "parent \<noteq> child"
    by (auto simp: isdir_def split: option.splits)
  let ?c = "cutEdge parent name child ns" and ?F = "afterCut (isdir ns child) ts"
  note v = cutEdge_views [OF pc, where name = name]
  obtain ns2 where ns2: "removeEdge goals ts parent name child ns = Some (upd child (\<lambda>m. m\<lparr>n_ctime := ts\<rparr>) (upd parent ?F ns2))"
      "tree_inv ns2" "same_tree ?c ns2" "stats_only ?c ns2" "\<And>q. defect goals ns2 q = defect goals ns q"
    using removeEdge_result [OF inv e n(2) pc] by blast
  define ns' where "ns' = upd child (\<lambda>m. m\<lparr>n_ctime := ts\<rparr>) (upd parent ?F ns2)"
  have v2: "dom ns2 = dom ns" "isdir ns2 = isdir ns"
    "pars ns2 = (pars ns)(child := remove1 (parent, name) (pars ns child))"
    "kids ns2 = (kids ns)(parent := remove1 (name, child) (kids ns parent))" "nlinkOf ns2 = nlinkOf ns"
    using ns2(3) nlinkOf_stats_only [OF ns2(4)] by (simp_all add: same_tree_def v)
  have st: "same_tree ns2 (upd parent ?F ns2)" by (rule same_tree_upd) (simp_all add: afterCut_def)
  have fs: "same_fs goals (upd parent ?F ns2) ns'" unfolding ns'_def by (rule quiet_upd) simp
  have views: "dom ns' = dom ns2" "isdir ns' = isdir ns2" "pars ns' = pars ns2" "kids ns' = kids ns2"
    using st fs by (simp_all add: same_fs_def same_tree_def)
  have "stats_inv goals ns'" if s: "stats_inv goals ns"
  proof -
    have "nodeStats goals (upd parent ?F ns2) = nodeStats goals ns2"
      by (rule nodeStats_upd, rule getStats_cong) (simp_all add: afterCut_def)
    moreover have "ownStats (upd parent ?F ns2) = ownStats ns2"
      by (auto simp: fun_eq_iff ownStats_def upd_def afterCut_def split: option.splits)
    ultimately have "defect goals (upd parent ?F ns2) q = defect goals ns2 q" for q
      using st by (simp add: defect_def childSum_def same_tree_def)
    then have "defect goals ns' q = defect goals ns q" for q using same_fs_inv(2) [OF fs] ns2(5) by simp
    moreover have "nlinkOf ns' q = nlinkOf ns q - (if q = parent \<and> isdir ns child then 1 else 0)" for q
    proof -
      have "parent \<in> dom ns2" using pc(1) by (auto simp: v2)
      then have "nlinkOf (upd parent ?F ns2) q = nlinkOf ns2 q - (if q = parent \<and> isdir ns child then 1 else 0)"
        by (auto simp: nlinkOf_def upd_def afterCut_def)
      then show ?thesis using fs by (simp add: same_fs_def v2)
    qed
    moreover have "subdirs ns' q = subdirs ?c q" for q by (simp add: subdirs_def views v2 v)
    ultimately show ?thesis
      using s cutEdge_subdirs [OF pc e'] by (auto simp: stats_inv_alt views v2)
  qed
  moreover have "tree_inv ns'" using ns2(2) tree_inv_same [OF st] same_fs_inv(1) [OF fs] by simp
  moreover have "same_core ns ns'"
    unfolding ns'_def using same_core_trans [OF v(8) same_core_stats [OF ns2(4)]] by (auto intro!: same_core_updI)
  moreover have "ns' i = ns i" if "\<not> isdir ns i" "i \<noteq> child" for i
  proof -
    have "i \<noteq> parent" using that(1) \<open>isdir ns parent\<close> by auto
    then have "ns' i = ns2 i" "?c i = ns i" using that(2) by (simp_all add: ns'_def upd_other cutEdge_eq [OF pc])
    moreover have "ns2 i = ?c i" using stats_only_nondir [OF ns2(4)] that(1) by (simp add: v(2))
    ultimately show ?thesis by simp
  qed
  ultimately show ?thesis using ns2(1) views v2 unfolding ns'_def by auto
qed


section \<open>Ancestors\<close>

lemma ancestor_loop_correct:
  assumes "wf R" "tree_inv ns" "edges ns = R" "isdir ns p"
  shows "ancestor_loop a p ns = Some ((a, p) \<in> R\<^sup>*)"
  using assms
proof (induction p rule: wf_induct_rule)
  case (less p)
  note inv = less.prems(1) and p = less.prems(3)
  show ?case
  proof (cases "a = p")
    case True
    then show ?thesis using p by (subst ancestor_loop.simps) simp
  next
    case False
    from inv p show ?thesis
    proof (cases rule: dir_parents_cases)
      case 1
      then have "(x, p) \<notin> R" for x using less.prems(2) by (auto simp: edges_def)
      then have "(a, p) \<notin> R\<^sup>*" using False by (metis rtranclE)
      then show ?thesis using 1 False p by (subst ancestor_loop.simps) simp
    next
      case (2 q name)
      have R: "(x, p) \<in> R \<longleftrightarrow> x = q" for x using 2(1) less.prems(2) by (auto simp: edges_def)
      have "isdir ns q" using tree_inv_edge [OF inv, of q name p] 2(1) by simp
      then have "ancestor_loop a q ns = Some ((a, q) \<in> R\<^sup>*)" using R inv less.prems(2) by (intro less.IH) auto
      moreover have "(a, p) \<in> R\<^sup>* \<longleftrightarrow> (a, q) \<in> R\<^sup>*" using False R by (metis rtranclE rtrancl.rtrancl_into_rtrancl)
      ultimately show ?thesis using 2(1) False p by (subst ancestor_loop.simps) simp
    qed
  qed
qed

lemma ancestor_parents_correct:
  assumes "tree_inv ns" "set ps \<subseteq> set (pars ns n)"
  shows "ancestor_parents a ps ns = Some (\<exists>(p, _) \<in> set ps. (a, p) \<in> (edges ns)\<^sup>*)"
  using assms(2)
proof (induction ps)
  case (Cons e ps)
  obtain p name where e: "e = (p, name)" by fastforce
  have "isdir ns p" using tree_inv_edge(2) [OF assms(1)] Cons.prems e by auto
  from ancestor_loop_correct [OF wf_edges [OF assms(1)] assms(1) refl this]
  show ?case using Cons by (auto simp: e split: bool.splits)
qed simp

lemma isAncestor_law:
  assumes "tree_inv ns"
  shows "isAncestor a n ns = Some ((a, n) \<in> (edges ns)\<^sup>+)"
proof -
  have "(\<exists>(p, _) \<in> set (pars ns n). (a, p) \<in> (edges ns)\<^sup>*) \<longleftrightarrow> (a, n) \<in> (edges ns)\<^sup>+"
    unfolding trancl_unfold_right by (force simp: edges_def)
  then show ?thesis using ancestor_parents_correct [OF assms, of "pars ns n" n a] by (simp add: isAncestor_def)
qed

section \<open>A change of a file\<close>

lemma updateParentStats_loop_law:
  assumes "tree_inv ns" "list_all (isdir ns) ps"
  shows "\<exists>ns'. updateParentStats_loop new prev ps ns = Some ns' \<and> same_tree ns ns' \<and> stats_only ns ns' \<and>
    (\<forall>q. defect goals ns' q = defect goals ns q + sum_list (map (\<lambda>p. if p = q then new - prev else 0) ps))"
  using assms
proof (induction ps arbitrary: ns)
  case (Cons p ps)
  obtain ns1 where ns1: "addStats (new - prev) p ns = Some ns1" "same_tree ns ns1" "stats_only ns ns1"
      "\<And>q. defect goals ns1 q = defect goals ns q + (if q = p then new - prev else 0)"
    using addStats_law [of ns p "new - prev" goals] Cons.prems by auto
  have "tree_inv ns1" "list_all (isdir ns1) ps"
    using ns1(2) Cons.prems tree_inv_same [OF ns1(2)] by (simp_all add: same_tree_def)
  from Cons.IH [OF this] obtain ns' where ns': "updateParentStats_loop new prev ps ns1 = Some ns'" "same_tree ns1 ns'"
      "stats_only ns1 ns'" "\<And>q. defect goals ns' q = defect goals ns1 q + sum_list (map (\<lambda>p. if p = q then new - prev else 0) ps)"
    by blast
  show ?case
    using ns1(1) ns'(1) same_tree_trans [OF ns1(2) ns'(2)] stats_only_trans [OF ns1(3) ns'(3)]
    by (auto simp: addSubStats_def ns'(4) ns1(4) add.assoc)
qed simp

text \<open>The entries of a directory that name a node, counted in the directory and in the node.\<close>

lemma sum_kids_parents:
  fixes s :: StatsRecord
  assumes "tree_inv ns"
  shows "sum_list (map (\<lambda>e. if snd e = c then s else 0) (kids ns q)) =
    sum_list (map (\<lambda>p. if p = q then s else 0) (map fst (pars ns c)))"
proof -
  have d: "distinct (kids ns q)" "distinct (pars ns c)" using assms by (simp_all add: tree_inv_def distinct_map)
  let ?K = "{e \<in> set (kids ns q). snd e = c}" and ?P = "{e \<in> set (pars ns c). fst e = q}"
  have "sum_list (map (\<lambda>e. if snd e = c then s else 0) (kids ns q)) = (\<Sum>e\<in>?K. s)"
    using d(1) by (simp add: sum_list_distinct_conv_sum_set sum.inter_filter)
  also have "\<dots> = (\<Sum>e\<in>?P. s)"
    by (rule sum.reindex_bij_witness [of _ "\<lambda>(q, nm). (nm, c)" "\<lambda>(nm, c). (q, nm)"]) (auto simp: tree_inv_iff [OF assms])
  also have "\<dots> = sum_list (map (\<lambda>p. if p = q then s else 0) (map fst (pars ns c)))"
    using d(2) by (simp add: sum_list_distinct_conv_sum_set sum.inter_filter comp_def)
  finally show ?thesis .
qed

end
