(* ===== verification/FsChange.thy ===== *)
theory FsChange
  imports FsTree
begin

text \<open>
  How the invariants of the tree react to the changes that are not edges: a file whose length or chunks
  change (\<open>updateParentStatsForNode\<close>), a new node, a node that is freed, a node that is replaced by one
  with the same statistics. The last section has sums over all nodes, which are what the counters and the
  quotas of the metadata server keep track of.
\<close>

section \<open>A change of a file\<close>

lemma views_replace:
  assumes "ns c = Some n" "n_parents n' = n_parents n" "n_entries n' = n_entries n" "is_dir n' = is_dir n"
  shows "same_tree ns (ns(c \<mapsto> n'))"
  using assms by (auto simp: same_tree_def fun_eq_iff pars_def kids_def isdir_def)

lemma same_fs_replace:
  assumes "ns c = Some n" "n_parents n' = n_parents n" "n_entries n' = n_entries n" "is_dir n' = is_dir n"
    "getStats goals n' = getStats goals n" "n_stats n' = n_stats n" "n_nlink n' = n_nlink n"
  shows "same_fs goals ns (ns(c \<mapsto> n'))"
  using views_replace [of ns c n n'] assms by (auto simp: same_fs_def fun_eq_iff nodeStats_def ownStats_def nlinkOf_def)

lemma file_change_defect:
  assumes inv: "tree_inv ns" and c: "ns c = Some n" "\<not> is_dir n" "\<not> is_dir n'"
    and same: "n_parents n' = n_parents n" "n_entries n' = n_entries n" and q: "isdir ns q"
  shows "defect goals (ns(c \<mapsto> n')) q =
    defect goals ns q - sum_list (map (\<lambda>p. if p = q then getStats goals n' - getStats goals n else 0) (map fst (pars ns c)))"
proof -
  let ?ns = "ns(c \<mapsto> n')" and ?s = "getStats goals n' - getStats goals n"
  have st: "same_tree ns ?ns" using c same by (intro views_replace) auto
  have "q \<noteq> c" using q c by (auto simp: isdir_def)
  then have own: "ownStats ?ns q = ownStats ns q" by (simp add: ownStats_def)
  have "nodeStats goals ?ns x = nodeStats goals ns x + (if x = c then ?s else 0)" for x
    using c by (simp add: nodeStats_def)
  then have "childSum goals ?ns q = childSum goals ns q + sum_list (map (\<lambda>e. if snd e = c then ?s else 0) (kids ns q))"
    using st by (simp add: childSum_def same_tree_def sum_list_addf)
  then show ?thesis unfolding sum_kids_parents [OF inv] by (simp add: defect_def own)
qed

lemma file_change_law:
  assumes inv: "tree_inv ns" and c: "ns c = Some n" "\<not> is_dir n" "\<not> is_dir n'"
    and same: "n_parents n' = n_parents n" "n_entries n' = n_entries n"
  shows "\<exists>ns'. updateParentStatsForNode (getStats goals n') (getStats goals n) c (ns(c \<mapsto> n')) = Some ns' \<and>
    same_tree ns ns' \<and> stats_only (ns(c \<mapsto> n')) ns' \<and> (stats_inv goals ns \<longrightarrow> stats_inv goals ns')"
proof -
  let ?ns = "ns(c \<mapsto> n')" and ?s = "getStats goals n' - getStats goals n"
  have st: "same_tree ns ?ns" using c same by (intro views_replace) auto
  have inv': "tree_inv ?ns" using inv tree_inv_same [OF st] by simp
  have "list_all (isdir ?ns) (map fst (pars ns c))"
    using tree_inv_edge(2) [OF inv] st by (auto simp: list_all_iff same_tree_def)
  from updateParentStats_loop_law [OF inv' this, of "getStats goals n'" "getStats goals n" goals] obtain ns' where
    ns': "updateParentStats_loop (getStats goals n') (getStats goals n) (map fst (pars ns c)) ?ns = Some ns'"
      "same_tree ?ns ns'" "stats_only ?ns ns'"
      "\<And>q. defect goals ns' q = defect goals ?ns q + sum_list (map (\<lambda>p. if p = q then ?s else 0) (map fst (pars ns c)))"
    by blast
  have all: "same_tree ns ns'" by (rule same_tree_trans [OF st ns'(2)])
  have "stats_inv goals ns'" if "stats_inv goals ns"
  proof -
    have "defect goals ns' q = defect goals ns q" if "isdir ns q" for q
      using ns'(4) file_change_defect [OF inv c same that] by simp
    moreover have "nlinkOf ns' q = nlinkOf ns q" if "isdir ns q" for q
    proof -
      have "q \<noteq> c" using that c by (auto simp: isdir_def)
      then show ?thesis using nlinkOf_stats_only [OF ns'(3)] by (simp add: nlinkOf_def)
    qed
    moreover have "subdirs ns' = subdirs ns" using all by (simp add: fun_eq_iff subdirs_def same_tree_def)
    ultimately show ?thesis using \<open>stats_inv goals ns\<close> all by (simp add: stats_inv_alt same_tree_def)
  qed
  moreover have "pars ?ns c = pars ns c" using st by (simp add: same_tree_def)
  ultimately show ?thesis using ns' all by (auto simp: updateParentStatsForNode_def)
qed

section \<open>New and freed nodes\<close>

lemma not_child_if_free: "tree_inv ns \<Longrightarrow> pars ns c = [] \<Longrightarrow> (name, c) \<notin> set (kids ns q)"
  by (simp add: tree_inv_iff)

lemma childSum_other:
  assumes "tree_inv ns" "pars ns c = []" "kids ns' q = kids ns q" "\<And>i. i \<noteq> c \<Longrightarrow> ns' i = ns i"
  shows "childSum goals ns' q = childSum goals ns q" "subdirs ns' q = subdirs ns q"
proof -
  have "snd e \<noteq> c" if "e \<in> set (kids ns q)" for e
    using not_child_if_free [OF assms(1,2), of "fst e" q] that by (metis prod.collapse)
  then have "nodeStats goals ns' (snd e) = nodeStats goals ns (snd e)" "isdir ns' (snd e) = isdir ns (snd e)"
    if "e \<in> set (kids ns q)" for e
    using that assms(4) by (simp_all add: nodeStats_def isdir_def)
  then show "childSum goals ns' q = childSum goals ns q" "subdirs ns' q = subdirs ns q"
    using assms(3) by (auto simp: childSum_def subdirs_def intro!: arg_cong [of _ _ sum_list] arg_cong [of _ _ length] filter_cong)
qed

lemma new_node_views:
  assumes "ns c = None" "n_parents n = []" "n_entries n = []"
  shows "pars (ns(c \<mapsto> n)) = pars ns" "kids (ns(c \<mapsto> n)) = kids ns" "isdir (ns(c \<mapsto> n)) = (isdir ns)(c := is_dir n)"
    "edges (ns(c \<mapsto> n)) = edges ns"
  using assms by (auto simp: fun_eq_iff pars_def kids_def isdir_def edges_def)

lemma new_node_law:
  assumes inv: "tree_inv ns" and c: "ns c = None" "n_parents n = []" "n_entries n = []"
    and dir: "is_dir n \<Longrightarrow> n_stats n = 0 \<and> n_nlink n = 2"
  shows "tree_inv (ns(c \<mapsto> n))" "stats_inv goals ns \<Longrightarrow> stats_inv goals (ns(c \<mapsto> n))"
proof -
  note v = new_node_views [of ns c n, OF c]
  have pc: "pars ns c = []" "kids ns c = []" "\<not> isdir ns c" using c(1) by (simp_all add: pars_def kids_def isdir_def)
  have root: "c \<noteq> SPECIAL_INODE_ROOT" using inv pc(3) by (auto simp: tree_inv_def)
  show "tree_inv (ns(c \<mapsto> n))" using inv pc root by (auto simp: tree_inv_def v)
  assume s: "stats_inv goals ns"
  show "stats_inv goals (ns(c \<mapsto> n))"
    unfolding stats_inv_alt
  proof (intro allI impI)
    fix q assume q: "isdir (ns(c \<mapsto> n)) q"
    have "childSum goals (ns(c \<mapsto> n)) q = childSum goals ns q" "subdirs (ns(c \<mapsto> n)) q = subdirs ns q"
      using childSum_other [OF inv pc(1), of "ns(c \<mapsto> n)" q] v(2) by simp_all
    then show "defect goals (ns(c \<mapsto> n)) q = 0 \<and> nlinkOf (ns(c \<mapsto> n)) q = 2 + of_nat (subdirs (ns(c \<mapsto> n)) q)"
      using s q dir pc(2) by (cases "q = c")
        (auto simp: stats_inv_alt v defect_def ownStats_def nlinkOf_def childSum_def subdirs_def)
  qed
qed

lemma free_node_law:
  assumes inv: "tree_inv ns" and c: "pars ns c = []" "kids ns c = []" "c \<noteq> SPECIAL_INODE_ROOT"
  shows "tree_inv (ns(c := None))" "stats_inv goals ns \<Longrightarrow> stats_inv goals (ns(c := None))"
    "pars (ns(c := None)) = pars ns" "kids (ns(c := None)) = kids ns" "isdir (ns(c := None)) = (isdir ns)(c := False)"
proof -
  let ?ns = "ns(c := None)"
  show v: "pars ?ns = pars ns" "kids ?ns = kids ns" "isdir ?ns = (isdir ns)(c := False)"
    using c by (auto simp: fun_eq_iff pars_def kids_def isdir_def)
  then show "tree_inv ?ns" using inv c by (auto simp: tree_inv_def edges_def)
  assume s: "stats_inv goals ns"
  show "stats_inv goals ?ns"
    unfolding stats_inv_alt
  proof (intro allI impI)
    fix q assume q: "isdir ?ns q"
    then have "q \<noteq> c" "isdir ns q" by (auto simp: v split: if_splits)
    moreover have "childSum goals ?ns q = childSum goals ns q" "subdirs ?ns q = subdirs ns q"
      using childSum_other [OF inv c(1), of ?ns q] v(2) by simp_all
    ultimately show "defect goals ?ns q = 0 \<and> nlinkOf ?ns q = 2 + of_nat (subdirs ?ns q)"
      using s by (simp add: stats_inv_alt defect_def ownStats_def nlinkOf_def)
  qed
qed

section \<open>Sums over all nodes\<close>

definition tally :: "(FSNode \<Rightarrow> 'a :: ab_group_add) \<Rightarrow> nodes \<Rightarrow> 'a" where
  "tally f ns = (\<Sum>i \<in> dom ns. f (the (ns i)))"

lemma tally_new: "finite (dom ns) \<Longrightarrow> ns c = None \<Longrightarrow> tally f (ns(c \<mapsto> n)) = tally f ns + f n"
proof -
  assume "finite (dom ns)" "ns c = None"
  moreover from this have "c \<notin> dom ns" by auto
  moreover have "(\<Sum>i \<in> dom ns. f (the ((ns(c \<mapsto> n)) i))) = (\<Sum>i \<in> dom ns. f (the (ns i)))"
    using \<open>c \<notin> dom ns\<close> by (intro sum.cong) auto
  ultimately show ?thesis by (simp add: tally_def add.commute)
qed

lemma tally_free: "finite (dom ns) \<Longrightarrow> ns c = Some n \<Longrightarrow> tally f (ns(c := None)) = tally f ns - f n"
proof -
  assume a: "finite (dom ns)" "ns c = Some n"
  then have "tally f ((ns(c := None))(c \<mapsto> n)) = tally f (ns(c := None)) + f n" by (intro tally_new) auto
  moreover have "(ns(c := None))(c \<mapsto> n) = ns" using a(2) by (auto simp: fun_eq_iff)
  ultimately show ?thesis by simp
qed

lemma tally_replace: "finite (dom ns) \<Longrightarrow> ns c = Some n \<Longrightarrow> tally f (ns(c \<mapsto> n')) = tally f ns - f n + f n'"
  using tally_free [of ns c n f] tally_new [of "ns(c := None)" c f n'] by simp

lemma tally_cong:
  assumes "dom ns' = dom ns" "\<And>i n n'. ns i = Some n \<Longrightarrow> ns' i = Some n' \<Longrightarrow> f n' = f n"
  shows "tally f ns' = tally f ns"
  unfolding tally_def assms(1)
proof (rule sum.cong [OF refl])
  fix i assume "i \<in> dom ns"
  moreover from this have "i \<in> dom ns'" by (simp add: assms(1))
  ultimately show "f (the (ns' i)) = f (the (ns i))" using assms(2) by auto
qed

text \<open>Sums of what neither edges nor statistics change.\<close>

lemma tally_core:
  assumes "same_core ns ns'" "\<And>n. f n = f (core n)"
  shows "tally f ns' = tally f ns"
proof (rule tally_cong)
  have "ns' i = None \<longleftrightarrow> ns i = None" for i
    using assms(1) unfolding same_core_def by (metis map_option_is_None)
  then show "dom ns' = dom ns" by (auto simp: dom_def)
  fix i n n' assume "ns i = Some n" "ns' i = Some n'"
  then have "core n' = core n" using assms(1) unfolding same_core_def by (metis option.simps(9) option.inject)
  then show "f n' = f n" using assms(2) by metis
qed

end
