(* ===== verification/Quota.thy ===== *)
theory Quota
  imports FsTree
begin

text \<open>
  Quotas: the database of limits and usages (\<open>src/src/common/quota_database.h\<close>, \<open>quota_database.cc\<close>), the
  checks along the directory tree, and setting limits with its log entry and its replay
  (\<open>src/src/master/filesystem_quota.cc\<close>). The database maps an owner to its limits; the iteration order of
  the hash tables is an argument of the functions that list entries. A difference \<open>int64_t\<close> is the word
  with the same bits. Checksums are not modelled.
\<close>

section \<open>The database\<close>

datatype QuotaRigor = kSoft | kHard | kUsed
datatype QuotaResource = kInodes | kSize
datatype QuotaOwnerType = kUser | kGroup | kInode

type_synonym Limits = "QuotaRigor \<Rightarrow> QuotaResource \<Rightarrow> 64 word"
type_synonym QuotaOwner = "QuotaOwnerType \<times> nat"
type_synonym QuotaDatabase = "QuotaOwner \<rightharpoonup> Limits"
type_synonym resource_list = "(QuotaResource \<times> 64 word) list"

record QuotaEntry =
  q_owner :: QuotaOwner
  q_rigor :: QuotaRigor
  q_resource :: QuotaResource
  q_limit :: "64 word"

definition zeroLimits :: Limits where "zeroLimits = (\<lambda>_ _. 0)"

definition quota_get :: "QuotaDatabase \<Rightarrow> QuotaOwner \<Rightarrow> Limits option" where
  "quota_get db owner = db owner"

text \<open>The index operator of the hash table, which makes an owner with zero limits when there is none.\<close>

definition quota_at :: "QuotaDatabase \<Rightarrow> QuotaOwner \<Rightarrow> Limits" where
  "quota_at db owner = (case db owner of None \<Rightarrow> zeroLimits | Some l \<Rightarrow> l)"

definition set_limit :: "QuotaRigor \<Rightarrow> QuotaResource \<Rightarrow> 64 word \<Rightarrow> Limits \<Rightarrow> Limits" where
  "set_limit rigor resource value l = l(rigor := (l rigor)(resource := value))"

definition quota_set :: "QuotaOwner \<Rightarrow> QuotaRigor \<Rightarrow> QuotaResource \<Rightarrow> 64 word \<Rightarrow> QuotaDatabase \<Rightarrow> QuotaDatabase" where
  "quota_set owner rigor resource value db = db(owner \<mapsto> set_limit rigor resource value (quota_at db owner))"

definition quota_update :: "QuotaOwner \<Rightarrow> QuotaRigor \<Rightarrow> QuotaResource \<Rightarrow> 64 word \<Rightarrow> QuotaDatabase \<Rightarrow> QuotaDatabase" where
  "quota_update owner rigor resource delta db =
     db(owner \<mapsto> set_limit rigor resource (quota_at db owner rigor resource + delta) (quota_at db owner))"

definition limits_zero :: "Limits \<Rightarrow> bool" where
  "limits_zero l \<longleftrightarrow> list_all (\<lambda>r. list_all (\<lambda>x. l r x = 0) [kInodes, kSize]) [kSoft, kHard, kUsed]"

definition quota_remove_resource :: "QuotaOwner \<Rightarrow> QuotaRigor \<Rightarrow> QuotaResource \<Rightarrow> QuotaDatabase \<Rightarrow> QuotaDatabase" where
  "quota_remove_resource owner rigor resource db =
     (case db owner of
        None \<Rightarrow> db
      | Some l \<Rightarrow>
          (let l' = set_limit rigor resource 0 l
           in if limits_zero l' then db(owner := None) else db(owner \<mapsto> l')))"

definition quota_remove :: "QuotaOwner \<Rightarrow> QuotaDatabase \<Rightarrow> QuotaDatabase" where
  "quota_remove owner db = db(owner := None)"

definition removeEmpty :: "QuotaOwner \<Rightarrow> QuotaDatabase \<Rightarrow> QuotaDatabase" where
  "removeEmpty owner db =
     (case db owner of None \<Rightarrow> db | Some l \<Rightarrow> if limits_zero l then db(owner := None) else db)"

fun exceeds_loop :: "Limits \<Rightarrow> QuotaRigor \<Rightarrow> resource_list \<Rightarrow> bool" where
  "exceeds_loop l rigor [] = False"
| "exceeds_loop l rigor ((resource, delta) # rs) =
    (if l rigor resource \<noteq> 0 \<and> l kUsed resource + delta > l rigor resource then True
     else exceeds_loop l rigor rs)"

definition exceeds :: "QuotaDatabase \<Rightarrow> QuotaOwner \<Rightarrow> QuotaRigor \<Rightarrow> resource_list \<Rightarrow> bool" where
  "exceeds db owner rigor rs = (case db owner of None \<Rightarrow> False | Some l \<Rightarrow> exceeds_loop l rigor rs)"

definition getEntries :: "QuotaOwner list \<Rightarrow> QuotaDatabase \<Rightarrow> QuotaEntry list" where
  "getEntries order db =
     concat (map (\<lambda>owner. case db owner of None \<Rightarrow> [] | Some l \<Rightarrow>
       concat (map (\<lambda>rigor. concat (map (\<lambda>resource.
         if l rigor resource > 0
         then [\<lparr>q_owner = owner, q_rigor = rigor, q_resource = resource, q_limit = l rigor resource\<rparr>] else [])
         [kInodes, kSize])) [kSoft, kHard])) order)"

definition entriesOf :: "QuotaOwner \<Rightarrow> Limits \<Rightarrow> QuotaResource \<Rightarrow> QuotaEntry list" where
  "entriesOf owner l resource =
     (let limits = concat (map (\<lambda>rigor. if l rigor resource > 0
            then [\<lparr>q_owner = owner, q_rigor = rigor, q_resource = resource, q_limit = l rigor resource\<rparr>] else [])
            [kSoft, kHard])
      in if limits = [] then []
         else limits @ [\<lparr>q_owner = owner, q_rigor = kUsed, q_resource = resource, q_limit = l kUsed resource\<rparr>])"

definition getEntriesWithStats :: "QuotaOwner list \<Rightarrow> QuotaDatabase \<Rightarrow> QuotaEntry list" where
  "getEntriesWithStats order db =
     concat (map (\<lambda>owner. case db owner of None \<Rightarrow> [] | Some l \<Rightarrow>
       entriesOf owner l kInodes @ entriesOf owner l kSize) order)"

section \<open>Checks along the tree\<close>

partial_function (option) depth_loop :: "inode \<Rightarrow> nat \<Rightarrow> nodes \<Rightarrow> nat option" where
  "depth_loop a depth ns =
     (case pars ns a of
        [] \<Rightarrow> Some depth
      | (q, _) # _ \<Rightarrow> if isdir ns q then depth_loop q (depth + 1) ns else None)"

definition fsnodes_find_depth :: "inode \<Rightarrow> nodes \<Rightarrow> nat option" where
  "fsnodes_find_depth a ns = depth_loop a 1 ns"

fun climb :: "nat \<Rightarrow> inode \<Rightarrow> nodes \<Rightarrow> inode option" where
  "climb 0 a ns = Some a"
| "climb (Suc k) a ns =
    (case pars ns a of [] \<Rightarrow> None | (q, _) # _ \<Rightarrow> if isdir ns q then climb k q ns else None)"

partial_function (option) common_loop :: "inode \<Rightarrow> inode \<Rightarrow> nodes \<Rightarrow> inode option option" where
  "common_loop a b ns =
     (case pars ns a of
        [] \<Rightarrow> Some None
      | (qa, _) # _ \<Rightarrow>
          (case pars ns b of
             [] \<Rightarrow> None
           | (qb, _) # _ \<Rightarrow>
               if isdir ns qa \<and> isdir ns qb then
                 (if qa = qb then Some (Some qa) else common_loop qa qb ns)
               else None))"

text \<open>The outer option is \<open>None\<close> when an assertion fails or the loop does not end, the inner one is the null pointer.\<close>

definition fsnodes_find_common_ancestor :: "inode \<Rightarrow> inode \<Rightarrow> nodes \<Rightarrow> inode option option" where
  "fsnodes_find_common_ancestor a b ns =
     (case (fsnodes_find_depth a ns, fsnodes_find_depth b ns) of
        (Some depth_a, Some depth_b) \<Rightarrow>
          (case (climb (depth_a - depth_b) a ns, climb (depth_b - depth_a) b ns) of
             (Some a', Some b') \<Rightarrow> if a' = b' then Some (Some a') else common_loop a' b' ns
           | _ \<Rightarrow> None)
      | _ \<Rightarrow> None)"

fun test_dir_loop :: "Limits \<Rightarrow> StatsRecord \<Rightarrow> resource_list \<Rightarrow> bool" where
  "test_dir_loop l stats [] = False"
| "test_dir_loop l stats ((resource, delta) # rs) =
    (let limit = l kHard resource
     in if limit = 0 then test_dir_loop l stats rs
        else
          (case resource of
             kInodes \<Rightarrow> if ucast (st_inodes stats) + delta > limit then True else test_dir_loop l stats rs
           | kSize \<Rightarrow> if st_size stats + delta > limit then True else test_dir_loop l stats rs))"

definition fsnodes_test_dir_quota_noparents :: "QuotaDatabase \<Rightarrow> nodes \<Rightarrow> resource_list \<Rightarrow> inode \<Rightarrow> bool" where
  "fsnodes_test_dir_quota_noparents db ns rs node =
     (case ns node of
        None \<Rightarrow> False
      | Some n \<Rightarrow>
          if \<not> is_dir n then False
          else (case quota_get db (kInode, node) of None \<Rightarrow> False | Some l \<Rightarrow> test_dir_loop l (n_stats n) rs))"

definition fsnodes_quota_exceeded_ug :: "QuotaDatabase \<Rightarrow> 32 word \<Rightarrow> 32 word \<Rightarrow> resource_list \<Rightarrow> bool" where
  "fsnodes_quota_exceeded_ug db uid gid rs \<longleftrightarrow>
     exceeds db (kUser, unat uid) kHard rs \<or> exceeds db (kGroup, unat gid) kHard rs"

partial_function (option) quota_up :: "(inode \<Rightarrow> bool) \<Rightarrow> inode option \<Rightarrow> inode \<Rightarrow> nodes \<Rightarrow> bool option" where
  "quota_up test common node ns =
     (case pars ns node of
        [] \<Rightarrow> Some False
      | (q, _) # _ \<Rightarrow>
          if \<not> isdir ns q then None
          else if Some q = common then Some False
          else if test q then Some True
          else quota_up test common q ns)"

definition quota_exceeded_from_dir :: "(inode \<Rightarrow> bool) \<Rightarrow> inode \<Rightarrow> nodes \<Rightarrow> bool option" where
  "quota_exceeded_from_dir test node ns = (if test node then Some True else quota_up test None node ns)"

fun quota_exceeded_parents :: "(inode \<Rightarrow> bool) \<Rightarrow> (inode \<times> string) list \<Rightarrow> nodes \<Rightarrow> bool option" where
  "quota_exceeded_parents test [] ns = Some False"
| "quota_exceeded_parents test ((p, _) # ps) ns =
    (if \<not> isdir ns p then None
     else
       (case quota_exceeded_from_dir test p ns of
          None \<Rightarrow> None
        | Some True \<Rightarrow> Some True
        | Some False \<Rightarrow> quota_exceeded_parents test ps ns))"

definition fsnodes_quota_exceeded_dir :: "QuotaDatabase \<Rightarrow> resource_list \<Rightarrow> inode \<Rightarrow> nodes \<Rightarrow> bool option" where
  "fsnodes_quota_exceeded_dir db rs node ns =
     (let test = fsnodes_test_dir_quota_noparents db ns rs
      in if test node then Some True
         else if isdir ns node then quota_up test None node ns
         else quota_exceeded_parents test (pars ns node) ns)"

definition fsnodes_quota_exceeded_dir_from :: "QuotaDatabase \<Rightarrow> resource_list \<Rightarrow> inode \<Rightarrow> inode \<Rightarrow> nodes \<Rightarrow> bool option" where
  "fsnodes_quota_exceeded_dir_from db rs node prev_node ns =
     (let test = fsnodes_test_dir_quota_noparents db ns rs
      in case fsnodes_find_common_ancestor prev_node node ns of
           None \<Rightarrow> None
         | Some common \<Rightarrow>
             if Some node = common then Some False
             else if test node then Some True
             else quota_up test common node ns)"

definition fsnodes_quota_exceeded :: "QuotaDatabase \<Rightarrow> resource_list \<Rightarrow> inode \<Rightarrow> nodes \<Rightarrow> bool option" where
  "fsnodes_quota_exceeded db rs node ns =
     (if (case ns node of None \<Rightarrow> False | Some n \<Rightarrow> fsnodes_quota_exceeded_ug db (n_uid n) (n_gid n) rs) then Some True
      else fsnodes_quota_exceeded_dir db rs node ns)"

section \<open>Usages and limits\<close>

fun fsnodes_quota_update :: "32 word \<Rightarrow> 32 word \<Rightarrow> resource_list \<Rightarrow> QuotaDatabase \<Rightarrow> QuotaDatabase" where
  "fsnodes_quota_update uid gid [] db = db"
| "fsnodes_quota_update uid gid ((resource, delta) # rs) db =
    (if delta = 0 then fsnodes_quota_update uid gid rs db
     else
       (let db1 = quota_update (kUser, unat uid) kUsed resource delta db;
            db2 = quota_update (kGroup, unat gid) kUsed resource delta db1
        in fsnodes_quota_update uid gid rs db2))"


section \<open>Ancestors\<close>

text \<open>A directory and its ancestors; their number is the depth of the directory.\<close>

definition anc :: "nodes \<Rightarrow> inode \<Rightarrow> inode set" where
  "anc ns p = {x. (x, p) \<in> (edges ns)\<^sup>*}"

lemma anc_self [simp]: "p \<in> anc ns p" by (simp add: anc_def)

lemma anc_ne [simp]: "anc ns p \<noteq> {}" using anc_self by blast

lemma anc_parents: "anc ns n = insert n (\<Union>e \<in> set (pars ns n). anc ns (fst e))"
proof (intro equalityI subsetI)
  fix x assume "x \<in> anc ns n"
  then have "(x, n) \<in> (edges ns)\<^sup>*" by (simp add: anc_def)
  then show "x \<in> insert n (\<Union>e \<in> set (pars ns n). anc ns (fst e))"
    by (cases rule: rtranclE) (auto simp: anc_def edges_def)
next
  fix x assume "x \<in> insert n (\<Union>e \<in> set (pars ns n). anc ns (fst e))"
  then consider "x = n" | e where "e \<in> set (pars ns n)" "(x, fst e) \<in> (edges ns)\<^sup>*" by (auto simp: anc_def)
  then show "x \<in> anc ns n"
  proof cases
    case 2
    then have "(fst e, n) \<in> edges ns" by (simp add: edges_def)
    with 2(2) show ?thesis by (simp add: anc_def rtrancl_into_rtrancl)
  qed simp
qed

lemma anc_top: "pars ns p = [] \<Longrightarrow> anc ns p = {p}"
  by (auto simp: anc_def edges_def elim: rtranclE)

lemma anc_step:
  assumes "tree_inv ns" "pars ns p = [(q, name)]"
  shows "anc ns p = insert p (anc ns q)" "p \<notin> anc ns q"
proof -
  have E: "(x, p) \<in> edges ns \<longleftrightarrow> x = q" for x using assms(2) by (auto simp: edges_def)
  show "anc ns p = insert p (anc ns q)"
  proof (intro equalityI subsetI)
    fix x assume "x \<in> anc ns p"
    then have "(x, p) \<in> (edges ns)\<^sup>*" by (simp add: anc_def)
    then show "x \<in> insert p (anc ns q)" by (cases rule: rtranclE) (auto simp: anc_def E)
  next
    fix x assume "x \<in> insert p (anc ns q)"
    moreover have "(q, p) \<in> edges ns" by (simp add: E)
    ultimately show "x \<in> anc ns p" by (auto simp: anc_def intro: rtrancl_into_rtrancl)
  qed
  show "p \<notin> anc ns q"
  proof
    assume "p \<in> anc ns q"
    then have "(p, p) \<in> (edges ns)\<^sup>+" using E by (auto simp: anc_def intro: rtrancl_into_trancl1)
    then show False using assms(1) by (auto simp: tree_inv_def acyclic_def)
  qed
qed

lemma finite_anc:
  assumes "tree_inv ns"
  shows "finite (anc ns p)"
proof -
  have "anc ns p \<subseteq> insert p (dom ns)"
  proof
    fix x assume "x \<in> anc ns p"
    then have "(x, p) \<in> (edges ns)\<^sup>*" by (simp add: anc_def)
    then show "x \<in> insert p (dom ns)"
    proof (cases rule: converse_rtranclE)
      case (step y)
      then obtain name where "(x, name) \<in> set (pars ns y)" by (auto simp: edges_def)
      then have "isdir ns x" by (rule tree_inv_edge(2) [OF assms])
      then show ?thesis by (auto simp: isdir_def split: option.splits)
    qed simp
  qed
  then show ?thesis using assms finite_subset by (auto simp: tree_inv_def)
qed

lemma card_anc_step: "tree_inv ns \<Longrightarrow> pars ns p = [(q, name)] \<Longrightarrow> card (anc ns p) = Suc (card (anc ns q))"
  using anc_step finite_anc by simp

lemma anc_subset: "x \<in> anc ns p \<Longrightarrow> anc ns x \<subseteq> anc ns p"
  by (auto simp: anc_def)

text \<open>A directory that is not shallower than another one and differs from it is not among its ancestors.\<close>

lemma not_anc_if_deeper:
  assumes "tree_inv ns" "card (anc ns b) \<le> card (anc ns a)" "a \<noteq> b"
  shows "a \<notin> anc ns b"
proof
  assume "a \<in> anc ns b"
  then have "anc ns a = anc ns b" using anc_subset assms(2) finite_anc [OF assms(1)] by (metis card_seteq)
  then have "b \<in> anc ns a" by simp
  then have "(a, b) \<in> (edges ns)\<^sup>+" "(b, a) \<in> (edges ns)\<^sup>*"
    using \<open>a \<in> anc ns b\<close> assms(3) by (auto simp: anc_def rtrancl_eq_or_trancl)
  then have "(a, a) \<in> (edges ns)\<^sup>+" by (rule trancl_rtrancl_trancl)
  then show False using assms(1) by (auto simp: tree_inv_def acyclic_def)
qed

lemma parent_step:
  assumes "tree_inv ns" "isdir ns p"
  shows "pars ns p = [] \<and> anc ns p = {p} \<or>
    (\<exists>q name. pars ns p = [(q, name)] \<and> isdir ns q \<and> (q, p) \<in> edges ns \<and> anc ns p = insert p (anc ns q) \<and>
      card (anc ns p) = Suc (card (anc ns q)))"
  using assms
proof (cases rule: dir_parents_cases)
  case 1
  then show ?thesis using anc_top by blast
next
  case (2 q name)
  then have "isdir ns q" "(q, p) \<in> edges ns"
    using tree_inv_edge(2) [OF assms(1), of q name p] by (auto simp: edges_def)
  then show ?thesis using 2 anc_step(1) [OF assms(1) 2(1)] card_anc_step [OF assms(1) 2(1)] by blast
qed

lemma depth_loop_law:
  assumes "wf R" "tree_inv ns" "edges ns = R" "isdir ns p"
  shows "depth_loop p k ns = Some (k + card (anc ns p) - 1)"
  using assms
proof (induction p arbitrary: k rule: wf_induct_rule)
  case (less p)
  from parent_step [OF less.prems(1,3)] show ?case
  proof
    assume "pars ns p = [] \<and> anc ns p = {p}"
    then show ?thesis by (subst depth_loop.simps) simp
  next
    assume "\<exists>q name. pars ns p = [(q, name)] \<and> isdir ns q \<and> (q, p) \<in> edges ns \<and> anc ns p = insert p (anc ns q) \<and>
      card (anc ns p) = Suc (card (anc ns q))"
    then obtain q name where q: "pars ns p = [(q, name)]" "isdir ns q" "(q, p) \<in> R"
      "card (anc ns p) = Suc (card (anc ns q))" using less.prems(2) by auto
    then show ?thesis using less.IH [OF q(3) less.prems(1,2) q(2)] by (subst depth_loop.simps) simp
  qed
qed

lemma find_depth_law: "tree_inv ns \<Longrightarrow> isdir ns p \<Longrightarrow> fsnodes_find_depth p ns = Some (card (anc ns p))"
  using depth_loop_law [OF wf_edges] by (simp add: fsnodes_find_depth_def)

lemma climb_law:
  assumes "tree_inv ns" "isdir ns a" "k < card (anc ns a)" "card (anc ns b) + k \<le> card (anc ns a)"
  shows "\<exists>a'. climb k a ns = Some a' \<and> isdir ns a' \<and> card (anc ns a') + k = card (anc ns a) \<and>
    anc ns a' \<inter> anc ns b = anc ns a \<inter> anc ns b"
  using assms(2-)
proof (induction k arbitrary: a)
  case (Suc k)
  from parent_step [OF assms(1) Suc.prems(1)] Suc.prems(2) obtain q name where
    q: "pars ns a = [(q, name)]" "isdir ns q" "anc ns a = insert a (anc ns q)" "card (anc ns a) = Suc (card (anc ns q))"
    by auto
  have "a \<notin> anc ns b" using Suc.prems(3) by (intro not_anc_if_deeper [OF assms(1)]) auto
  moreover obtain a' where "climb k q ns = Some a'" "isdir ns a'" "card (anc ns a') + k = card (anc ns q)"
      "anc ns a' \<inter> anc ns b = anc ns q \<inter> anc ns b"
    using Suc.IH [OF q(2)] Suc.prems(2,3) q(4) by auto
  ultimately show ?case using q by auto
qed simp

lemma common_loop_law:
  assumes "wf R" "tree_inv ns" "edges ns = R" "isdir ns a" "isdir ns b" "card (anc ns a) = card (anc ns b)" "a \<noteq> b"
  shows "\<exists>r. common_loop a b ns = Some r \<and>
    (case r of None \<Rightarrow> anc ns a \<inter> anc ns b = {} | Some c \<Rightarrow> anc ns c = anc ns a \<inter> anc ns b)"
  using assms
proof (induction a arbitrary: b rule: wf_induct_rule)
  case (less a)
  note inv = less.prems(1)
  have ab: "a \<notin> anc ns b" "b \<notin> anc ns a" using not_anc_if_deeper [OF inv] less.prems(5,6) by auto
  from parent_step [OF inv less.prems(3)] consider (top) "pars ns a = []" "anc ns a = {a}"
    | (up) q name where "pars ns a = [(q, name)]" "isdir ns q" "(q, a) \<in> edges ns" "anc ns a = insert a (anc ns q)"
        "card (anc ns a) = Suc (card (anc ns q))" by blast
  then show ?case
  proof cases
    case top
    then show ?thesis using ab by (subst common_loop.simps) auto
  next
    case up
    have "card (anc ns b) \<noteq> 1" using up(5) less.prems(5) finite_anc [OF inv] anc_self by (metis card_0_eq empty_iff nat.inject One_nat_def)
    with parent_step [OF inv less.prems(4)] obtain r nm where r: "pars ns b = [(r, nm)]" "isdir ns r"
        "anc ns b = insert b (anc ns r)" "card (anc ns b) = Suc (card (anc ns r))" by auto
    have eq: "anc ns q \<inter> anc ns r = anc ns a \<inter> anc ns b" using up(4) r(3) ab by auto
    show ?thesis
    proof (cases "q = r")
      case True
      then show ?thesis using up(1,2) r(1,2) eq by (subst common_loop.simps) simp
    next
      case False
      have "(q, a) \<in> R" "card (anc ns q) = card (anc ns r)" using up(3,5) r(4) less.prems(2,5) by auto
      from less.IH [OF this(1) inv less.prems(2) up(2) r(2) this(2) False] show ?thesis
        unfolding eq using up(1,2) r(1,2) False by (subst common_loop.simps) simp
    qed
  qed
qed


lemma find_common_ancestor_law:
  assumes inv: "tree_inv ns" and a: "isdir ns a" and b: "isdir ns b"
  shows "\<exists>r. fsnodes_find_common_ancestor a b ns = Some r \<and>
    (case r of None \<Rightarrow> anc ns a \<inter> anc ns b = {} | Some c \<Rightarrow> anc ns c = anc ns a \<inter> anc ns b)"
proof -
  let ?A = "card (anc ns a)" and ?B = "card (anc ns b)"
  have pos: "?A > 0" "?B > 0" using finite_anc [OF inv] by (simp_all add: card_gt_0_iff)
  obtain a' b' where c: "climb (?A - ?B) a ns = Some a'" "climb (?B - ?A) b ns = Some b'" "isdir ns a'" "isdir ns b'"
      "card (anc ns a') = card (anc ns b')" "anc ns a' \<inter> anc ns b' = anc ns a \<inter> anc ns b"
  proof (cases "?A \<ge> ?B")
    case True
    then show ?thesis using climb_law [OF inv a, of "?A - ?B" b] pos b that [of _ b] by auto
  next
    case False
    then obtain b' where "climb (?B - ?A) b ns = Some b'" "isdir ns b'" "card (anc ns b') + (?B - ?A) = ?B"
        "anc ns b' \<inter> anc ns a = anc ns b \<inter> anc ns a"
      using climb_law [OF inv b, of "?B - ?A" a] pos by auto
    then show ?thesis using False a by (intro that [of a b']) auto
  qed
  show ?thesis
  proof (cases "a' = b'")
    case True
    then show ?thesis using c by (simp add: fsnodes_find_common_ancestor_def find_depth_law [OF inv] a b)
  next
    case False
    from common_loop_law [OF wf_edges [OF inv] inv refl c(3-5) False] show ?thesis
      unfolding c(6) using False c(1,2) by (simp add: fsnodes_find_common_ancestor_def find_depth_law [OF inv] a b)
  qed
qed

section \<open>What the directory checks decide\<close>

lemma quota_up_law:
  assumes "wf R" "tree_inv ns" "edges ns = R" "isdir ns p" "\<And>c. common = Some c \<Longrightarrow> anc ns c \<subseteq> anc ns p \<and> c \<noteq> p"
  shows "quota_up test common p ns =
    Some (\<exists>x \<in> anc ns p - {p} - (case common of None \<Rightarrow> {} | Some c \<Rightarrow> anc ns c). test x)"
  using assms
proof (induction p rule: wf_induct_rule)
  case (less p)
  note inv = less.prems(1)
  from parent_step [OF inv less.prems(3)] consider (top) "pars ns p = []" "anc ns p = {p}"
    | (up) q name where "pars ns p = [(q, name)]" "isdir ns q" "(q, p) \<in> R" "anc ns p = insert p (anc ns q)"
    using less.prems(2) by blast
  then show ?case
  proof cases
    case top
    then show ?thesis by (subst quota_up.simps) simp
  next
    case up
    have p: "p \<notin> anc ns q" by (rule anc_step(2) [OF inv up(1)])
    have step: "quota_up test common p ns =
        (if Some q = common then Some False else if test q then Some True else quota_up test common q ns)"
      using up(1,2) by (subst quota_up.simps) simp
    show ?thesis
    proof (cases "common = Some q")
      case True
      then show ?thesis using step up(4) by auto
    next
      case False
      let ?C = "case common of None \<Rightarrow> {} | Some c \<Rightarrow> anc ns c"
      have sub: "anc ns c \<subseteq> anc ns q \<and> c \<noteq> q" if "common = Some c" for c
      proof -
        have "c \<in> anc ns q" using less.prems(4) [OF that] up(4) anc_self by blast
        then show ?thesis using anc_subset False that by auto
      qed
      have "q \<notin> ?C"
      proof (cases common)
        case (Some c)
        then have "card (anc ns c) \<le> card (anc ns q)" "q \<noteq> c" using sub card_mono [OF finite_anc [OF inv]] by auto
        then show ?thesis using not_anc_if_deeper [OF inv] Some by simp
      qed simp
      moreover have "quota_up test common q ns = Some (\<exists>x \<in> anc ns q - {q} - ?C. test x)"
        using sub by (intro less.IH [OF up(3) inv less.prems(2) up(2)])
      moreover have "p \<notin> ?C" using sub p by (cases common) auto
      ultimately show ?thesis using step False up(4) p by (auto simp: up(4))
    qed
  qed
qed

lemma quota_from_dir_law:
  assumes "tree_inv ns" "isdir ns p"
  shows "quota_exceeded_from_dir test p ns = Some (\<exists>x \<in> anc ns p. test x)"
  using quota_up_law [OF wf_edges [OF assms(1)] assms(1) refl assms(2), of None test]
  by (auto simp: quota_exceeded_from_dir_def)

lemma quota_parents_law:
  assumes "tree_inv ns" "set ps \<subseteq> set (pars ns n)"
  shows "quota_exceeded_parents test ps ns = Some (\<exists>e \<in> set ps. \<exists>x \<in> anc ns (fst e). test x)"
  using assms(2)
proof (induction ps)
  case (Cons e ps)
  obtain p name where e: "e = (p, name)" by fastforce
  have p: "isdir ns p" using tree_inv_edge(2) [OF assms(1)] Cons.prems e by auto
  show ?case using Cons quota_from_dir_law [OF assms(1) p, of test] p by (auto simp: e split: bool.splits)
qed simp

lemma test_dir_isdir: "fsnodes_test_dir_quota_noparents db ns rs x \<Longrightarrow> isdir ns x"
  by (auto simp: fsnodes_test_dir_quota_noparents_def isdir_def split: option.splits if_splits)

lemma quota_exceeded_dir_law:
  assumes inv: "tree_inv ns"
  shows "fsnodes_quota_exceeded_dir db rs n ns = Some (\<exists>x \<in> anc ns n. fsnodes_test_dir_quota_noparents db ns rs x)"
proof (cases "isdir ns n")
  case True
  then show ?thesis
    using quota_up_law [OF wf_edges [OF inv] inv refl True, of None]
    by (auto simp: fsnodes_quota_exceeded_dir_def Let_def)
next
  case False
  have "\<not> fsnodes_test_dir_quota_noparents db ns rs n" using False test_dir_isdir by blast
  then show ?thesis
    using quota_parents_law [OF inv, of "pars ns n" n] False
    by (auto simp: fsnodes_quota_exceeded_dir_def Let_def anc_parents [of ns n])
qed

lemma quota_exceeded_dir_from_law:
  assumes inv: "tree_inv ns" and n: "isdir ns n" and p: "isdir ns prev"
  shows "fsnodes_quota_exceeded_dir_from db rs n prev ns =
    Some (\<exists>x \<in> anc ns n - anc ns prev. fsnodes_test_dir_quota_noparents db ns rs x)"
proof -
  obtain r where r: "fsnodes_find_common_ancestor prev n ns = Some r"
      "case r of None \<Rightarrow> anc ns prev \<inter> anc ns n = {} | Some c \<Rightarrow> anc ns c = anc ns prev \<inter> anc ns n"
    using find_common_ancestor_law [OF inv p n] by blast
  show ?thesis
  proof (cases "r = Some n")
    case True
    then show ?thesis using r by (auto simp: fsnodes_quota_exceeded_dir_from_def Let_def)
  next
    case False
    have "quota_up (fsnodes_test_dir_quota_noparents db ns rs) r n ns =
        Some (\<exists>x \<in> anc ns n - {n} - (case r of None \<Rightarrow> {} | Some c \<Rightarrow> anc ns c). fsnodes_test_dir_quota_noparents db ns rs x)"
      using r False by (intro quota_up_law [OF wf_edges [OF inv] inv refl n]) auto
    moreover have "n \<notin> anc ns prev"
    proof
      assume "n \<in> anc ns prev"
      then have "anc ns n \<subseteq> anc ns prev" by (rule anc_subset)
      then have "anc ns prev \<inter> anc ns n = anc ns n" by blast
      then obtain c where c: "r = Some c" "anc ns c = anc ns n" using r(2) by (cases r) auto
      then have "c = n" using not_anc_if_deeper [OF inv, of n c] anc_self by (metis le_refl)
      then show False using c False by simp
    qed
    ultimately show ?thesis
      using r False by (cases r) (auto simp: fsnodes_quota_exceeded_dir_from_def Let_def)
  qed
qed

end
