(* ===== verification/Detached.thy ===== *)
theory Detached
  imports FsTypes
begin

text \<open>
  The containers of files that have left the tree: the trash, the reserved files, and the indexes by which
  clients list them (\<open>src/src/master/filesystem_trash_reserved_files.h\<close>). A handle of the string storage is
  a record of its \<open>data()\<close> word and its string; the word of a new handle is an argument of the operation
  that makes it, and two live handles never have the same word. Every entry has an identifier in
  \<open>nameToId\<close>, under which the index of its container names its inode.
\<close>

unbundle bit_operations_syntax

record Handle =
  h_data :: "64 word"
  h_path :: string

type_synonym TrashPathKey = "32 word \<times> inode"

record DetachedFiles =
  trash :: "TrashPathKey \<rightharpoonup> Handle"
  trashHandlesIndex :: "64 word \<rightharpoonup> inode"
  reserved :: "inode \<rightharpoonup> Handle"
  reservedHandlesIndex :: "64 word \<rightharpoonup> inode"
  nameToId :: "64 word \<rightharpoonup> 64 word"
  counter :: "64 word"

definition emptyDetached :: DetachedFiles where
  "emptyDetached = \<lparr>trash = Map.empty, trashHandlesIndex = Map.empty, reserved = Map.empty,
     reservedHandlesIndex = Map.empty, nameToId = Map.empty, counter = 0\<rparr>"

definition mkTrashPathKey :: "inode \<Rightarrow> 32 word \<Rightarrow> 32 word \<Rightarrow> TrashPathKey" where
  "mkTrashPathKey nodeId ctime trashtime =
     (ucast (min (ucast ctime + ucast trashtime :: 64 word) (2 ^ 32 - 1)), nodeId)"

definition trashPathKey :: "inode \<Rightarrow> FSNode \<Rightarrow> TrashPathKey" where
  "trashPathKey i node = mkTrashPathKey i (n_ctime node) (n_trashtime node)"

definition kMaxIdForTrashOrReservedName :: "64 word" where
  "kMaxIdForTrashOrReservedName = 0x7FFFFFFFFFFFFFFF"

definition k64SignBitMask :: "64 word" where "k64SignBitMask = push_bit 63 1"

definition handleIndexKey :: "64 word \<Rightarrow> 64 word" where
  "handleIndexKey d = d AND NOT k64SignBitMask"

definition getOrAdd :: "64 word \<Rightarrow> DetachedFiles \<Rightarrow> 64 word \<times> DetachedFiles" where
  "getOrAdd handle D =
     (case nameToId D handle of
        Some n \<Rightarrow> (n, D)
      | None \<Rightarrow>
          (let D1 = (if counter D \<ge> kMaxIdForTrashOrReservedName then D else D\<lparr>counter := counter D + 1\<rparr>);
               newId = (if counter D \<ge> kMaxIdForTrashOrReservedName then kMaxIdForTrashOrReservedName else counter D1)
           in (newId, D1\<lparr>nameToId := (nameToId D1)(handle \<mapsto> newId)\<rparr>)))"

text \<open>\<open>insert\<close> of a map, which keeps an entry that is already there.\<close>

definition map_insert :: "'k \<Rightarrow> 'v \<Rightarrow> ('k \<rightharpoonup> 'v) \<Rightarrow> ('k \<rightharpoonup> 'v)" where
  "map_insert k v m = (if m k = None then m(k \<mapsto> v) else m)"

definition addTrashEntry :: "inode \<Rightarrow> FSNode \<Rightarrow> Handle \<Rightarrow> DetachedFiles \<Rightarrow> DetachedFiles" where
  "addTrashEntry i node h D =
     (let key = trashPathKey i node;
          D1 = D\<lparr>trash := map_insert key h (trash D)\<rparr>;
          handleHash = h_data (the (trash D1 key));
          (pathId, D2) = getOrAdd handleHash D1
      in D2\<lparr>trashHandlesIndex := map_insert (handleIndexKey pathId) i (trashHandlesIndex D2)\<rparr>)"

definition removeTrashEntryByKey :: "TrashPathKey \<Rightarrow> DetachedFiles \<Rightarrow> DetachedFiles" where
  "removeTrashEntryByKey key D =
     (case trash D key of
        None \<Rightarrow> D
      | Some h \<Rightarrow>
          (let D1 = (case nameToId D (h_data h) of
                 None \<Rightarrow> D
               | Some pathId \<Rightarrow> D\<lparr>trashHandlesIndex := (trashHandlesIndex D)(handleIndexKey pathId := None),
                   nameToId := (nameToId D)(h_data h := None)\<rparr>)
           in D1\<lparr>trash := (trash D1)(key := None)\<rparr>))"

definition removeTrashEntry :: "inode \<Rightarrow> FSNode \<Rightarrow> DetachedFiles \<Rightarrow> DetachedFiles" where
  "removeTrashEntry i node D =
     (let key = trashPathKey i node
      in case trash D key of
           None \<Rightarrow> D
         | Some h \<Rightarrow>
             (case nameToId D (h_data h) of
                None \<Rightarrow> D
              | Some pathId \<Rightarrow>
                  D\<lparr>trashHandlesIndex := (trashHandlesIndex D)(handleIndexKey pathId := None),
                    nameToId := (nameToId D)(h_data h := None),
                    trash := (trash D)(key := None)\<rparr>))"

definition addReservedEntry :: "inode \<Rightarrow> Handle \<Rightarrow> DetachedFiles \<Rightarrow> DetachedFiles" where
  "addReservedEntry i h D =
     (let D1 = D\<lparr>reserved := map_insert i h (reserved D)\<rparr>;
          handleHash = h_data (the (reserved D1 i));
          (pathId, D2) = getOrAdd handleHash D1
      in D2\<lparr>reservedHandlesIndex := map_insert (handleIndexKey pathId) i (reservedHandlesIndex D2)\<rparr>)"

definition removeReservedEntry :: "inode \<Rightarrow> DetachedFiles \<Rightarrow> DetachedFiles" where
  "removeReservedEntry i D =
     (case reserved D i of
        None \<Rightarrow> D
      | Some h \<Rightarrow>
          (case nameToId D (h_data h) of
             None \<Rightarrow> D
           | Some pathId \<Rightarrow>
               D\<lparr>reservedHandlesIndex := (reservedHandlesIndex D)(handleIndexKey pathId := None),
                 nameToId := (nameToId D)(h_data h := None),
                 reserved := (reserved D)(i := None)\<rparr>))"

definition moveTrashToReservedEntry :: "inode \<Rightarrow> FSNode \<Rightarrow> DetachedFiles \<Rightarrow> DetachedFiles" where
  "moveTrashToReservedEntry i node D =
     (let key = trashPathKey i node
      in case trash D key of
           None \<Rightarrow> D
         | Some h \<Rightarrow>
             (case nameToId D (h_data h) of
                None \<Rightarrow> D
              | Some idFromName \<Rightarrow>
                  (let D1 = D\<lparr>trashHandlesIndex := (trashHandlesIndex D)(handleIndexKey idFromName := None),
                         trash := (trash D)(key := None)\<rparr>
                   in D1\<lparr>reserved := map_insert i h (reserved D1),
                        reservedHandlesIndex := map_insert (handleIndexKey idFromName) i (reservedHandlesIndex D1)\<rparr>)))"

definition updateTrashNameEntry :: "inode \<Rightarrow> FSNode \<Rightarrow> Handle \<Rightarrow> DetachedFiles \<Rightarrow> DetachedFiles" where
  "updateTrashNameEntry i node newHandle D =
     (let key = trashPathKey i node
      in case trash D key of
           None \<Rightarrow> D
         | Some old \<Rightarrow>
             (case nameToId D (h_data old) of
                None \<Rightarrow> D
              | Some oldPathId \<Rightarrow>
                  (let D1 = D\<lparr>trashHandlesIndex := (trashHandlesIndex D)(handleIndexKey oldPathId := None),
                         nameToId := (nameToId D)(h_data old := None)\<rparr>;
                       D2 = D1\<lparr>trash := (trash D1)(key \<mapsto> newHandle)\<rparr>;
                       (newId, D3) = getOrAdd (h_data newHandle) D2
                   in D3\<lparr>trashHandlesIndex := map_insert (handleIndexKey newId) i (trashHandlesIndex D3)\<rparr>)))"

definition updateTrashFromOldEntry :: "inode \<Rightarrow> FSNode \<Rightarrow> TrashPathKey \<Rightarrow> DetachedFiles \<Rightarrow> DetachedFiles" where
  "updateTrashFromOldEntry i node oldKey D =
     (case trash D oldKey of
        None \<Rightarrow> D
      | Some path \<Rightarrow>
          (let D1 = D\<lparr>trash := (trash D)(oldKey := None)\<rparr>
           in D1\<lparr>trash := map_insert (trashPathKey i node) path (trash D1)\<rparr>))"

section \<open>The invariant\<close>

datatype place = InTrash TrashPathKey | InReserved inode

fun entry :: "DetachedFiles \<Rightarrow> place \<Rightarrow> Handle option" where
  "entry D (InTrash k) = trash D k"
| "entry D (InReserved i) = reserved D i"

fun in_trash :: "place \<Rightarrow> bool" where
  "in_trash (InTrash k) = True"
| "in_trash (InReserved i) = False"

fun place_inode :: "place \<Rightarrow> inode" where
  "place_inode (InTrash k) = snd k"
| "place_inode (InReserved i) = i"

definition index_of :: "DetachedFiles \<Rightarrow> bool \<Rightarrow> 64 word \<rightharpoonup> inode" where
  "index_of D b = (if b then trashHandlesIndex D else reservedHandlesIndex D)"

text \<open>
  Every entry has an identifier under which the index of its container names its inode; handles,
  identifiers and index entries correspond one to one; identifiers are positive and at most the counter.
\<close>

definition entries_ok :: "(place \<rightharpoonup> Handle) \<Rightarrow> (bool \<Rightarrow> 64 word \<rightharpoonup> inode) \<Rightarrow> (64 word \<rightharpoonup> 64 word) \<Rightarrow> 64 word \<Rightarrow> bool" where
  "entries_ok e ix m c \<longleftrightarrow>
     (\<forall>p h. e p = Some h \<longrightarrow> (\<exists>n. m (h_data h) = Some n \<and> ix (in_trash p) n = Some (place_inode p))) \<and>
     (\<forall>p q h g. e p = Some h \<and> e q = Some g \<and> h_data h = h_data g \<longrightarrow> p = q) \<and>
     (\<forall>d n. m d = Some n \<longrightarrow> 0 < n \<and> n \<le> c \<and> (\<exists>p h. e p = Some h \<and> h_data h = d)) \<and>
     (\<forall>d d' n. m d = Some n \<and> m d' = Some n \<longrightarrow> d = d') \<and>
     (\<forall>b n i. ix b n = Some i \<longrightarrow> (\<exists>p h. e p = Some h \<and> in_trash p = b \<and> m (h_data h) = Some n)) \<and>
     c \<le> kMaxIdForTrashOrReservedName"

definition detached_inv :: "DetachedFiles \<Rightarrow> bool" where
  "detached_inv D \<longleftrightarrow> entries_ok (entry D) (index_of D) (nameToId D) (counter D)"

lemma detached_inv_empty: "detached_inv emptyDetached"
proof -
  have "entry emptyDetached p = None" for p by (cases p) (simp_all add: emptyDetached_def)
  then show ?thesis
    by (simp add: detached_inv_def entries_ok_def index_of_def emptyDetached_def)
qed

lemma next_id:
  assumes "c < (k :: 64 word)"
  shows "c < c + 1" "c + 1 \<le> k"
proof -
  have "unat c < unat k" using assms by (simp add: word_less_nat_alt)
  moreover have "unat k < 2 ^ 64" using unsigned_less [of k] by simp
  ultimately have "unat (c + 1) = unat c + 1" by (simp add: unat_plus_if_size word_size)
  then show "c < c + 1" "c + 1 \<le> k" using \<open>unat c < unat k\<close> by (simp_all add: word_less_nat_alt word_le_nat_alt)
qed

lemma entries_ok_insert:
  assumes ok: "entries_ok e ix m c" and new: "e p = None" "m (h_data h) = None" and c: "c < kMaxIdForTrashOrReservedName"
  shows "entries_ok (e(p \<mapsto> h)) (ix(in_trash p := (ix (in_trash p))(c + 1 \<mapsto> place_inode p))) (m(h_data h \<mapsto> c + 1)) (c + 1)"
    (is "entries_ok ?e ?ix ?m _")
proof -
  have id1: "\<And>q g. e q = Some g \<Longrightarrow> \<exists>n. m (h_data g) = Some n \<and> ix (in_trash q) n = Some (place_inode q)"
    and id2: "\<And>p q h g. e p = Some h \<Longrightarrow> e q = Some g \<Longrightarrow> h_data h = h_data g \<Longrightarrow> p = q"
    and id3: "\<And>d n. m d = Some n \<Longrightarrow> 0 < n \<and> n \<le> c \<and> (\<exists>p h. e p = Some h \<and> h_data h = d)"
    and id4: "\<And>d d' n. m d = Some n \<Longrightarrow> m d' = Some n \<Longrightarrow> d = d'"
    and id5: "\<And>b n i. ix b n = Some i \<Longrightarrow> \<exists>p h. e p = Some h \<and> in_trash p = b \<and> m (h_data h) = Some n"
    using ok by (auto simp: entries_ok_def)
  have fresh: "m d \<noteq> Some (c + 1)" for d using id3 [of d "c + 1"] next_id(1) [OF c] by auto
  have live: "h_data g \<noteq> h_data h" if "e q = Some g" for q g using id1 [OF that] new(2) by auto
  have "\<exists>n. ?m (h_data g) = Some n \<and> ?ix (in_trash q) n = Some (place_inode q)" if "?e q = Some g" for q g
  proof (cases "q = p")
    case False
    then have q: "e q = Some g" using that by simp
    from id1 [OF q] obtain n where n: "m (h_data g) = Some n" "ix (in_trash q) n = Some (place_inode q)" by blast
    then have "n \<noteq> c + 1" using fresh by auto
    then show ?thesis using n live [OF q] by auto
  qed (use that in simp)
  moreover have "p' = q" if "?e p' = Some g'" "?e q = Some g" "h_data g' = h_data g" for p' q g' g
    using that id2 live by (metis fun_upd_apply option.inject)
  moreover have "0 < n \<and> n \<le> c + 1 \<and> (\<exists>q g. ?e q = Some g \<and> h_data g = d)" if "?m d = Some n" for d n
  proof (cases "d = h_data h")
    case True
    then show ?thesis using that next_id(1) [OF c] by (auto intro!: exI [of _ p] simp: word_gt_0 elim!: order_le_less_trans)
  next
    case False
    then have m: "m d = Some n" using that by simp
    from id3 [OF m] obtain q g where "0 < n" "n \<le> c" "e q = Some g" "h_data g = d" by blast
    moreover from this have "q \<noteq> p" using new(1) by auto
    ultimately show ?thesis using next_id(1) [OF c] by (auto intro!: exI [of _ q])
  qed
  moreover have "d = d'" if "?m d = Some n" "?m d' = Some n" for d d' n
    using that id4 fresh by (auto split: if_splits)
  moreover have "\<exists>q g. ?e q = Some g \<and> in_trash q = b \<and> ?m (h_data g) = Some n" if "?ix b n = Some i" for b n i
  proof (cases "b = in_trash p \<and> n = c + 1")
    case False
    then have "ix b n = Some i" using that by (auto split: if_splits)
    from id5 [OF this] obtain q g where "e q = Some g" "in_trash q = b" "m (h_data g) = Some n" by blast
    moreover from this have "q \<noteq> p" using new(1) by auto
    ultimately show ?thesis using live by (auto intro!: exI [of _ q])
  qed (auto intro!: exI [of _ p])
  ultimately show ?thesis using next_id(2) [OF c] unfolding entries_ok_def by blast
qed

lemma entries_ok_delete:
  assumes ok: "entries_ok e ix m c" and p: "e p = Some h" "m (h_data h) = Some n"
  shows "entries_ok (e(p := None)) (ix(in_trash p := (ix (in_trash p))(n := None))) (m(h_data h := None)) c"
    (is "entries_ok ?e ?ix ?m _")
proof -
  have id1: "\<And>q g. e q = Some g \<Longrightarrow> \<exists>n. m (h_data g) = Some n \<and> ix (in_trash q) n = Some (place_inode q)"
    and id2: "\<And>p q h g. e p = Some h \<Longrightarrow> e q = Some g \<Longrightarrow> h_data h = h_data g \<Longrightarrow> p = q"
    and id3: "\<And>d n. m d = Some n \<Longrightarrow> 0 < n \<and> n \<le> c \<and> (\<exists>p h. e p = Some h \<and> h_data h = d)"
    and id4: "\<And>d d' n. m d = Some n \<Longrightarrow> m d' = Some n \<Longrightarrow> d = d'"
    and id5: "\<And>b n i. ix b n = Some i \<Longrightarrow> \<exists>p h. e p = Some h \<and> in_trash p = b \<and> m (h_data h) = Some n"
    and id6: "c \<le> kMaxIdForTrashOrReservedName"
    using ok by (auto simp: entries_ok_def)
  have other: "h_data g \<noteq> h_data h" if "e q = Some g" "q \<noteq> p" for q g using id2 [OF that(1) p(1)] that(2) by auto
  have "\<exists>n. ?m (h_data g) = Some n \<and> ?ix (in_trash q) n = Some (place_inode q)" if "?e q = Some g" for q g
  proof -
    have q: "e q = Some g" "q \<noteq> p" using that by (auto split: if_splits)
    from id1 [OF q(1)] obtain k where k: "m (h_data g) = Some k" "ix (in_trash q) k = Some (place_inode q)" by blast
    then have "k \<noteq> n" using id4 [of "h_data g" k "h_data h"] p(2) other [OF q] by auto
    then show ?thesis using k other [OF q] by auto
  qed
  moreover have "p' = q" if "?e p' = Some g'" "?e q = Some g" "h_data g' = h_data g" for p' q g' g
    using that id2 by (auto split: if_splits)
  moreover have "0 < k \<and> k \<le> c \<and> (\<exists>q g. ?e q = Some g \<and> h_data g = d)" if "?m d = Some k" for d k
  proof -
    have m: "m d = Some k" "d \<noteq> h_data h" using that by (auto split: if_splits)
    from id3 [OF m(1)] obtain q g where "0 < k" "k \<le> c" "e q = Some g" "h_data g = d" by blast
    moreover from this have "q \<noteq> p" using p(1) m(2) by auto
    ultimately show ?thesis by (auto intro!: exI [of _ q])
  qed
  moreover have "d = d'" if "?m d = Some k" "?m d' = Some k" for d d' k
    using that id4 by (auto split: if_splits)
  moreover have "\<exists>q g. ?e q = Some g \<and> in_trash q = b \<and> ?m (h_data g) = Some k" if "?ix b k = Some i" for b k i
  proof -
    have ne: "\<not> (b = in_trash p \<and> k = n)" and "ix b k = Some i" using that by (auto split: if_splits)
    from id5 [OF this(2)] obtain q g where q: "e q = Some g" "in_trash q = b" "m (h_data g) = Some k" by blast
    have "q \<noteq> p" using ne q p by auto
    then show ?thesis using q other by (auto intro!: exI [of _ q])
  qed
  ultimately show ?thesis using id6 unfolding entries_ok_def by blast
qed


lemma entries_ok_move:
  assumes ok: "entries_ok e ix m c" and p: "e p = Some h" "m (h_data h) = Some n" and q: "e q = None"
  shows "entries_ok (e(p := None, q \<mapsto> h))
    ((ix(in_trash p := (ix (in_trash p))(n := None)))(in_trash q := ((ix(in_trash p := (ix (in_trash p))(n := None))) (in_trash q))(n \<mapsto> place_inode q)))
    m c"
    (is "entries_ok ?e ?ix m _")
proof -
  have id1: "\<And>q g. e q = Some g \<Longrightarrow> \<exists>n. m (h_data g) = Some n \<and> ix (in_trash q) n = Some (place_inode q)"
    and id2: "\<And>p q h g. e p = Some h \<Longrightarrow> e q = Some g \<Longrightarrow> h_data h = h_data g \<Longrightarrow> p = q"
    and id3: "\<And>d n. m d = Some n \<Longrightarrow> 0 < n \<and> n \<le> c \<and> (\<exists>p h. e p = Some h \<and> h_data h = d)"
    and id4: "\<And>d d' n. m d = Some n \<Longrightarrow> m d' = Some n \<Longrightarrow> d = d'"
    and id5: "\<And>b n i. ix b n = Some i \<Longrightarrow> \<exists>p h. e p = Some h \<and> in_trash p = b \<and> m (h_data h) = Some n"
    and id6: "c \<le> kMaxIdForTrashOrReservedName"
    using ok by (auto simp: entries_ok_def)
  have pq: "p \<noteq> q" using p(1) q by auto
  have other: "h_data g \<noteq> h_data h" if "e r = Some g" "r \<noteq> p" for r g using id2 [OF that(1) p(1)] that(2) by auto
  have "\<exists>k. m (h_data g) = Some k \<and> ?ix (in_trash r) k = Some (place_inode r)" if "?e r = Some g" for r g
  proof (cases "r = q")
    case False
    then have r: "e r = Some g" "r \<noteq> p" using that by (auto split: if_splits)
    from id1 [OF r(1)] obtain k where k: "m (h_data g) = Some k" "ix (in_trash r) k = Some (place_inode r)" by blast
    then have "k \<noteq> n" using id4 [of "h_data g" k "h_data h"] p(2) other [OF r] by auto
    then show ?thesis using k by auto
  qed (use that p(2) in auto)
  moreover have "p' = r" if "?e p' = Some g'" "?e r = Some g" "h_data g' = h_data g" for p' r g' g
    using that id2 other by (metis fun_upd_apply option.distinct(1) option.inject)
  moreover have "0 < k \<and> k \<le> c \<and> (\<exists>r g. ?e r = Some g \<and> h_data g = d)" if "m d = Some k" for d k
  proof -
    from id3 [OF that] obtain r g where "0 < k" "k \<le> c" "e r = Some g" "h_data g = d" by blast
    then have "?e (if r = p then q else r) = Some g" using p(1) q pq by auto
    then show ?thesis using \<open>0 < k\<close> \<open>k \<le> c\<close> \<open>h_data g = d\<close> by blast
  qed
  moreover have "\<exists>r g. ?e r = Some g \<and> in_trash r = b \<and> m (h_data g) = Some k" if "?ix b k = Some i" for b k i
  proof (cases "b = in_trash q \<and> k = n")
    case False
    then have ne: "\<not> (b = in_trash p \<and> k = n)" and "ix b k = Some i" using that by (auto split: if_splits)
    from id5 [OF this(2)] obtain r g where r: "e r = Some g" "in_trash r = b" "m (h_data g) = Some k" by blast
    then have "r \<noteq> p" "r \<noteq> q" using ne p q by auto
    then show ?thesis using r by (auto intro!: exI [of _ r])
  qed (use p(2) in \<open>auto intro!: exI [of _ q]\<close>)
  ultimately show ?thesis using id4 id6 unfolding entries_ok_def by blast
qed

section \<open>The operations on the containers\<close>

lemma handleIndexKey_id: "n \<le> kMaxIdForTrashOrReservedName \<Longrightarrow> handleIndexKey n = n"
proof -
  assume "n \<le> kMaxIdForTrashOrReservedName"
  then have "uint n < 2 ^ 63" by (simp add: kMaxIdForTrashOrReservedName_def word_le_def)
  then have "\<not> bit (uint n) 63" by (simp add: bit_iff_odd)
  then have "\<not> bit n 63" by (simp add: bit_uint_iff)
  moreover have "bit k64SignBitMask k \<longleftrightarrow> k = 63" for k
    unfolding k64SignBitMask_def bit_push_bit_iff by (auto simp: bit_1_iff)
  ultimately show ?thesis
    by (auto intro!: bit_word_eqI simp: handleIndexKey_def bit_and_iff bit_not_iff)
qed

lemma detached_invI:
  assumes "entries_ok e ix (nameToId D) (counter D)" "\<And>k. e (InTrash k) = trash D k" "\<And>i. e (InReserved i) = reserved D i"
    "ix True = trashHandlesIndex D" "ix False = reservedHandlesIndex D"
  shows "detached_inv D"
proof -
  have "entry D p = e p" for p using assms(2,3) by (cases p) simp_all
  then have "entry D = e" by (rule ext)
  moreover have "index_of D b = ix b" for b using assms(4,5) by (cases b) (simp_all add: index_of_def)
  then have "index_of D = ix" by (rule ext)
  ultimately show ?thesis using assms(1) by (simp add: detached_inv_def)
qed


lemma ids_ok:
  assumes "detached_inv D" "entry D p = Some h"
  shows "\<exists>n. nameToId D (h_data h) = Some n \<and> handleIndexKey n = n \<and> index_of D (in_trash p) n = Some (place_inode p)"
proof -
  have ok: "entries_ok (entry D) (index_of D) (nameToId D) (counter D)" using assms(1) by (simp add: detached_inv_def)
  then obtain n where n: "nameToId D (h_data h) = Some n" "index_of D (in_trash p) n = Some (place_inode p)"
    using assms(2) unfolding entries_ok_def by blast
  moreover have "n \<le> counter D" "counter D \<le> kMaxIdForTrashOrReservedName" using ok n(1) unfolding entries_ok_def by blast+
  ultimately show ?thesis using handleIndexKey_id order_trans by blast
qed

text \<open>A new entry: its place is free, its handle is not in use, and there is an identifier left.\<close>

definition can_detach :: "Handle \<Rightarrow> DetachedFiles \<Rightarrow> bool" where
  "can_detach h D \<longleftrightarrow> nameToId D (h_data h) = None \<and> counter D < kMaxIdForTrashOrReservedName"

lemma index_free:
  assumes "detached_inv D" "counter D < kMaxIdForTrashOrReservedName"
  shows "index_of D b (counter D + 1) = None"
proof (rule ccontr)
  assume "index_of D b (counter D + 1) \<noteq> None"
  then obtain i where "index_of D b (counter D + 1) = Some i" by blast
  then have "\<exists>d. nameToId D d = Some (counter D + 1)" using assms(1) unfolding detached_inv_def entries_ok_def by blast
  then have "counter D + 1 \<le> counter D" using assms(1) unfolding detached_inv_def entries_ok_def by blast
  then show False using next_id(1) [OF assms(2)] by simp
qed

lemma snd_trashPathKey [simp]: "snd (trashPathKey i n) = i" "snd (mkTrashPathKey i c t) = i"
  by (simp_all add: trashPathKey_def mkTrashPathKey_def)

lemma addTrashEntry_law:
  assumes inv: "detached_inv D" and new: "trash D (trashPathKey i n) = None" "can_detach h D"
  shows "detached_inv (addTrashEntry i n h D) \<and> trash (addTrashEntry i n h D) = (trash D)(trashPathKey i n \<mapsto> h) \<and>
    reserved (addTrashEntry i n h D) = reserved D"
proof -
  let ?k = "trashPathKey i n" and ?c = "counter D + 1"
  have c: "counter D < kMaxIdForTrashOrReservedName" "nameToId D (h_data h) = None" using new(2) by (simp_all add: can_detach_def)
  have free: "trashHandlesIndex D ?c = None" using index_free [OF inv c(1), of True] by (simp add: index_of_def)
  have eq: "addTrashEntry i n h D = D\<lparr>trash := (trash D)(?k \<mapsto> h), counter := ?c, nameToId := (nameToId D)(h_data h \<mapsto> ?c),
      trashHandlesIndex := (trashHandlesIndex D)(?c \<mapsto> i)\<rparr>"
    using new(1) c free handleIndexKey_id [OF next_id(2) [OF c(1)]]
    by (simp add: addTrashEntry_def getOrAdd_def map_insert_def Let_def)
  have ok: "entries_ok ((entry D)(InTrash ?k \<mapsto> h)) ((index_of D)(True := (trashHandlesIndex D)(?c \<mapsto> i))) ((nameToId D)(h_data h \<mapsto> ?c)) ?c"
    using entries_ok_insert [of "entry D" "index_of D" "nameToId D" "counter D" "InTrash ?k" h] inv new(1) c by (simp add: detached_inv_def index_of_def)
  have "detached_inv (addTrashEntry i n h D)"
    unfolding eq by (rule detached_invI [of "(entry D)(InTrash ?k \<mapsto> h)" "(index_of D)(True := (trashHandlesIndex D)(?c \<mapsto> i))"]) (simp_all add: ok index_of_def)
  then show ?thesis by (simp add: eq)
qed

lemma addReservedEntry_law:
  assumes inv: "detached_inv D" and new: "reserved D i = None" "can_detach h D"
  shows "detached_inv (addReservedEntry i h D) \<and> reserved (addReservedEntry i h D) = (reserved D)(i \<mapsto> h) \<and>
    trash (addReservedEntry i h D) = trash D"
proof -
  let ?c = "counter D + 1"
  have c: "counter D < kMaxIdForTrashOrReservedName" "nameToId D (h_data h) = None" using new(2) by (simp_all add: can_detach_def)
  have free: "reservedHandlesIndex D ?c = None" using index_free [OF inv c(1), of False] by (simp add: index_of_def)
  have eq: "addReservedEntry i h D = D\<lparr>reserved := (reserved D)(i \<mapsto> h), counter := ?c, nameToId := (nameToId D)(h_data h \<mapsto> ?c),
      reservedHandlesIndex := (reservedHandlesIndex D)(?c \<mapsto> i)\<rparr>"
    using new(1) c free handleIndexKey_id [OF next_id(2) [OF c(1)]]
    by (simp add: addReservedEntry_def getOrAdd_def map_insert_def Let_def)
  have ok: "entries_ok ((entry D)(InReserved i \<mapsto> h)) ((index_of D)(False := (reservedHandlesIndex D)(?c \<mapsto> i))) ((nameToId D)(h_data h \<mapsto> ?c)) ?c"
    using entries_ok_insert [of "entry D" "index_of D" "nameToId D" "counter D" "InReserved i" h] inv new(1) c by (simp add: detached_inv_def index_of_def)
  have "detached_inv (addReservedEntry i h D)"
    unfolding eq by (rule detached_invI [of "(entry D)(InReserved i \<mapsto> h)" "(index_of D)(False := (reservedHandlesIndex D)(?c \<mapsto> i))"]) (simp_all add: ok index_of_def)
  then show ?thesis by (simp add: eq)
qed

lemma removeReservedEntry_law:
  assumes inv: "detached_inv D"
  shows "detached_inv (removeReservedEntry i D) \<and> reserved (removeReservedEntry i D) = (reserved D)(i := None) \<and>
    trash (removeReservedEntry i D) = trash D"
proof (cases "reserved D i")
  case (Some h)
  obtain m where m: "nameToId D (h_data h) = Some m" "handleIndexKey m = m" using ids_ok [OF inv, of "InReserved i" h] Some by auto
  have eq: "removeReservedEntry i D = D\<lparr>reservedHandlesIndex := (reservedHandlesIndex D)(m := None),
      nameToId := (nameToId D)(h_data h := None), reserved := (reserved D)(i := None)\<rparr>"
    using Some m by (simp add: removeReservedEntry_def)
  have ok: "entries_ok ((entry D)(InReserved i := None)) ((index_of D)(False := (reservedHandlesIndex D)(m := None))) ((nameToId D)(h_data h := None)) (counter D)"
    using entries_ok_delete [of "entry D" "index_of D" "nameToId D" "counter D" "InReserved i" h m] inv Some m by (simp add: detached_inv_def index_of_def)
  have "detached_inv (removeReservedEntry i D)"
    unfolding eq by (rule detached_invI [of "(entry D)(InReserved i := None)" "(index_of D)(False := (reservedHandlesIndex D)(m := None))"]) (simp_all add: ok index_of_def)
  then show ?thesis by (simp add: eq)
qed (use inv in \<open>simp add: removeReservedEntry_def fun_upd_idem\<close>)


lemma removeTrashEntryByKey_law:
  assumes inv: "detached_inv D"
  shows "detached_inv (removeTrashEntryByKey k D) \<and> trash (removeTrashEntryByKey k D) = (trash D)(k := None) \<and>
    reserved (removeTrashEntryByKey k D) = reserved D"
proof (cases "trash D k")
  case (Some h)
  obtain m where m: "nameToId D (h_data h) = Some m" "handleIndexKey m = m" using ids_ok [OF inv, of "InTrash k" h] Some by auto
  have eq: "removeTrashEntryByKey k D = D\<lparr>trashHandlesIndex := (trashHandlesIndex D)(m := None),
      nameToId := (nameToId D)(h_data h := None), trash := (trash D)(k := None)\<rparr>"
    using Some m by (simp add: removeTrashEntryByKey_def)
  have ok: "entries_ok ((entry D)(InTrash k := None)) ((index_of D)(True := (trashHandlesIndex D)(m := None))) ((nameToId D)(h_data h := None)) (counter D)"
    using entries_ok_delete [of "entry D" "index_of D" "nameToId D" "counter D" "InTrash k" h m] inv Some m
    by (simp add: detached_inv_def index_of_def)
  have "detached_inv (removeTrashEntryByKey k D)"
    unfolding eq
    by (rule detached_invI [of "(entry D)(InTrash k := None)" "(index_of D)(True := (trashHandlesIndex D)(m := None))"])
      (simp_all add: ok index_of_def)
  then show ?thesis by (simp add: eq)
qed (use inv in \<open>simp add: removeTrashEntryByKey_def fun_upd_idem\<close>)

text \<open>Both ways to remove an entry of the trash do the same.\<close>

lemma removeTrashEntry_eq: "detached_inv D \<Longrightarrow> removeTrashEntry i n D = removeTrashEntryByKey (trashPathKey i n) D"
  using ids_ok [of D "InTrash (trashPathKey i n)"]
  by (auto simp: removeTrashEntry_def removeTrashEntryByKey_def split: option.splits)

lemma removeTrashEntry_law:
  assumes "detached_inv D"
  shows "detached_inv (removeTrashEntry i n D) \<and> trash (removeTrashEntry i n D) = (trash D)(trashPathKey i n := None) \<and>
    reserved (removeTrashEntry i n D) = reserved D"
  using removeTrashEntryByKey_law [OF assms] by (simp add: removeTrashEntry_eq [OF assms])

lemma moveTrashToReservedEntry_law:
  assumes inv: "detached_inv D" and h: "trash D (trashPathKey i n) = Some h" and new: "reserved D i = None"
  shows "detached_inv (moveTrashToReservedEntry i n D) \<and>
    trash (moveTrashToReservedEntry i n D) = (trash D)(trashPathKey i n := None) \<and>
    reserved (moveTrashToReservedEntry i n D) = (reserved D)(i \<mapsto> h)"
proof -
  let ?k = "trashPathKey i n"
  obtain m where m: "nameToId D (h_data h) = Some m" "handleIndexKey m = m" "trashHandlesIndex D m = Some i"
    using ids_ok [OF inv, of "InTrash ?k" h] h by (auto simp: index_of_def)
  have free: "reservedHandlesIndex D m = None"
  proof (rule ccontr)
    assume "reservedHandlesIndex D m \<noteq> None"
    then obtain j where "index_of D False m = Some j" by (auto simp: index_of_def)
    then obtain p g where p: "entry D p = Some g" "in_trash p = False" "nameToId D (h_data g) = Some m"
      using inv unfolding detached_inv_def entries_ok_def by blast
    then have "h_data g = h_data h" using m(1) inv unfolding detached_inv_def entries_ok_def by blast
    moreover have "entry D (InTrash ?k) = Some h" using h by simp
    ultimately have "p = InTrash ?k" using p(1) inv unfolding detached_inv_def entries_ok_def by blast
    then show False using p(2) by simp
  qed
  let ?e = "(entry D)(InTrash ?k := None, InReserved i \<mapsto> h)"
  let ?ix = "(index_of D)(True := (trashHandlesIndex D)(m := None), False := (reservedHandlesIndex D)(m \<mapsto> i))"
  have eq: "moveTrashToReservedEntry i n D = D\<lparr>trashHandlesIndex := (trashHandlesIndex D)(m := None), trash := (trash D)(?k := None),
      reserved := (reserved D)(i \<mapsto> h), reservedHandlesIndex := (reservedHandlesIndex D)(m \<mapsto> i)\<rparr>"
    using h m new free by (simp add: moveTrashToReservedEntry_def map_insert_def Let_def)
  have ok: "entries_ok ?e ?ix (nameToId D) (counter D)"
    using entries_ok_move [of "entry D" "index_of D" "nameToId D" "counter D" "InTrash ?k" h m "InReserved i"] inv h m new
    by (simp add: detached_inv_def index_of_def)
  have "detached_inv (moveTrashToReservedEntry i n D)"
    unfolding eq by (rule detached_invI [of ?e ?ix]) (simp_all add: ok index_of_def)
  then show ?thesis by (simp add: eq)
qed

text \<open>A change of the time stamp of a file in the trash moves its entry to another key.\<close>

lemma updateTrashFromOldEntry_law:
  assumes inv: "detached_inv D" and old: "trash D k = Some h" "snd k = i"
    and new: "trashPathKey i n = k \<or> trash D (trashPathKey i n) = None"
  shows "detached_inv (updateTrashFromOldEntry i n k D) \<and>
    trash (updateTrashFromOldEntry i n k D) = (trash D)(k := None, trashPathKey i n \<mapsto> h) \<and>
    reserved (updateTrashFromOldEntry i n k D) = reserved D"
proof -
  let ?k = "trashPathKey i n"
  have eq: "updateTrashFromOldEntry i n k D = D\<lparr>trash := (trash D)(k := None, ?k \<mapsto> h)\<rparr>"
    using old new by (auto simp: updateTrashFromOldEntry_def map_insert_def Let_def)
  have "detached_inv (updateTrashFromOldEntry i n k D)"
  proof (cases "?k = k")
    case True
    then show ?thesis using inv old(1) by (simp add: eq fun_upd_idem)
  next
    case False
    let ?e = "(entry D)(InTrash k := None, InTrash ?k \<mapsto> h)"
    obtain m where m: "nameToId D (h_data h) = Some m" "trashHandlesIndex D m = Some i"
      using ids_ok [OF inv, of "InTrash k" h] old by (auto simp: index_of_def)
    have "(index_of D)(True := (trashHandlesIndex D)(m \<mapsto> i)) = index_of D"
      using m(2) by (auto simp: fun_eq_iff index_of_def)
    then have ok: "entries_ok ?e (index_of D) (nameToId D) (counter D)"
      using entries_ok_move [of "entry D" "index_of D" "nameToId D" "counter D" "InTrash k" h m "InTrash ?k"] inv old m new False
      by (simp add: detached_inv_def index_of_def)
    show ?thesis unfolding eq by (rule detached_invI [of ?e "index_of D"]) (simp_all add: ok index_of_def)
  qed
  then show ?thesis by (simp add: eq)
qed


text \<open>A new path for a file in the trash is the removal of its entry and the addition of a new one.\<close>

lemma updateTrashNameEntry_law:
  assumes inv: "detached_inv D" and old: "trash D (trashPathKey i n) = Some h" and new: "can_detach g D"
  shows "detached_inv (updateTrashNameEntry i n g D) \<and>
    trash (updateTrashNameEntry i n g D) = (trash D)(trashPathKey i n \<mapsto> g) \<and>
    reserved (updateTrashNameEntry i n g D) = reserved D"
proof -
  let ?k = "trashPathKey i n"
  define D1 where "D1 = removeTrashEntry i n D"
  note l = removeTrashEntry_law [OF inv, of i n, folded D1_def]
  obtain m where m: "nameToId D (h_data h) = Some m" "handleIndexKey m = m"
    using ids_ok [OF inv, of "InTrash ?k" h] old by auto
  have D1: "D1 = D\<lparr>trashHandlesIndex := (trashHandlesIndex D)(m := None), nameToId := (nameToId D)(h_data h := None),
      trash := (trash D)(?k := None)\<rparr>"
    using old m by (simp add: D1_def removeTrashEntry_def)
  have new': "can_detach g D1" "trash D1 ?k = None" using new by (auto simp: can_detach_def D1)
  have "h_data g \<noteq> h_data h" using new m(1) by (auto simp: can_detach_def)
  then have "updateTrashNameEntry i n g D = addTrashEntry i n g D1"
    using old m new by (simp add: updateTrashNameEntry_def addTrashEntry_def D1 getOrAdd_def map_insert_def Let_def can_detach_def)
  then show ?thesis using addTrashEntry_law [OF _ new'(2,1)] l by simp
qed

end
