(* ===== verification/FsMeta.thy ===== *)
theory FsMeta
  imports FsChange Quota Detached "HOL-Library.Monad_Syntax"
begin

text \<open>
  The metadata of the master server (\<open>FilesystemMetadata\<close> of \<open>src/src/master/filesystem_metadata.h\<close>) and the
  operations on nodes of \<open>src/src/master/filesystem_node.cc\<close> that make, free, unlink, purge, restore and
  resize nodes. The result of an operation is \<open>None\<close> when an assertion fails, a pointer that must not be
  null is, or a walk over the tree does not return. Inode numbers of new nodes come from the inode pool and
  the words of new string handles from the allocator: both are arguments. The calls that release chunks are
  collected in \<open>chunkCalls\<close>. Extended attributes, the inode pool, checksums and the change signals are not
  part of the state.
\<close>

unbundle bit_operations_syntax

abbreviation (input) SAUNAFS_ERROR_CANTCREATEPATH :: status where "SAUNAFS_ERROR_CANTCREATEPATH \<equiv> 31"

datatype chunk_call = ChunkAddFile "64 word" "8 word" | ChunkDeleteFile "64 word" "8 word" | ChunkChangeFile "64 word" "8 word" "8 word"

record Metadata =
  nodeTable :: nodes
  detached :: DetachedFiles
  aclStorage :: AclStorage
  quotaDatabase :: QuotaDatabase
  nodeCount :: "32 word"
  dirNodes :: "32 word"
  fileNodes :: "32 word"
  linkNodes :: "32 word"
  trashNodes :: "32 word"
  reservedNodes :: "32 word"
  trashSpace :: "64 word"
  reservedSpace :: "64 word"
  chunkCalls :: "chunk_call list"

section \<open>Paths\<close>

definition getChildName :: "nodes \<Rightarrow> inode \<Rightarrow> inode \<Rightarrow> string" where
  "getChildName ns parent child = (case find (\<lambda>e. fst e = parent) (pars ns child) of None \<Rightarrow> [] | Some e \<Rightarrow> snd e)"

partial_function (option) path_size_loop :: "inode \<Rightarrow> 32 word \<Rightarrow> nodes \<Rightarrow> 32 word option" where
  "path_size_loop parent sz ns =
     (if parent = SPECIAL_INODE_ROOT \<or> pars ns parent = [] then Some sz
      else if length (pars ns parent) \<noteq> 1 then None
      else
        (let q = fst (hd (pars ns parent))
         in if isdir ns q then path_size_loop q (sz + of_nat (length (getChildName ns q parent)) + 1) ns else None))"

definition getPathSize :: "inode \<Rightarrow> inode \<Rightarrow> nodes \<Rightarrow> 32 word option" where
  "getPathSize parent child ns = path_size_loop parent (of_nat (length (getChildName ns parent child))) ns"

text \<open>
  \<open>getPathData\<close> fills the buffer from its end: the number of bytes that are still free at its beginning, and
  the bytes written so far.
\<close>

definition path_put :: "string \<Rightarrow> nat \<times> string \<Rightarrow> nat \<times> string" where
  "path_put name buf =
     (let (sz, acc) = buf;
          (size1, acc1) = (if sz \<ge> length name then (sz - length name, name @ acc)
                           else if sz > 0 then (0, drop (length name - sz) name @ acc)
                           else (sz, acc))
      in if size1 > 0 then (size1 - 1, CHR ''/'' # acc1) else (size1, acc1))"

partial_function (option) path_data_loop :: "inode \<Rightarrow> nat \<times> string \<Rightarrow> nodes \<Rightarrow> (nat \<times> string) option" where
  "path_data_loop parent buf ns =
     (if parent = SPECIAL_INODE_ROOT \<or> pars ns parent = [] then Some buf
      else if length (pars ns parent) \<noteq> 1 then None
      else
        (let q = fst (hd (pars ns parent))
         in if isdir ns q then path_data_loop q (path_put (getChildName ns q parent) buf) ns else None))"

definition kEdgeNameMaxSize :: "32 word" where "kEdgeNameMaxSize = 65535"

definition getPath :: "inode \<Rightarrow> inode \<Rightarrow> nodes \<Rightarrow> string option" where
  "getPath parent child ns =
     do {
       sz \<leftarrow> getPathSize parent child ns;
       let sz = (if sz > kEdgeNameMaxSize then kEdgeNameMaxSize else sz);
       (rest, path) \<leftarrow> path_data_loop parent (path_put (getChildName ns parent child) (unat sz, [])) ns;
       Some (replicate rest (CHR 0x00) @ path)
     }"

section \<open>Making and freeing nodes\<close>

definition DEFAULT_GOAL :: "8 word" where "DEFAULT_GOAL = 1"
definition kDefaultTrashTime :: "32 word" where "kDefaultTrashTime = 94620"
definition kPermissionsMask :: "16 word" where "kPermissionsMask = 0xFFF"
definition kStandardPermissionsMask :: "16 word" where "kStandardPermissionsMask = 0x1FF"
definition kExtraAttributesMask :: "16 word" where "kExtraAttributesMask = 0xF000"
definition EATTR_NOOWNER :: "16 word" where "EATTR_NOOWNER = 0x01"
definition EATTR_NOECACHE :: "16 word" where "EATTR_NOECACHE = 0x04"
definition EATTR_BIT_OFFSET :: nat where "EATTR_BIT_OFFSET = 12"
definition S_ISGID :: "16 word" where "S_ISGID = 0x400"

definition incrementNodeCounters :: "FSNodeType \<Rightarrow> Metadata \<Rightarrow> Metadata" where
  "incrementNodeCounters ty m =
     (let m1 = m\<lparr>nodeCount := nodeCount m + 1\<rparr>
      in case ty of
           kDirectory \<Rightarrow> m1\<lparr>dirNodes := dirNodes m1 + 1\<rparr>
         | kFile \<Rightarrow> m1\<lparr>fileNodes := fileNodes m1 + 1\<rparr>
         | kSymlink \<Rightarrow> m1\<lparr>linkNodes := linkNodes m1 + 1\<rparr>
         | _ \<Rightarrow> m1)"

definition quota_change :: "32 word \<Rightarrow> 32 word \<Rightarrow> resource_list \<Rightarrow> Metadata \<Rightarrow> Metadata" where
  "quota_change uid gid rs m = m\<lparr>quotaDatabase := fsnodes_quota_update uid gid rs (quotaDatabase m)\<rparr>"

text \<open>A new node before the access control list of its parent is looked at.\<close>

definition initNode :: "32 word \<Rightarrow> FSNodeType \<Rightarrow> 16 word \<Rightarrow> FSNode \<Rightarrow> FSNode" where
  "initNode ts ty mode parent =
     (newNode ty)\<lparr>n_ctime := ts, n_mtime := ts, n_atime := ts,
       n_goal := (if ty = kDirectory \<or> ty = kFile then n_goal parent else DEFAULT_GOAL),
       n_trashtime := (if ty = kDirectory \<or> ty = kFile then n_trashtime parent else kDefaultTrashTime),
       n_mode := (if ty = kDirectory then (mode AND kPermissionsMask) OR (n_mode parent AND kExtraAttributesMask)
                  else (mode AND kPermissionsMask) OR
                    (n_mode parent AND (kExtraAttributesMask AND NOT (push_bit EATTR_BIT_OFFSET EATTR_NOECACHE))))\<rparr>"

text \<open>The permissions of a new node and the list it inherits, if any.\<close>

definition inheritInto :: "RichACL option \<Rightarrow> 16 word \<Rightarrow> FSNode \<Rightarrow> FSNode \<times> RichACL option" where
  "inheritInto parentAcl umask node =
     (case parentAcl of
        Some dir_acl \<Rightarrow>
          (case inheritInode dir_acl (n_mode node) umask (is_dir node) of
             (valid, mode, acl) \<Rightarrow>
               (node\<lparr>n_mode := n_mode node AND (mode OR NOT kStandardPermissionsMask)\<rparr>, if valid then Some acl else None))
      | None \<Rightarrow> (node\<lparr>n_mode := n_mode node AND NOT (umask AND kStandardPermissionsMask)\<rparr>, None))"

definition ownNode :: "32 word \<Rightarrow> 32 word \<Rightarrow> bool \<Rightarrow> FSNode \<Rightarrow> FSNode \<Rightarrow> FSNode" where
  "ownNode uid gid copysgid parent node =
     (let node = node\<lparr>n_uid := uid\<rparr>
      in if n_mode parent AND S_ISGID = S_ISGID then
           node\<lparr>n_gid := n_gid parent,
             n_mode := (if copysgid \<and> is_dir node then n_mode node OR S_ISGID else n_mode node)\<rparr>
         else node\<lparr>n_gid := gid\<rparr>)"

definition createNode ::
  "goal_defs \<Rightarrow> 32 word \<Rightarrow> inode \<Rightarrow> string \<Rightarrow> FSNodeType \<Rightarrow> 16 word \<Rightarrow> 16 word \<Rightarrow> 32 word \<Rightarrow> 32 word \<Rightarrow> bool \<Rightarrow> bool \<Rightarrow>
   inode \<Rightarrow> Metadata \<Rightarrow> Metadata option" where
  "createNode goals ts parent name ty mode umask uid gid copysgid inheritAcl ino m =
     (if ty = kTrash \<or> ty = kUnknown then None
      else
        do {
          p \<leftarrow> nodeTable m parent;
          let m1 = incrementNodeCounters ty m;
          parentAcl \<leftarrow> (if inheritAcl then acl_get (aclStorage m1) parent else Some None);
          let (node, acl) = inheritInto parentAcl umask (initNode ts ty mode p);
          acls \<leftarrow> (case acl of None \<Rightarrow> Some (aclStorage m1) | Some a \<Rightarrow> acl_set ino a (aclStorage m1));
          let node = ownNode uid gid copysgid p node;
          ns \<leftarrow> fs_link goals ts parent ino name ((nodeTable m1)(ino \<mapsto> node));
          let m2 = quota_change (n_uid node) (n_gid node) [(kInodes, 1)] (m1\<lparr>nodeTable := ns, aclStorage := acls\<rparr>);
          Some (if ty = kFile then quota_change (n_uid node) (n_gid node) [(kSize, getSize goals node)] m2 else m2)
        })"

definition releaseChunks :: "64 word list \<Rightarrow> 8 word \<Rightarrow> Metadata \<Rightarrow> Metadata" where
  "releaseChunks chunks goal m =
     m\<lparr>chunkCalls := chunkCalls m @ map (\<lambda>c. ChunkDeleteFile c goal) (filter (\<lambda>c. c \<noteq> 0) chunks)\<rparr>"

definition removeNode :: "goal_defs \<Rightarrow> inode \<Rightarrow> Metadata \<Rightarrow> Metadata option" where
  "removeNode goals i m =
     do {
       node \<leftarrow> nodeTable m i;
       if n_parents node \<noteq> [] then Some m
       else do {
         acls \<leftarrow> acl_erase i (aclStorage m);
         let m1 = m\<lparr>nodeCount := nodeCount m - 1, aclStorage := acls\<rparr>;
         let m2 = (if is_dir node then m1\<lparr>dirNodes := dirNodes m1 - 1\<rparr> else m1);
         let sz = (if is_file node then getSize goals node else 0);
         let m3 = (if is_file node then releaseChunks (n_chunks node) (n_goal node) (m2\<lparr>fileNodes := fileNodes m2 - 1\<rparr>) else m2);
         let m4 = (if n_type node = kSymlink then m3\<lparr>linkNodes := linkNodes m3 - 1\<rparr> else m3);
         let m5 = quota_change (n_uid node) (n_gid node)
               (if is_file node then [(kInodes, - 1), (kSize, - sz)] else [(kInodes, - 1)]) m4;
         let m6 = m5\<lparr>quotaDatabase := quota_remove (kInode, i) (quotaDatabase m5)\<rparr>;
         Some (m6\<lparr>nodeTable := (nodeTable m6)(i := None)\<rparr>)
       }
     }"

section \<open>Unlinking, purging and restoring\<close>

definition set_node :: "inode \<Rightarrow> (FSNode \<Rightarrow> FSNode) \<Rightarrow> Metadata \<Rightarrow> Metadata" where
  "set_node i f m = m\<lparr>nodeTable := upd i f (nodeTable m)\<rparr>"

definition unlink :: "goal_defs \<Rightarrow> 32 word \<Rightarrow> inode \<Rightarrow> string \<Rightarrow> inode \<Rightarrow> 64 word \<Rightarrow> Metadata \<Rightarrow> Metadata option" where
  "unlink goals ts parent childName child handle m =
     do {
       node \<leftarrow> nodeTable m child;
       path \<leftarrow> (if length (n_parents node) = 1 \<and> n_type node = kFile \<and> (n_trashtime node > 0 \<or> n_sessionIds node \<noteq> [])
                then getPath parent child (nodeTable m) else Some []);
       ns \<leftarrow> removeEdge goals ts parent childName child (nodeTable m);
       let m1 = m\<lparr>nodeTable := ns\<rparr>;
       node \<leftarrow> nodeTable m1 child;
       if n_parents node \<noteq> [] then Some m1
       else if n_type node = kFile then
         (if n_trashtime node > 0 then
            (let m2 = set_node child (\<lambda>n. n\<lparr>n_type := kTrash, n_ctime := ts\<rparr>) m1
             in Some (m2\<lparr>detached := addTrashEntry child (node\<lparr>n_type := kTrash, n_ctime := ts\<rparr>) \<lparr>h_data = handle, h_path = path\<rparr> (detached m2),
                  trashSpace := trashSpace m2 + n_length node, trashNodes := trashNodes m2 + 1\<rparr>))
          else if n_sessionIds node \<noteq> [] then
            (let m2 = set_node child (\<lambda>n. n\<lparr>n_type := kReserved\<rparr>) m1
             in Some (m2\<lparr>detached := addReservedEntry child \<lparr>h_data = handle, h_path = path\<rparr> (detached m2),
                  reservedSpace := reservedSpace m2 + n_length node, reservedNodes := reservedNodes m2 + 1\<rparr>))
          else removeNode goals child m1)
       else removeNode goals child m1
     }"

text \<open>\<open>purge\<close> answers 1 when the node is freed, 0 when it became reserved, -1 when it is neither in the trash nor reserved.\<close>

definition purge :: "goal_defs \<Rightarrow> 32 word \<Rightarrow> inode \<Rightarrow> Metadata \<Rightarrow> (int \<times> Metadata) option" where
  "purge goals ts i m =
     do {
       node \<leftarrow> nodeTable m i;
       if n_type node = kTrash then
         (let m1 = m\<lparr>trashSpace := trashSpace m - n_length node, trashNodes := trashNodes m - 1\<rparr>
          in if n_sessionIds node \<noteq> [] then
               (let m2 = set_node i (\<lambda>n. n\<lparr>n_type := kReserved\<rparr>) m1;
                    m3 = m2\<lparr>reservedSpace := reservedSpace m2 + n_length node, reservedNodes := reservedNodes m2 + 1\<rparr>
                in Some (0, m3\<lparr>detached := moveTrashToReservedEntry i (node\<lparr>n_type := kReserved\<rparr>) (detached m3)\<rparr>))
             else do {
               let m2 = m1\<lparr>detached := removeTrashEntry i node (detached m1)\<rparr>;
               m3 \<leftarrow> removeNode goals i (set_node i (\<lambda>n. n\<lparr>n_ctime := ts\<rparr>) m2);
               Some (1, m3)
             })
       else if n_type node = kReserved then
         do {
           let m1 = m\<lparr>reservedSpace := reservedSpace m - n_length node, reservedNodes := reservedNodes m - 1\<rparr>;
           let m2 = m1\<lparr>detached := removeReservedEntry i (detached m1)\<rparr>;
           m3 \<leftarrow> removeNode goals i (set_node i (\<lambda>n. n\<lparr>n_ctime := ts\<rparr>) m2);
           Some (1, m3)
         }
       else Some (- 1, m)
     }"

definition kMaxFileNameLength :: nat where "kMaxFileNameLength = 255"

definition isDotOnlySegment :: "nat \<Rightarrow> nat \<Rightarrow> bool" where
  "isDotOnlySegment segmentLength dotCount \<longleftrightarrow> segmentLength > 0 \<and> segmentLength = dotCount \<and> segmentLength \<le> 2"

fun validate_loop :: "string \<Rightarrow> nat \<Rightarrow> nat \<Rightarrow> bool" where
  "validate_loop [] partLength dots \<longleftrightarrow> \<not> (partLength = 0) \<and> \<not> isDotOnlySegment partLength dots"
| "validate_loop (chr # path) partLength dots \<longleftrightarrow>
    (if chr = CHR 0x00 then False
     else if chr = CHR ''/'' then
       (if partLength = 0 then False
        else if isDotOnlySegment partLength dots then False
        else validate_loop path 0 0)
     else
       (let dots' = (if chr = CHR ''.'' then dots + 1 else dots)
        in if partLength + 1 > kMaxFileNameLength then False else validate_loop path (partLength + 1) dots'))"

definition validateTrashPath :: "string \<Rightarrow> status" where
  "validateTrashPath pathStr =
     (if pathStr = [] then SAUNAFS_ERROR_CANTCREATEPATH
      else
        (let path = dropWhile (\<lambda>c. c = CHR ''/'') pathStr
         in if path = [] then SAUNAFS_ERROR_CANTCREATEPATH
            else if validate_loop path 0 0 then SAUNAFS_STATUS_OK else SAUNAFS_ERROR_CANTCREATEPATH))"


definition kUndelDirectoryMode :: "16 word" where "kUndelDirectoryMode = 0x1ED"

lemma takeWhile_shorter: "length (takeWhile P xs) \<noteq> length xs \<Longrightarrow> length (takeWhile P xs) < length xs"
  using length_takeWhile_le [of P xs] by linarith

text \<open>
  The loop of \<open>undel\<close> over the segments of the path: below the first directory that is missing, directories
  are made with the inode numbers \<open>ids\<close>. They are logged as created: parent, name, mode and inode.
\<close>

type_synonym CreatedDir = "inode \<times> string \<times> 16 word \<times> inode"

function undel_loop ::
  "goal_defs \<Rightarrow> 32 word \<Rightarrow> inode \<Rightarrow> string \<Rightarrow> inode \<Rightarrow> bool \<Rightarrow> inode list \<Rightarrow> Metadata \<Rightarrow> (status \<times> CreatedDir list \<times> Metadata) option" where
  "undel_loop goals ts i path currentParent isNew ids m =
     (let name = takeWhile (\<lambda>c. c \<noteq> CHR ''/'') path
      in if length name = length path then
           (if lookup (nodeTable m) currentParent name \<noteq> None then Some (SAUNAFS_ERROR_EEXIST, [], m)
            else do {
              node \<leftarrow> nodeTable m i;
              let m1 = m\<lparr>detached := (if n_type node = kTrash then removeTrashEntry i node (detached m)
                                      else removeReservedEntry i (detached m))\<rparr>;
              let m2 = set_node i (\<lambda>n. n\<lparr>n_type := kFile, n_ctime := ts\<rparr>) m1;
              ns \<leftarrow> fs_link goals ts currentParent i name (nodeTable m2);
              Some (SAUNAFS_STATUS_OK, [], m2\<lparr>nodeTable := ns, trashSpace := trashSpace m2 - n_length node, trashNodes := trashNodes m2 - 1\<rparr>)
            })
         else
           (let rest = drop (length name + 1) path
            in case (if isNew then None else lookup (nodeTable m) currentParent name) of
                 Some child \<Rightarrow>
                   if isdir (nodeTable m) child then undel_loop goals ts i rest child False ids m
                   else Some (SAUNAFS_ERROR_CANTCREATEPATH, [], m)
               | None \<Rightarrow>
                   (case ids of
                      [] \<Rightarrow> None
                    | new # ids' \<Rightarrow>
                        (case createNode goals ts currentParent name kDirectory kUndelDirectoryMode 0 0 0 False False new m of
                           None \<Rightarrow> None
                         | Some m1 \<Rightarrow>
                             (case nodeTable m1 new of
                                None \<Rightarrow> None
                              | Some dir \<Rightarrow>
                                  map_option (\<lambda>(st, created, m2). (st, (currentParent, name, n_mode dir AND kPermissionsMask, new) # created, m2))
                                    (undel_loop goals ts i rest new True ids' m1))))))"
  by pat_completeness auto

termination
  by (relation "measure (\<lambda>(goals, ts, i, path, p, isNew, ids, m). length path)") (auto dest: takeWhile_shorter)

declare undel_loop.simps [simp del]

definition undel :: "goal_defs \<Rightarrow> 32 word \<Rightarrow> inode \<Rightarrow> inode list \<Rightarrow> Metadata \<Rightarrow> (status \<times> CreatedDir list \<times> Metadata) option" where
  "undel goals ts i ids m =
     do {
       node \<leftarrow> nodeTable m i;
       h \<leftarrow> (if n_type node = kTrash then trash (detached m) (trashPathKey i node)
             else if n_type node = kReserved then reserved (detached m) i else None);
       let st = validateTrashPath (h_path h);
       if st \<noteq> SAUNAFS_STATUS_OK then Some (st, [], m)
       else undel_loop goals ts i (dropWhile (\<lambda>c. c = CHR ''/'') (h_path h)) SPECIAL_INODE_ROOT False ids m
     }"

section \<open>Length and ownership\<close>

definition updateDetachedSpaceUsage :: "FSNode \<Rightarrow> 64 word \<Rightarrow> 64 word \<Rightarrow> Metadata \<Rightarrow> Metadata" where
  "updateDetachedSpaceUsage node previousLength newLength m =
     (if previousLength = newLength then m
      else if n_type node = kTrash then m\<lparr>trashSpace := trashSpace m + (newLength - previousLength)\<rparr>
      else if n_type node = kReserved then m\<lparr>reservedSpace := reservedSpace m + (newLength - previousLength)\<rparr>
      else m)"

definition SFSCHUNKBITS :: nat where "SFSCHUNKBITS = 26"

definition chunksForLength :: "64 word \<Rightarrow> 32 word" where
  "chunksForLength len = (if len > 0 then ucast (drop_bit SFSCHUNKBITS (len - 1) + 1) else 0)"

definition setLength :: "goal_defs \<Rightarrow> inode \<Rightarrow> 64 word \<Rightarrow> bool \<Rightarrow> Metadata \<Rightarrow> Metadata option" where
  "setLength goals i len eraseFurtherChunks m =
     do {
       node \<leftarrow> nodeTable m i;
       let m1 = updateDetachedSpaceUsage node (n_length node) len m;
       let keep = (if eraseFurtherChunks then unat (chunksForLength len) else length (n_chunks node));
       let node' = node\<lparr>n_length := len, n_chunks := take keep (n_chunks node)\<rparr>;
       let m2 = releaseChunks (drop keep (n_chunks node)) (n_goal node) (m1\<lparr>nodeTable := (nodeTable m1)(i \<mapsto> node')\<rparr>);
       let prev = getStats goals node;
       let new = getStats goals node';
       let m3 = quota_change (n_uid node') (n_gid node') [(kSize, st_size new - st_size prev)] m2;
       ns \<leftarrow> updateParentStatsForNode new prev i (nodeTable m3);
       Some (m3\<lparr>nodeTable := ns\<rparr>)
     }"

definition changeUidGid :: "goal_defs \<Rightarrow> inode \<Rightarrow> 32 word \<Rightarrow> 32 word \<Rightarrow> Metadata \<Rightarrow> Metadata option" where
  "changeUidGid goals i uid gid m =
     do {
       node \<leftarrow> nodeTable m i;
       let sz = (if is_file node then getSize goals node else 0);
       let m1 = quota_change (n_uid node) (n_gid node)
             (if is_file node then [(kInodes, - 1), (kSize, - sz)] else [(kInodes, - 1)]) m;
       let m2 = set_node i (\<lambda>n. n\<lparr>n_uid := uid, n_gid := gid\<rparr>) m1;
       Some (quota_change uid gid (if is_file node then [(kInodes, 1), (kSize, sz)] else [(kInodes, 1)]) m2)
     }"

section \<open>Times\<close>

definition updateCTime :: "inode \<Rightarrow> 32 word \<Rightarrow> Metadata \<Rightarrow> Metadata option" where
  "updateCTime i ctime m =
     do {
       node \<leftarrow> nodeTable m i;
       let m1 = set_node i (\<lambda>n. n\<lparr>n_ctime := ctime\<rparr>) m;
       Some (if n_type node = kTrash \<and> n_ctime node \<noteq> ctime
             then m1\<lparr>detached := updateTrashFromOldEntry i (node\<lparr>n_ctime := ctime\<rparr>) (trashPathKey i node) (detached m1)\<rparr>
             else m1)
     }"

definition updateCTimeForTrashNode :: "inode \<Rightarrow> 32 word \<Rightarrow> 32 word \<Rightarrow> Metadata \<Rightarrow> Metadata option" where
  "updateCTimeForTrashNode i newCtime oldTrashtime m =
     do {
       node \<leftarrow> nodeTable m i;
       let oldKey = mkTrashPathKey i (n_ctime node) oldTrashtime;
       let m1 = set_node i (\<lambda>n. n\<lparr>n_ctime := newCtime\<rparr>) m;
       Some (m1\<lparr>detached := updateTrashFromOldEntry i (node\<lparr>n_ctime := newCtime\<rparr>) oldKey (detached m1)\<rparr>)
     }"

end
