(* ===== verification/FsInv.thy ===== *)
theory FsInv
  imports FsMeta
begin

text \<open>
  The invariant of the metadata and its preservation by the operations on nodes: the tree and its
  statistics, the counters of nodes and of detached space, the usages of users and groups, the containers
  of detached files, and the access control lists.
\<close>

section \<open>Counters and usages\<close>

definition one_if :: "bool \<Rightarrow> 'a :: {zero, one}" where "one_if b = (if b then 1 else 0)"

definition count_inv :: "Metadata \<Rightarrow> bool" where
  "count_inv m \<longleftrightarrow>
     nodeCount m = tally (\<lambda>n. 1) (nodeTable m) \<and>
     dirNodes m = tally (\<lambda>n. one_if (is_dir n)) (nodeTable m) \<and>
     fileNodes m = tally (\<lambda>n. one_if (is_file n)) (nodeTable m) \<and>
     linkNodes m = tally (\<lambda>n. one_if (n_type n = kSymlink)) (nodeTable m)"

text \<open>What a node costs its user and its group.\<close>

fun charge :: "goal_defs \<Rightarrow> FSNode \<Rightarrow> QuotaResource \<Rightarrow> 64 word" where
  "charge goals n kInodes = 1"
| "charge goals n kSize = (if is_file n then getSize goals n else 0)"

fun owned :: "QuotaOwner \<Rightarrow> FSNode \<Rightarrow> bool" where
  "owned (kUser, u) n \<longleftrightarrow> unat (n_uid n) = u"
| "owned (kGroup, u) n \<longleftrightarrow> unat (n_gid n) = u"
| "owned (kInode, u) n \<longleftrightarrow> False"

definition used :: "QuotaDatabase \<Rightarrow> QuotaOwner \<Rightarrow> QuotaResource \<Rightarrow> 64 word" where
  "used db owner r = quota_at db owner kUsed r"

definition quota_inv :: "goal_defs \<Rightarrow> Metadata \<Rightarrow> bool" where
  "quota_inv goals m \<longleftrightarrow>
     (\<forall>owner r. fst owner \<noteq> kInode \<longrightarrow>
        used (quotaDatabase m) owner r = tally (\<lambda>n. if owned owner n then charge goals n r else 0) (nodeTable m))"

subsection \<open>What a change of the usages adds up to\<close>

definition delta :: "resource_list \<Rightarrow> QuotaResource \<Rightarrow> 64 word" where
  "delta rs r = sum_list (map snd (filter (\<lambda>x. fst x = r) rs))"

lemma used_quota_update:
  "used (quota_update o1 kUsed r1 d db) owner r = used db owner r + (if owner = o1 \<and> r = r1 then d else 0)"
  by (auto simp: used_def quota_update_def quota_at_def set_limit_def)

lemma used_fsnodes_quota_update:
  "used (fsnodes_quota_update uid gid rs db) owner r =
     used db owner r + (if owner = (kUser, unat uid) \<or> owner = (kGroup, unat gid) then delta rs r else 0)"
proof (induction uid gid rs db rule: fsnodes_quota_update.induct)
  case (2 uid gid resource d rs db)
  then show ?case by (auto simp: used_quota_update delta_def Let_def)
qed (simp add: delta_def)

lemma used_quota_remove: "fst owner \<noteq> kInode \<Longrightarrow> used (quota_remove (kInode, i) db) owner r = used db owner r"
  by (auto simp: used_def quota_remove_def quota_at_def)

lemma owned_iff: "fst owner \<noteq> kInode \<Longrightarrow>
  owned owner n \<longleftrightarrow> owner = (kUser, unat (n_uid n)) \<or> owner = (kGroup, unat (n_gid n))"
  by (cases "(owner, n)" rule: owned.cases) auto

subsection \<open>Sums that edges do not change\<close>

lemma core_fields [simp]:
  "n_type (core n) = n_type n" "n_length (core n) = n_length n" "n_uid (core n) = n_uid n" "n_gid (core n) = n_gid n"
  "n_chunks (core n) = n_chunks n" "n_goal (core n) = n_goal n" "n_mode (core n) = n_mode n"
  "n_trashtime (core n) = n_trashtime n" "n_sessionIds (core n) = n_sessionIds n"
  by (simp_all add: core_def)

lemma getSize_file:
  assumes "is_file n" "n_type n' = n_type n" "n_length n' = n_length n" "n_chunks n' = n_chunks n"
  shows "getSize goals n' = getSize goals n"
proof -
  have "isLastFileChunkNonEmpty n' = isLastFileChunkNonEmpty n" "lastChunkBlocks n' = lastChunkBlocks n"
    "getLiveFileChunkCount n' = getLiveFileChunkCount n"
    using assms by (simp_all add: isLastFileChunkNonEmpty_def lastChunkBlocks_def getLiveFileChunkCount_def)
  moreover have "\<not> is_dir n" using assms(1) by (auto simp: is_file_def)
  ultimately show ?thesis using assms by (simp add: getSize_def getStats_def is_file_def fileSize_def Let_def)
qed

lemma charge_cong:
  "n_type n' = n_type n \<Longrightarrow> n_length n' = n_length n \<Longrightarrow> n_chunks n' = n_chunks n \<Longrightarrow> charge goals n' r = charge goals n r"
  using getSize_file [of n n' goals] by (cases r) (auto simp: is_file_def)

lemma charge_core: "charge goals (core n) r = charge goals n r"
  by (rule charge_cong) simp_all

lemma owned_core: "owned owner (core n) = owned owner n"
  by (cases "(owner, n)" rule: owned.cases) simp_all

lemma count_inv_core:
  assumes "same_core (nodeTable m) ns"
  shows "count_inv (m\<lparr>nodeTable := ns\<rparr>) = count_inv m"
proof -
  have "tally f ns = tally f (nodeTable m)" if "\<And>n. f n = f (core n)" for f :: "FSNode \<Rightarrow> 32 word"
    using tally_core [of "nodeTable m" ns f] assms that by blast
  then show ?thesis by (simp add: count_inv_def is_file_def)
qed

lemma quota_inv_core:
  assumes "same_core (nodeTable m) ns"
  shows "quota_inv goals (m\<lparr>nodeTable := ns\<rparr>) = quota_inv goals m"
proof -
  have "tally (\<lambda>n. if owned owner n then charge goals n r else 0) ns =
      tally (\<lambda>n. if owned owner n then charge goals n r else 0) (nodeTable m)" for owner r
    by (rule tally_core [OF assms]) (simp add: charge_core owned_core)
  then show ?thesis by (simp add: quota_inv_def)
qed


subsection \<open>Nodes that come, go and change\<close>

lemma finite_dom: "tree_inv ns \<Longrightarrow> finite (dom ns)" by (simp add: tree_inv_def)

lemmas count_simps = count_inv_def one_if_def is_file_def

lemma count_inv_new:
  assumes "count_inv m" "finite (dom (nodeTable m))" "nodeTable m c = None" "n_type n \<noteq> kTrash" "n_type n \<noteq> kReserved"
  shows "count_inv ((incrementNodeCounters (n_type n) m)\<lparr>nodeTable := (nodeTable m)(c \<mapsto> n)\<rparr>)"
  using assms by (cases "n_type n") (simp_all add: count_simps incrementNodeCounters_def tally_new)

lemma quota_inv_step:
  assumes "quota_inv goals m"
    and "\<And>owner r. fst owner \<noteq> kInode \<Longrightarrow>
      used (quotaDatabase m') owner r - used (quotaDatabase m) owner r =
      tally (\<lambda>n. if owned owner n then charge goals n r else 0) (nodeTable m') -
      tally (\<lambda>n. if owned owner n then charge goals n r else 0) (nodeTable m)"
  shows "quota_inv goals m'"
  unfolding quota_inv_def
proof (intro allI impI)
  fix owner r assume o: "fst (owner :: QuotaOwner) \<noteq> kInode"
  then have "used (quotaDatabase m) owner r = tally (\<lambda>n. if owned owner n then charge goals n r else 0) (nodeTable m)"
    using assms(1) unfolding quota_inv_def by blast
  with assms(2) [OF o, of r]
  show "used (quotaDatabase m') owner r = tally (\<lambda>n. if owned owner n then charge goals n r else 0) (nodeTable m')"
    by simp
qed

lemma delta_simps [simp]: "delta [] r = 0" "delta ((r1, d) # rs) r = (if r1 = r then d else 0) + delta rs r"
  by (simp_all add: delta_def)

lemma used_quota_change:
  "used (quotaDatabase (quota_change uid gid rs m)) owner r =
     used (quotaDatabase m) owner r + (if owner = (kUser, unat uid) \<or> owner = (kGroup, unat gid) then delta rs r else 0)"
  by (simp add: quota_change_def used_fsnodes_quota_update)

lemma quota_change_fields [simp]:
  "nodeTable (quota_change uid gid rs m) = nodeTable m" "detached (quota_change uid gid rs m) = detached m"
  "aclStorage (quota_change uid gid rs m) = aclStorage m" "count_inv (quota_change uid gid rs m) = count_inv m"
  by (simp_all add: quota_change_def count_inv_def)

lemma increment_fields [simp]:
  "nodeTable (incrementNodeCounters ty m) = nodeTable m" "detached (incrementNodeCounters ty m) = detached m"
  "aclStorage (incrementNodeCounters ty m) = aclStorage m" "quotaDatabase (incrementNodeCounters ty m) = quotaDatabase m"
  by (cases ty; simp add: incrementNodeCounters_def)+

section \<open>Detached files and access control lists\<close>

definition detachedOf :: "nodes \<Rightarrow> nodes" where
  "detachedOf ns = (\<lambda>i. case ns i of None \<Rightarrow> None
     | Some n \<Rightarrow> if n_type n = kTrash \<or> n_type n = kReserved then Some n else None)"

definition trash_keys :: "nodes \<Rightarrow> TrashPathKey set" where
  "trash_keys dn = {k. \<exists>n. dn (snd k) = Some n \<and> n_type n = kTrash \<and> trashPathKey (snd k) n = k}"

definition reserved_ids :: "nodes \<Rightarrow> inode set" where
  "reserved_ids dn = {i. \<exists>n. dn i = Some n \<and> n_type n = kReserved}"

definition placed :: "nodes \<Rightarrow> DetachedFiles \<Rightarrow> bool" where
  "placed dn D \<longleftrightarrow> dom (trash D) = trash_keys dn \<and> dom (reserved D) = reserved_ids dn"

text \<open>Every detached file has its entry, and the counters are right.\<close>

definition shelved :: "nodes \<Rightarrow> Metadata \<Rightarrow> bool" where
  "shelved dn m \<longleftrightarrow>
     detached_inv (detached m) \<and> placed dn (detached m) \<and>
     trashNodes m = tally (\<lambda>n. one_if (n_type n = kTrash)) dn \<and>
     reservedNodes m = tally (\<lambda>n. one_if (n_type n = kReserved)) dn \<and>
     trashSpace m = tally (\<lambda>n. if n_type n = kTrash then n_length n else 0) dn \<and>
     reservedSpace m = tally (\<lambda>n. if n_type n = kReserved then n_length n else 0) dn"

text \<open>Exactly the nodes without a parent, but for the root, are detached.\<close>

definition homed :: "nodes \<Rightarrow> bool" where
  "homed ns \<longleftrightarrow> (\<forall>i \<in> dom ns. (pars ns i = [] \<and> i \<noteq> SPECIAL_INODE_ROOT) \<longleftrightarrow> detachedOf ns i \<noteq> None)"

text \<open>Every list belongs to a node, and its mode is that of the node.\<close>

definition acl_ok :: "nodes \<Rightarrow> AclStorage \<Rightarrow> bool" where
  "acl_ok ns st \<longleftrightarrow>
     acl_inv st \<and>
     (\<forall>i acl. acl_of st i = Some acl \<longrightarrow> (\<exists>n. ns i = Some n \<and> n_mode n AND kStandardPermissionsMask = getMode acl))"

definition meta_inv :: "goal_defs \<Rightarrow> Metadata \<Rightarrow> bool" where
  "meta_inv goals m \<longleftrightarrow>
     fs_inv goals (nodeTable m) \<and> count_inv m \<and> quota_inv goals m \<and>
     shelved (detachedOf (nodeTable m)) m \<and> homed (nodeTable m) \<and> acl_ok (nodeTable m) (aclStorage m)"

lemma key_inode [simp]: "snd (trashPathKey i n) = i"
  by (simp add: trashPathKey_def mkTrashPathKey_def)

lemma detachedOf_upd [simp]:
  "detachedOf (ns(c := None)) = (detachedOf ns)(c := None)"
  "detachedOf (ns(c \<mapsto> n)) = (detachedOf ns)(c := if n_type n = kTrash \<or> n_type n = kReserved then Some n else None)"
  by (auto simp: detachedOf_def fun_eq_iff)

lemma detachedOf_at:
  "ns c = None \<Longrightarrow> detachedOf ns c = None"
  "ns c = Some n \<Longrightarrow> detachedOf ns c = (if n_type n = kTrash \<or> n_type n = kReserved then Some n else None)"
  by (simp_all add: detachedOf_def)

lemma detachedOf_frame:
  assumes "same_core ns ns'" "\<forall>i. \<not> isdir ns i \<and> i \<noteq> c \<longrightarrow> ns' i = ns i"
  shows "detachedOf ns' = (detachedOf ns)(c := detachedOf ns' c)"
proof
  fix i show "detachedOf ns' i = ((detachedOf ns)(c := detachedOf ns' c)) i"
  proof (cases "i = c \<or> \<not> isdir ns i")
    case True
    then show ?thesis using assms(2) by (cases "i = c") (simp_all add: detachedOf_def)
  next
    case False
    then obtain d where d: "ns i = Some d" "is_dir d" by (auto simp: isdir_def split: option.splits)
    with same_core_type [OF assms(1), of i] obtain d' where "ns' i = Some d'" "is_dir d'" by auto
    with d False show ?thesis by (simp add: detachedOf_def)
  qed
qed

lemma acl_ok_core:
  assumes "same_core ns ns'"
  shows "acl_ok ns' st = acl_ok ns st"
proof -
  have "(\<exists>n. ns' i = Some n \<and> n_mode n AND x = y) = (\<exists>n. ns i = Some n \<and> n_mode n AND x = y)" for i x y
  proof -
    have "map_option n_mode (map_option core (ns' i)) = map_option n_mode (map_option core (ns i))"
      using assms by (simp add: same_core_def)
    then show ?thesis by (cases "ns i"; cases "ns' i") auto
  qed
  then show ?thesis by (simp add: acl_ok_def)
qed

section \<open>Making a node\<close>

lemma convertMask2Mode_mono:
  assumes "\<And>n. bit M n \<Longrightarrow> bit M' n" "bit (convertMask2Mode M) k"
  shows "bit (convertMask2Mode M') k"
proof -
  have "M' AND x \<noteq> 0" if "M AND x \<noteq> 0" for x
  proof -
    from that obtain n where "bit (M AND x) n" by (auto simp: bit_eq_iff)
    then have "bit (M' AND x) n" using assms(1) by (simp add: bit_and_iff)
    then show ?thesis by auto
  qed
  then show ?thesis using assms(2) unfolding bit_convertMask2Mode by blast
qed

lemma convertMask2Mode_below:
  assumes "\<And>n. bit M n \<Longrightarrow> bit (convertMode2Mask x) n" "bit (convertMask2Mode M) k"
  shows "k < 3 \<and> bit x k"
proof -
  have "bit (convertMask2Mode (convertMode2Mask x)) k" by (rule convertMask2Mode_mono [OF assms(1) assms(2)])
  then show ?thesis using mask_mode_inverse [of x True] by (simp add: bit_and_7)
qed

lemma inheritInode_mode:
  assumes "inheritInode dir_acl m umask dirp = (True, m', acl)"
  shows "(m AND (m' OR NOT kStandardPermissionsMask)) AND kStandardPermissionsMask = getMode acl"
proof (rule bit_word_eqI)
  fix n assume n: "n < LENGTH(16)"
  note v = inheritInode_valid [OF assms]
  have b: "bit (kStandardPermissionsMask) n \<longleftrightarrow> n < 9"
    using bit_mask_iff [of 9 n, where 'a = "16 word"] by (auto simp: mask_eq_exp_minus_1 kStandardPermissionsMask_def)
  have "n < 9 \<and> bit m n" if g: "bit (getMode acl) n"
  proof -
    consider "6 \<le> n" "bit (convertMask2Mode (owner_mask acl)) (n - 6)" | "3 \<le> n" "bit (convertMask2Mode (group_mask acl)) (n - 3)"
      | "bit (convertMask2Mode (other_mask acl)) n"
      using g by (auto simp: getMode_def bit_or_iff bit_push_bit_iff)
    then show ?thesis
    proof cases
      case 1
      then show ?thesis using convertMask2Mode_below [OF v(4) 1(2)] by (auto simp: bit_drop_bit_eq)
    next
      case 2
      then show ?thesis using convertMask2Mode_below [OF v(5) 2(2)] by (auto simp: bit_drop_bit_eq)
    next
      case 3
      then show ?thesis using convertMask2Mode_below [OF v(6) 3] by auto
    qed
  qed
  then show "bit ((m AND (m' OR NOT kStandardPermissionsMask)) AND kStandardPermissionsMask) n = bit (getMode acl) n"
    using n unfolding v(1) by (auto simp: bit_and_iff bit_or_iff bit_not_iff b)
qed

lemma inheritInto_mode:
  "inheritInto pa umask node = (node', Some a) \<Longrightarrow> n_mode node' AND kStandardPermissionsMask = getMode a"
  by (auto simp: inheritInto_def dest!: inheritInode_mode split: option.splits prod.splits if_splits)

lemma inheritInto_fields:
  assumes "inheritInto pa umask node = (node', acl)"
  shows "n_type node' = n_type node" "n_parents node' = n_parents node" "n_entries node' = n_entries node"
    "n_stats node' = n_stats node" "n_nlink node' = n_nlink node"
  using assms by (auto simp: inheritInto_def split: option.splits prod.splits)

lemma ownNode_mode: "n_mode (ownNode uid gid copysgid p n) AND kStandardPermissionsMask = n_mode n AND kStandardPermissionsMask"
proof -
  have "(w OR S_ISGID) AND kStandardPermissionsMask = w AND kStandardPermissionsMask" for w :: "16 word"
  proof -
    have "S_ISGID AND kStandardPermissionsMask = 0" by (simp add: S_ISGID_def kStandardPermissionsMask_def)
    then show ?thesis by (simp add: bit.conj_disj_distrib2)
  qed
  then show ?thesis by (simp add: ownNode_def Let_def)
qed

lemma ownNode_fields:
  "n_type (ownNode uid gid copysgid p n) = n_type n" "n_parents (ownNode uid gid copysgid p n) = n_parents n"
  "n_entries (ownNode uid gid copysgid p n) = n_entries n" "n_stats (ownNode uid gid copysgid p n) = n_stats n"
  "n_nlink (ownNode uid gid copysgid p n) = n_nlink n"
  by (simp_all add: ownNode_def Let_def)

lemma no_edge_below_new:
  assumes "tree_inv ns" "ns c = None" "isdir ns p"
  shows "(c, p) \<notin> (edges ns)\<^sup>*"
proof
  assume "(c, p) \<in> (edges ns)\<^sup>*"
  moreover have "c \<noteq> p" using assms(2,3) by (auto simp: isdir_def)
  ultimately obtain x where "(c, x) \<in> edges ns" by (auto elim: converse_rtranclE)
  then obtain name where "(c, name) \<in> set (pars ns x)" by (auto simp: edges_def)
  then have "isdir ns c" by (rule tree_inv_edge(2) [OF assms(1)])
  then show False using assms(2) by (simp add: isdir_def)
qed

text \<open>A new node in the table, before it is linked, and the edge that links it.\<close>

lemma link_new_law:
  assumes inv: "fs_inv goals ns" and c: "ns c = None" "n_parents n = []" "n_entries n = []" "n_type n \<noteq> kTrash"
    and dir: "is_dir n \<Longrightarrow> n_stats n = 0 \<and> n_nlink n = 2" and p: "isdir ns parent" "lookup ns parent name = None"
  shows "\<exists>ns'. fs_link goals ts parent c name (ns(c \<mapsto> n)) = Some ns' \<and> fs_inv goals ns' \<and> same_core (ns(c \<mapsto> n)) ns' \<and>
    dom ns' = insert c (dom ns) \<and> isdir ns' = (isdir ns)(c := is_dir n) \<and>
    pars ns' = (pars ns)(c := [(parent, name)]) \<and> kids ns' = (kids ns)(parent := kids ns parent @ [(name, c)]) \<and>
    (\<forall>i. \<not> isdir ns i \<and> i \<noteq> c \<longrightarrow> ns' i = ns i)"
proof -
  let ?ns = "ns(c \<mapsto> n)"
  have ti: "tree_inv ns" "stats_inv goals ns" using inv by (simp_all add: fs_inv_def)
  note v = new_node_views [of ns c n, OF c(1-3)] 
  have l: "tree_inv ?ns" "stats_inv goals ?ns" using new_node_law [OF ti(1) c(1-3)] dir ti(2) by blast+
  have pc: "pars ns c = []" "c \<noteq> parent" "c \<noteq> SPECIAL_INODE_ROOT"
    using c(1) p(1) ti(1) by (auto simp: pars_def isdir_def tree_inv_def)
  have "can_link ?ns parent c name"
    using p c pc no_edge_below_new [OF ti(1) c(1) p(1)] by (simp add: can_link_def v lookup_def)
  from fs_link_law [OF l(1) this, of goals ts] l(2) show ?thesis
    using pc by (auto simp: fs_inv_def v)
qed

lemma initNode_fields:
  "n_type (initNode ts ty mode p) = ty" "n_parents (initNode ts ty mode p) = []" "n_entries (initNode ts ty mode p) = []"
  "n_stats (initNode ts ty mode p) = 0" "n_nlink (initNode ts ty mode p) = 2"
  by (simp_all add: initNode_def newNode_def)

text \<open>The node \<open>createNode\<close> makes, and the list that belongs to it.\<close>

lemma created_node:
  assumes "inheritInto pa umask (initNode ts ty mode p) = (node, acl)" "node' = ownNode uid gid copysgid p node"
  shows "n_type node' = ty" "n_parents node' = []" "n_entries node' = []" "n_stats node' = 0" "n_nlink node' = 2"
    "acl = Some a \<Longrightarrow> n_mode node' AND kStandardPermissionsMask = getMode a"
proof -
  have "n_type node = ty" "n_parents node = []" "n_entries node = []" "n_stats node = 0" "n_nlink node = 2"
    using inheritInto_fields [OF assms(1)] by (simp_all add: initNode_fields)
  then show "n_type node' = ty" "n_parents node' = []" "n_entries node' = []" "n_stats node' = 0" "n_nlink node' = 2"
    by (simp_all add: assms(2) ownNode_fields)
  show "acl = Some a \<Longrightarrow> n_mode node' AND kStandardPermissionsMask = getMode a"
    using inheritInto_mode [of pa umask "initNode ts ty mode p" node a] assms by (simp add: ownNode_mode)
qed

lemma count_inv_frame [simp]:
  "count_inv (m\<lparr>aclStorage := a\<rparr>) = count_inv m" "count_inv (m\<lparr>detached := d\<rparr>) = count_inv m"
  "count_inv (m\<lparr>quotaDatabase := q\<rparr>) = count_inv m" "count_inv (m\<lparr>chunkCalls := c\<rparr>) = count_inv m"
  by (simp_all add: count_inv_def)

lemma shelved_frame [simp]:
  "shelved dn (m\<lparr>aclStorage := a\<rparr>) = shelved dn m" "shelved dn (m\<lparr>nodeTable := ns\<rparr>) = shelved dn m"
  "shelved dn (m\<lparr>quotaDatabase := q\<rparr>) = shelved dn m" "shelved dn (m\<lparr>chunkCalls := c\<rparr>) = shelved dn m"
  "shelved dn (m\<lparr>nodeCount := x\<rparr>) = shelved dn m" "shelved dn (m\<lparr>dirNodes := x\<rparr>) = shelved dn m"
  "shelved dn (m\<lparr>fileNodes := x\<rparr>) = shelved dn m" "shelved dn (m\<lparr>linkNodes := x\<rparr>) = shelved dn m"
  "shelved dn (quota_change uid gid rs m) = shelved dn m"
  by (simp_all add: shelved_def quota_change_def)

lemma shelved_increment [simp]: "shelved dn (incrementNodeCounters ty m) = shelved dn m"
  by (cases ty; simp add: incrementNodeCounters_def)

lemma quota_inv_new:
  assumes "quota_inv goals m" "finite (dom (nodeTable m))" "nodeTable m c = None" "nodeTable m' = (nodeTable m)(c \<mapsto> n)"
    "\<And>owner r. fst owner \<noteq> kInode \<Longrightarrow>
      used (quotaDatabase m') owner r = used (quotaDatabase m) owner r + (if owned owner n then charge goals n r else 0)"
  shows "quota_inv goals m'"
  by (rule quota_inv_step [OF assms(1)]) (simp add: assms tally_new)

lemma acl_ok_new:
  assumes "acl_ok ns st" "ns c = None" "acl_of st' = (acl_of st)(c := acl)" "acl_inv st'"
    "\<And>a. acl = Some a \<Longrightarrow> n_mode n AND kStandardPermissionsMask = getMode a"
  shows "acl_ok (ns(c \<mapsto> n)) st'"
  using assms by (auto simp: acl_ok_def)

lemma acl_inherit:
  assumes "acl_ok ns st" "ns c = None"
  shows "\<exists>pa. (if inheritAcl then acl_get st parent else Some None) = Some pa"
    "\<exists>st'. (case acl of None \<Rightarrow> Some st | Some a \<Rightarrow> acl_set c a st) = Some st' \<and> acl_inv st' \<and> acl_of st' = (acl_of st)(c := acl)"
proof -
  have inv: "acl_inv st" using assms by (simp add: acl_ok_def)
  have "acl_of st c = None" using assms unfolding acl_ok_def by (metis not_None_eq option.distinct(1))
  then show "\<exists>st'. (case acl of None \<Rightarrow> Some st | Some a \<Rightarrow> acl_set c a st) = Some st' \<and> acl_inv st' \<and> acl_of st' = (acl_of st)(c := acl)"
    using acl_set_law [OF inv, of c] inv by (cases acl) (auto simp: fun_upd_idem)
  show "\<exists>pa. (if inheritAcl then acl_get st parent else Some None) = Some pa" using acl_get_law [OF inv] by simp
qed

lemma homed_new:
  assumes ok: "homed ns" and c: "ns c = None" "n_type n \<noteq> kTrash" "n_type n \<noteq> kReserved"
    and ns': "same_core (ns(c \<mapsto> n)) ns'" "\<forall>i. \<not> isdir ns i \<and> i \<noteq> c \<longrightarrow> ns' i = ns i" "dom ns' = insert c (dom ns)"
      "pars ns' = (pars ns)(c := [e])"
  shows "homed ns'" "detachedOf ns' = detachedOf ns"
proof -
  have "detachedOf ns' c = None"
    using same_core_type [OF ns'(1), of c] c by (cases "ns' c") (auto simp: detachedOf_def)
  moreover have "\<forall>i. \<not> isdir (ns(c \<mapsto> n)) i \<and> i \<noteq> c \<longrightarrow> ns' i = (ns(c \<mapsto> n)) i"
    using ns'(2) by (auto simp: isdir_def)
  note detachedOf_frame [OF ns'(1) this]
  ultimately show eq: "detachedOf ns' = detachedOf ns" using c by (auto simp: detachedOf_def fun_eq_iff)
  have "detachedOf ns c = None" using c by (simp add: detachedOf_def)
  then show "homed ns'" using ok c(1) unfolding homed_def eq ns'(3,4) by auto
qed

lemma createNode_law:
  assumes inv: "meta_inv goals m" and p: "isdir (nodeTable m) parent" "lookup (nodeTable m) parent name = None"
    and ino: "nodeTable m ino = None" and ty: "ty \<noteq> kTrash" "ty \<noteq> kReserved" "ty \<noteq> kUnknown"
  shows "\<exists>m'. createNode goals ts parent name ty mode umask uid gid copysgid inheritAcl ino m = Some m' \<and> meta_inv goals m' \<and>
    dom (nodeTable m') = insert ino (dom (nodeTable m)) \<and> isdir (nodeTable m') = (isdir (nodeTable m))(ino := ty = kDirectory) \<and>
    pars (nodeTable m') = (pars (nodeTable m))(ino := [(parent, name)]) \<and>
    kids (nodeTable m') = (kids (nodeTable m))(parent := kids (nodeTable m) parent @ [(name, ino)]) \<and>
    (\<forall>i. \<not> isdir (nodeTable m) i \<and> i \<noteq> ino \<longrightarrow> nodeTable m' i = nodeTable m i) \<and> detached m' = detached m"
proof -
  let ?ns = "nodeTable m" and ?m1 = "incrementNodeCounters ty m"
  have i: "fs_inv goals ?ns" "count_inv m" "quota_inv goals m" "shelved (detachedOf ?ns) m" "acl_ok ?ns (aclStorage m)" "homed ?ns"
    using inv by (simp_all add: meta_inv_def)
  have fin: "finite (dom ?ns)" using i(1) finite_dom by (simp add: fs_inv_def)
  obtain d where d: "?ns parent = Some d" using p(1) by (auto simp: isdir_def split: option.splits)
  obtain pa where pa: "(if inheritAcl then acl_get (aclStorage m) parent else Some None) = Some pa"
    using acl_inherit(1) [OF i(5) ino] by blast
  obtain node0 acl where inh: "inheritInto pa umask (initNode ts ty mode d) = (node0, acl)" by fastforce
  define node where "node = ownNode uid gid copysgid d node0"
  note f = created_node [OF inh node_def]
  obtain st where st: "(case acl of None \<Rightarrow> Some (aclStorage m) | Some a \<Rightarrow> acl_set ino a (aclStorage m)) = Some st"
      "acl_inv st" "acl_of st = (acl_of (aclStorage m))(ino := acl)"
    using acl_inherit(2) [OF i(5) ino] by blast
  obtain ns' where ns': "fs_link goals ts parent ino name (?ns(ino \<mapsto> node)) = Some ns'" "fs_inv goals ns'"
      "same_core (?ns(ino \<mapsto> node)) ns'" "dom ns' = insert ino (dom ?ns)" "isdir ns' = (isdir ?ns)(ino := is_dir node)"
      "pars ns' = (pars ?ns)(ino := [(parent, name)])" "kids ns' = (kids ?ns)(parent := kids ?ns parent @ [(name, ino)])"
      "\<forall>i. \<not> isdir ?ns i \<and> i \<noteq> ino \<longrightarrow> ns' i = ?ns i"
    using link_new_law [OF i(1) ino f(2,3) _ _ p, of ts] f(1,4,5) ty by auto
  define m2 where "m2 = quota_change (n_uid node) (n_gid node) [(kInodes, 1)] (?m1\<lparr>nodeTable := ns', aclStorage := st\<rparr>)"
  define m3 where "m3 = (if ty = kFile then quota_change (n_uid node) (n_gid node) [(kSize, getSize goals node)] m2 else m2)"
  have t: "nodeTable m3 = ns'" "aclStorage m3 = st" "detached m3 = detached m" by (simp_all add: m3_def m2_def)
  have r: "createNode goals ts parent name ty mode umask uid gid copysgid inheritAcl ino m = Some m3"
    unfolding createNode_def Let_def increment_fields m3_def m2_def node_def
    using ty d pa inh st(1) ns'(1) [unfolded node_def] by (simp split del: if_split)
  have "used (quotaDatabase m3) owner r = used (quotaDatabase m) owner r + (if owned owner node then charge goals node r else 0)"
    if "fst owner \<noteq> kInode" for owner r
    using f(1) ty by (cases r) (auto simp: m3_def m2_def used_quota_change owned_iff [OF that] is_file_def)
  then have "quota_inv goals (m3\<lparr>nodeTable := ?ns(ino \<mapsto> node)\<rparr>)"
    by (intro quota_inv_new [OF i(3) fin ino]) simp_all
  then have q: "quota_inv goals m3" using quota_inv_core [of "m3\<lparr>nodeTable := ?ns(ino \<mapsto> node)\<rparr>" ns' goals] ns'(3) t(1)
    by (simp add: quota_inv_def)
  have "count_inv (?m1\<lparr>nodeTable := ?ns(ino \<mapsto> node)\<rparr>)" using count_inv_new [OF i(2) fin ino, of node] f(1) ty by simp
  then have "count_inv (?m1\<lparr>nodeTable := ns'\<rparr>)" using count_inv_core [of "?m1\<lparr>nodeTable := ?ns(ino \<mapsto> node)\<rparr>" ns'] ns'(3) by simp
  then have c: "count_inv m3" by (cases "ty = kFile") (simp_all add: m3_def m2_def)
  have "acl_ok (?ns(ino \<mapsto> node)) st" using acl_ok_new [OF i(5) ino st(3,2) f(6)] .
  then have a: "acl_ok ns' st" using acl_ok_core [OF ns'(3)] by simp
  have "homed ns'" "detachedOf ns' = detachedOf ?ns" using homed_new [OF i(6) ino _ _ ns'(3,8,4,6)] f(1) ty by simp_all
  moreover have "shelved (detachedOf ?ns) m3" using i(4) by (cases "ty = kFile") (simp_all add: m3_def m2_def)
  ultimately have "meta_inv goals m3" using ns'(2) q c a by (simp add: meta_inv_def t)
  then show ?thesis using r ns' f(1) by (auto simp: t)
qed

end
