(* ===== verification/FsPath.thy ===== *)
theory FsPath
  imports FsMeta
begin

text \<open>
  The path of a node (\<open>getPathSize\<close>, \<open>getPathData\<close>, \<open>getPath\<close> of \<open>src/src/master/filesystem_node.cc\<close>): the loops
  end on every tree, and a path that fits is the names on the way from the root, joined by slashes.
\<close>

section \<open>The loops end\<close>

lemma path_size_loop_ends:
  assumes "wf R" "tree_inv ns" "edges ns = R" "isdir ns p"
  shows "\<exists>sz. path_size_loop p s ns = Some sz"
  using assms
proof (induction p arbitrary: s rule: wf_induct_rule)
  case (less p)
  from less.prems(1,3) show ?case
  proof (cases rule: dir_parents_cases)
    case 1
    then show ?thesis by (simp add: path_size_loop.simps)
  next
    case (2 q name)
    then have "isdir ns q" "(q, p) \<in> R" using tree_inv_edge(2) [OF less.prems(1), of q name p] less.prems(2) by (auto simp: edges_def)
    then show ?thesis using less.IH [of q] less.prems 2 by (simp add: path_size_loop.simps [of p] Let_def)
  qed
qed

lemma path_data_loop_ends:
  assumes "wf R" "tree_inv ns" "edges ns = R" "isdir ns p"
  shows "\<exists>b. path_data_loop p buf ns = Some b"
  using assms
proof (induction p arbitrary: buf rule: wf_induct_rule)
  case (less p)
  from less.prems(1,3) show ?case
  proof (cases rule: dir_parents_cases)
    case 1
    then show ?thesis by (simp add: path_data_loop.simps)
  next
    case (2 q name)
    then have "isdir ns q" "(q, p) \<in> R" using tree_inv_edge(2) [OF less.prems(1), of q name p] less.prems(2) by (auto simp: edges_def)
    then show ?thesis using less.IH [of q] less.prems 2 by (simp add: path_data_loop.simps [of p] Let_def)
  qed
qed

lemma getPath_ends:
  assumes "tree_inv ns" "isdir ns p"
  shows "\<exists>path. getPath p c ns = Some path"
proof -
  note w = wf_edges [OF assms(1)]
  obtain sz where "getPathSize p c ns = Some sz"
    using path_size_loop_ends [OF w assms(1) refl assms(2)] by (auto simp: getPathSize_def)
  moreover obtain b where "path_data_loop p (path_put (getChildName ns p c)
      (unat (if sz > kEdgeNameMaxSize then kEdgeNameMaxSize else sz), [])) ns = Some b"
    using path_data_loop_ends [OF w assms(1) refl assms(2)] by blast
  ultimately show ?thesis by (cases b) (simp add: getPath_def Let_def)
qed

section \<open>The path\<close>

inductive dirPath :: "nodes \<Rightarrow> inode \<Rightarrow> string list \<Rightarrow> bool" for ns where
  dirPath_root: "dirPath ns SPECIAL_INODE_ROOT []"
| dirPath_step: "dirPath ns q names \<Longrightarrow> pars ns p = [(q, name)] \<Longrightarrow> p \<noteq> SPECIAL_INODE_ROOT \<Longrightarrow> isdir ns q \<Longrightarrow>
    dirPath ns p (names @ [name])"

fun joinPath :: "string list \<Rightarrow> string" where
  "joinPath [] = []"
| "joinPath [x] = x"
| "joinPath (x # y # xs) = x @ CHR ''/'' # joinPath (y # xs)"

lemma joinPath_snoc: "xs \<noteq> [] \<Longrightarrow> joinPath (xs @ [x]) = joinPath xs @ CHR ''/'' # x"
  by (induction xs rule: joinPath.induct) simp_all

lemma getChildName_single: "pars ns p = [(q, name)] \<Longrightarrow> getChildName ns q p = name"
  by (simp add: getChildName_def)

lemma path_size_loop_law:
  assumes "dirPath ns p names"
  shows "path_size_loop p s ns = Some (s + of_nat (length (joinPath names) + (if names = [] then 0 else 1)))"
  using assms
proof (induction arbitrary: s rule: dirPath.induct)
  case (dirPath_step q names p name)
  then show ?case
    by (cases "names = []") (simp_all add: path_size_loop.simps [of p] getChildName_single joinPath_snoc Let_def algebra_simps)
qed (simp add: path_size_loop.simps)

lemma path_data_loop_law:
  assumes "dirPath ns p names"
  shows "path_data_loop p (length (joinPath names), acc) ns = Some (0, joinPath names @ acc)"
  using assms
proof (induction arbitrary: acc rule: dirPath.induct)
  case (dirPath_step q names p name)
  then show ?case
    by (cases "names = []")
      (simp_all add: path_data_loop.simps [of p] getChildName_single joinPath_snoc path_put_def Let_def dirPath.cases)
qed (simp add: path_data_loop.simps)

lemma getPath_law:
  assumes "dirPath ns p names" "getChildName ns p c = name" "length (joinPath (names @ [name])) \<le> 65535"
  shows "getPath p c ns = Some (joinPath (names @ [name]))"
proof -
  let ?l = "length (joinPath (names @ [name]))"
  have "getPathSize p c ns = Some (of_nat ?l)"
    using path_size_loop_law [OF assms(1)] assms(2) by (cases "names = []") (simp_all add: getPathSize_def joinPath_snoc algebra_simps)
  moreover have "unat (of_nat ?l :: 32 word) = ?l" using assms(3) by (simp add: unat_of_nat)
  moreover from this have "\<not> (of_nat ?l :: 32 word) > kEdgeNameMaxSize"
    using assms(3) by (simp add: kEdgeNameMaxSize_def word_less_nat_alt)
  moreover have "path_data_loop p (path_put name (?l, [])) ns = Some (0, joinPath (names @ [name]))"
    using path_data_loop_law [OF assms(1)] by (cases "names = []") (simp_all add: path_put_def joinPath_snoc)
  ultimately show ?thesis using assms(2) by (simp add: getPath_def Let_def)
qed

end
