(* ===== verification/FsDetach.thy ===== *)
theory FsDetach
  imports FsInv FsPath
begin

text \<open>
  Freeing a node, and the ways of a file out of the tree and back: \<open>removeNode\<close>, \<open>unlink\<close>, \<open>purge\<close> and
  \<open>undel\<close> succeed and keep the invariant of the metadata. A file is put on or taken from the shelf of
  detached files by the lemmas of the first section; \<open>removable\<close> is what holds of a node just before
  \<open>removeNode\<close> frees it.
\<close>

section \<open>The shelf\<close>

lemma trash_keys_new:
  "dn i = None \<Longrightarrow> trash_keys (dn(i \<mapsto> n)) = (if n_type n = kTrash then insert (trashPathKey i n) (trash_keys dn) else trash_keys dn)"
  by (intro set_eqI) (auto simp: trash_keys_def)

lemma trash_keys_free:
  "dn i = Some n \<Longrightarrow> trash_keys (dn(i := None)) = (if n_type n = kTrash then trash_keys dn - {trashPathKey i n} else trash_keys dn)"
  by (intro set_eqI) (auto simp: trash_keys_def)

lemma reserved_ids_new:
  "dn i = None \<Longrightarrow> reserved_ids (dn(i \<mapsto> n)) = (if n_type n = kReserved then insert i (reserved_ids dn) else reserved_ids dn)"
  by (auto simp: reserved_ids_def)

lemma reserved_ids_free:
  "dn i = Some n \<Longrightarrow> reserved_ids (dn(i := None)) = (if n_type n = kReserved then reserved_ids dn - {i} else reserved_ids dn)"
  by (auto simp: reserved_ids_def)

lemma trash_keys_put: "dn i = Some n \<Longrightarrow> trash_keys (dn(i \<mapsto> n')) =
  (if n_type n' = kTrash then insert (trashPathKey i n') (trash_keys (dn(i := None))) else trash_keys (dn(i := None)))"
  using trash_keys_new [of "dn(i := None)" i n'] by simp

lemma reserved_ids_put: "dn i = Some n \<Longrightarrow> reserved_ids (dn(i \<mapsto> n')) =
  (if n_type n' = kReserved then insert i (reserved_ids (dn(i := None))) else reserved_ids (dn(i := None)))"
  using reserved_ids_new [of "dn(i := None)" i n'] by simp

lemma not_on_shelf:
  assumes "placed dn D" "dn i = None"
  shows "trash D (trashPathKey i n) = None" "reserved D i = None"
proof -
  have "trashPathKey i n \<notin> dom (trash D)" "i \<notin> dom (reserved D)" using assms by (auto simp: placed_def trash_keys_def reserved_ids_def)
  then show "trash D (trashPathKey i n) = None" "reserved D i = None" by auto
qed

lemma on_shelf:
  assumes "placed dn D" "dn i = Some n"
  shows "n_type n = kTrash \<Longrightarrow> \<exists>h. trash D (trashPathKey i n) = Some h"
    "n_type n = kReserved \<Longrightarrow> \<exists>h. reserved D i = Some h"
    "n_type n \<noteq> kReserved \<Longrightarrow> reserved D i = None"
proof -
  have "n_type n = kTrash \<Longrightarrow> trashPathKey i n \<in> dom (trash D)" "i \<in> dom (reserved D) \<longleftrightarrow> n_type n = kReserved"
    using assms by (auto simp: placed_def trash_keys_def reserved_ids_def)
  then show "n_type n = kTrash \<Longrightarrow> \<exists>h. trash D (trashPathKey i n) = Some h"
    "n_type n = kReserved \<Longrightarrow> \<exists>h. reserved D i = Some h" "n_type n \<noteq> kReserved \<Longrightarrow> reserved D i = None" by auto
qed

lemmas shelf_simps = shelved_def placed_def trash_keys_new trash_keys_free reserved_ids_new reserved_ids_free
  trash_keys_put reserved_ids_put tally_new tally_free tally_replace one_if_def

lemma shelve_trash:
  assumes s: "shelved dn m" "finite (dom dn)" and n: "dn i = None" "n_type n = kTrash" and h: "can_detach h (detached m)"
  shows "shelved (dn(i \<mapsto> n)) (m\<lparr>detached := addTrashEntry i n h (detached m),
    trashSpace := trashSpace m + n_length n, trashNodes := trashNodes m + 1\<rparr>)"
proof -
  have "trash (detached m) (trashPathKey i n) = None" using not_on_shelf(1) [of dn "detached m" i n] s n by (simp add: shelved_def)
  with addTrashEntry_law [OF _ this h] s n show ?thesis by (simp add: shelf_simps)
qed

lemma shelve_reserved:
  assumes s: "shelved dn m" "finite (dom dn)" and n: "dn i = None" "n_type n = kReserved" and h: "can_detach h (detached m)"
  shows "shelved (dn(i \<mapsto> n)) (m\<lparr>detached := addReservedEntry i h (detached m),
    reservedSpace := reservedSpace m + n_length n, reservedNodes := reservedNodes m + 1\<rparr>)"
proof -
  have "reserved (detached m) i = None" using not_on_shelf(2) [of dn "detached m" i] s n by (simp add: shelved_def)
  with addReservedEntry_law [OF _ this h] s n show ?thesis by (simp add: shelf_simps)
qed

lemma unshelve_trash:
  assumes "shelved dn m" "finite (dom dn)" "dn i = Some n" "n_type n = kTrash"
  shows "shelved (dn(i := None)) (m\<lparr>detached := removeTrashEntry i n (detached m),
    trashSpace := trashSpace m - n_length n, trashNodes := trashNodes m - 1\<rparr>)"
  using assms removeTrashEntry_law [of "detached m" i n] by (simp add: shelf_simps)

lemma unshelve_reserved:
  assumes "shelved dn m" "finite (dom dn)" "dn i = Some n" "n_type n = kReserved"
  shows "shelved (dn(i := None)) (m\<lparr>detached := removeReservedEntry i (detached m),
    reservedSpace := reservedSpace m - n_length n, reservedNodes := reservedNodes m - 1\<rparr>)"
  using assms removeReservedEntry_law [of "detached m" i] by (simp add: shelf_simps)

lemma reshelve:
  assumes s: "shelved dn m" "finite (dom dn)" and n: "dn i = Some n" "n_type n = kTrash"
    and n': "n' = n\<lparr>n_type := kReserved\<rparr>"
  shows "shelved (dn(i \<mapsto> n')) (m\<lparr>detached := moveTrashToReservedEntry i n' (detached m),
    trashSpace := trashSpace m - n_length n, trashNodes := trashNodes m - 1,
    reservedSpace := reservedSpace m + n_length n, reservedNodes := reservedNodes m + 1\<rparr>)"
proof -
  have k: "trashPathKey i n' = trashPathKey i n" by (simp add: n' trashPathKey_def)
  obtain h where "trash (detached m) (trashPathKey i n) = Some h" using on_shelf(1) [of dn "detached m" i n] s n by (auto simp: shelved_def)
  moreover have "reserved (detached m) i = None"
    using on_shelf(3) [of dn "detached m" i n] s n by (simp add: shelved_def)
  ultimately have "detached_inv (moveTrashToReservedEntry i n' (detached m)) \<and>
      trash (moveTrashToReservedEntry i n' (detached m)) = (trash (detached m))(trashPathKey i n := None) \<and>
      reserved (moveTrashToReservedEntry i n' (detached m)) = (reserved (detached m))(i \<mapsto> h)"
    using moveTrashToReservedEntry_law [of "detached m" i n'] s(1) by (simp add: k shelved_def)
  then show ?thesis using s n n' by (simp add: shelf_simps)
qed

section \<open>Freeing a node\<close>

definition removable :: "goal_defs \<Rightarrow> inode \<Rightarrow> FSNode \<Rightarrow> Metadata \<Rightarrow> bool" where
  "removable goals i n m \<longleftrightarrow>
     fs_inv goals (nodeTable m) \<and> count_inv m \<and> quota_inv goals m \<and> acl_ok (nodeTable m) (aclStorage m) \<and>
     shelved ((detachedOf (nodeTable m))(i := None)) m \<and>
     nodeTable m i = Some n \<and> n_parents n = [] \<and> n_entries n = [] \<and> i \<noteq> SPECIAL_INODE_ROOT \<and>
     (\<forall>j \<in> dom (nodeTable m) - {i}.
        (pars (nodeTable m) j = [] \<and> j \<noteq> SPECIAL_INODE_ROOT) \<longleftrightarrow> detachedOf (nodeTable m) j \<noteq> None)"

text \<open>The counters and the usages without the node.\<close>

definition freeCounters :: "FSNode \<Rightarrow> Metadata \<Rightarrow> Metadata" where
  "freeCounters n m =
     (let m1 = m\<lparr>nodeCount := nodeCount m - 1\<rparr>;
          m2 = (if is_dir n then m1\<lparr>dirNodes := dirNodes m1 - 1\<rparr> else m1);
          m3 = (if is_file n then releaseChunks (n_chunks n) (n_goal n) (m2\<lparr>fileNodes := fileNodes m2 - 1\<rparr>) else m2)
      in if n_type n = kSymlink then m3\<lparr>linkNodes := linkNodes m3 - 1\<rparr> else m3)"

definition freeQuota :: "goal_defs \<Rightarrow> inode \<Rightarrow> FSNode \<Rightarrow> QuotaDatabase \<Rightarrow> QuotaDatabase" where
  "freeQuota goals i n db = quota_remove (kInode, i) (fsnodes_quota_update (n_uid n) (n_gid n)
     (if is_file n then [(kInodes, - 1), (kSize, - getSize goals n)] else [(kInodes, - 1)]) db)"

lemma freeCounters_fields [simp]:
  "nodeTable (freeCounters n m) = nodeTable m" "detached (freeCounters n m) = detached m"
  "quotaDatabase (freeCounters n m) = quotaDatabase m" "shelved dn (freeCounters n m) = shelved dn m"
  by (simp_all add: freeCounters_def releaseChunks_def Let_def)

lemma removeNode_eq:
  assumes "nodeTable m i = Some n" "n_parents n = []" "acl_erase i (aclStorage m) = Some st"
  shows "removeNode goals i m = Some ((freeCounters n m)\<lparr>aclStorage := st,
    quotaDatabase := freeQuota goals i n (quotaDatabase m), nodeTable := (nodeTable m)(i := None)\<rparr>)"
  using assms by (simp add: removeNode_def freeCounters_def freeQuota_def quota_change_def releaseChunks_def Let_def)

lemma used_freeQuota:
  assumes "fst owner \<noteq> kInode"
  shows "used (freeQuota goals i n db) owner r = used db owner r - (if owned owner n then charge goals n r else 0)"
  by (cases r) (simp_all add: freeQuota_def used_quota_remove [OF assms] used_fsnodes_quota_update owned_iff [OF assms])

lemma count_inv_free:
  assumes "count_inv m" "finite (dom (nodeTable m))" "nodeTable m i = Some n"
  shows "count_inv ((freeCounters n m)\<lparr>nodeTable := (nodeTable m)(i := None)\<rparr>)"
  using assms by (cases "n_type n") (simp_all add: count_simps freeCounters_def releaseChunks_def tally_free Let_def)

lemma removeNode_law:
  assumes "removable goals i n m"
  shows "\<exists>m'. removeNode goals i m = Some m' \<and> meta_inv goals m' \<and> nodeTable m' = (nodeTable m)(i := None) \<and> detached m' = detached m"
proof -
  let ?ns = "nodeTable m"
  have r: "tree_inv ?ns" "stats_inv goals ?ns" "count_inv m" "quota_inv goals m" "acl_ok ?ns (aclStorage m)"
    "shelved ((detachedOf ?ns)(i := None)) m" "?ns i = Some n" "n_parents n = []" "n_entries n = []" "i \<noteq> SPECIAL_INODE_ROOT"
    using assms by (simp_all add: removable_def fs_inv_def)
  have fin: "finite (dom ?ns)" by (rule finite_dom [OF r(1)])
  obtain st where st: "acl_erase i (aclStorage m) = Some st" "acl_inv st" "acl_of st = (acl_of (aclStorage m))(i := None)"
    using acl_erase_law r(5) unfolding acl_ok_def by blast
  define m' where "m' = (freeCounters n m)\<lparr>aclStorage := st, quotaDatabase := freeQuota goals i n (quotaDatabase m),
    nodeTable := ?ns(i := None)\<rparr>"
  have "pars ?ns i = []" "kids ?ns i = []" using r(7-9) by (simp_all add: pars_Some kids_Some)
  note f = free_node_law [OF r(1) this r(10)]
  have "fs_inv goals (?ns(i := None))" using f r(2) by (simp add: fs_inv_def)
  moreover have "quota_inv goals m'"
    by (rule quota_inv_step [OF r(4)]) (simp add: m'_def used_freeQuota tally_free [OF fin r(7)])
  moreover have "count_inv m'"
    using count_inv_free [OF r(3) fin r(7)] by (simp add: m'_def count_inv_def)
  moreover have "acl_ok (?ns(i := None)) st" using r(5) st(2,3) by (auto simp: acl_ok_def)
  moreover have "homed (?ns(i := None))" using assms by (auto simp: removable_def homed_def f)
  moreover have "shelved ((detachedOf ?ns)(i := None)) m'" using r(6) by (simp add: m'_def)
  ultimately have "meta_inv goals m'" by (simp add: meta_inv_def m'_def)
  moreover have "removeNode goals i m = Some m'" unfolding m'_def by (rule removeNode_eq [OF r(7,8) st(1)])
  ultimately show ?thesis by (auto simp: m'_def)
qed

section \<open>Files that change their kind\<close>

lemma realSize_cong:
  assumes "n_length n' = n_length n" "n_chunks n' = n_chunks n"
  shows "realSize_loop n' c s gs acc = realSize_loop n c s gs acc"
proof -
  have l: "lastChunkBlocks n' = lastChunkBlocks n" "isLastFileChunkNonEmpty n' = isLastFileChunkNonEmpty n"
    using assms by (simp_all add: lastChunkBlocks_def isLastFileChunkNonEmpty_def)
  show ?thesis
  proof (induction gs arbitrary: acc)
    case (Cons g gs)
    then show ?case by (cases g) (simp_all add: l Let_def)
  qed simp
qed

lemma getStats_file:
  assumes "is_file n" "is_file n'" "n_length n' = n_length n" "n_chunks n' = n_chunks n" "n_goal n' = n_goal n"
  shows "getStats goals n' = getStats goals n"
proof -
  have "isLastFileChunkNonEmpty n' = isLastFileChunkNonEmpty n" "lastChunkBlocks n' = lastChunkBlocks n"
    "getLiveFileChunkCount n' = getLiveFileChunkCount n"
    using assms by (simp_all add: isLastFileChunkNonEmpty_def lastChunkBlocks_def getLiveFileChunkCount_def)
  moreover have "\<not> is_dir n" "\<not> is_dir n'" using assms by (auto simp: is_file_def)
  ultimately show ?thesis
    using assms realSize_cong [of n' n] by (simp add: getStats_def fileSize_def fileRealSize_def Let_def)
qed

lemma acl_ok_replace:
  assumes "ns i = Some n" "n_mode n' = n_mode n"
  shows "acl_ok (ns(i \<mapsto> n')) st = acl_ok ns st"
proof -
  have "(\<exists>x. (ns(i \<mapsto> n')) j = Some x \<and> n_mode x AND y = z) = (\<exists>x. ns j = Some x \<and> n_mode x AND y = z)" for j y z
    using assms by (cases "j = i") auto
  then show ?thesis by (simp add: acl_ok_def)
qed

lemma retype_law:
  assumes c: "ns i = Some n" "is_file n" and n': "n' = n\<lparr>n_type := ty, n_ctime := t\<rparr>" "is_file n'"
  shows "fs_inv goals (ns(i \<mapsto> n')) = fs_inv goals ns"
    "acl_ok (ns(i \<mapsto> n')) st = acl_ok ns st"
    "pars (ns(i \<mapsto> n')) = pars ns" "kids (ns(i \<mapsto> n')) = kids ns" "isdir (ns(i \<mapsto> n')) = isdir ns"
proof -
  have nd: "\<not> is_dir n" "\<not> is_dir n'" using c(2) n'(2) by (auto simp: is_file_def)
  then have s: "same_fs goals ns (ns(i \<mapsto> n'))" for goals
    using getStats_file [OF c(2) n'(2), of goals] n'(1) c(1) by (intro same_fs_replace [of ns i n n']) simp_all
  then show "fs_inv goals (ns(i \<mapsto> n')) = fs_inv goals ns" by (rule fs_inv_same)
  show "pars (ns(i \<mapsto> n')) = pars ns" "kids (ns(i \<mapsto> n')) = kids ns" "isdir (ns(i \<mapsto> n')) = isdir ns"
    using s by (simp_all add: same_fs_def same_tree_def)
  show "acl_ok (ns(i \<mapsto> n')) st = acl_ok ns st" using c(1) n'(1) by (simp add: acl_ok_replace)
qed

lemma retype_sums:
  assumes c: "nodeTable m i = Some n" "is_file n" and n': "n' = n\<lparr>n_type := ty, n_ctime := t\<rparr>" "is_file n'"
    and fin: "finite (dom (nodeTable m))"
  shows "count_inv (m\<lparr>nodeTable := (nodeTable m)(i \<mapsto> n')\<rparr>) = count_inv m"
    "quota_inv goals (m\<lparr>nodeTable := (nodeTable m)(i \<mapsto> n')\<rparr>) = quota_inv goals m"
proof -
  have "tally f ((nodeTable m)(i \<mapsto> n')) = tally f (nodeTable m)" if "f n' = f n" for f :: "FSNode \<Rightarrow> 32 word"
    using that by (simp add: tally_replace [OF fin c(1)])
  then show "count_inv (m\<lparr>nodeTable := (nodeTable m)(i \<mapsto> n')\<rparr>) = count_inv m"
    using c(2) n' by (auto simp: count_inv_def one_if_def) (auto simp: is_file_def)
  have "charge goals n' r = charge goals n r" for r
    using getStats_file [OF c(2) n'(2), of goals] c(2) n' by (cases r) (simp_all add: getSize_def)
  moreover have "owned owner n' = owned owner n" for owner using n'(1) by (cases "(owner, n)" rule: owned.cases) simp_all
  ultimately show "quota_inv goals (m\<lparr>nodeTable := (nodeTable m)(i \<mapsto> n')\<rparr>) = quota_inv goals m"
    by (simp add: quota_inv_def tally_replace [OF fin c(1)])
qed

lemma set_node_eq: "nodeTable m i = Some n \<Longrightarrow> set_node i f m = m\<lparr>nodeTable := (nodeTable m)(i \<mapsto> f n)\<rparr>"
  by (simp add: set_node_def upd_def)

section \<open>Purging\<close>

lemma detached_facts:
  assumes "meta_inv goals m" "nodeTable m i = Some n" "n_type n = kTrash \<or> n_type n = kReserved"
  shows "n_parents n = []" "n_entries n = []" "i \<noteq> SPECIAL_INODE_ROOT" "detachedOf (nodeTable m) i = Some n" "is_file n"
    "finite (dom (nodeTable m))" "finite (dom (detachedOf (nodeTable m)))"
proof -
  have t: "tree_inv (nodeTable m)" "homed (nodeTable m)" using assms(1) by (simp_all add: meta_inv_def fs_inv_def)
  show d: "detachedOf (nodeTable m) i = Some n" using assms by (simp add: detachedOf_def)
  with t(2) assms(2) have "pars (nodeTable m) i = []" "i \<noteq> SPECIAL_INODE_ROOT" by (auto simp: homed_def dom_def)
  then show "n_parents n = []" "i \<noteq> SPECIAL_INODE_ROOT" using assms(2) by (simp_all add: pars_Some)
  have "\<not> isdir (nodeTable m) i" using assms(2,3) by (auto simp: isdir_def)
  then have "kids (nodeTable m) i = []" using t(1) by (auto simp: tree_inv_def)
  then show "n_entries n = []" using assms(2) by (simp add: kids_Some)
  show "is_file n" using assms(3) by (auto simp: is_file_def)
  show f: "finite (dom (nodeTable m))" by (rule finite_dom [OF t(1)])
  show "finite (dom (detachedOf (nodeTable m)))"
    by (rule finite_subset [OF _ f]) (auto simp: detachedOf_def dom_def split: option.splits)
qed

lemma removable_detached:
  assumes inv: "meta_inv goals m" and n: "nodeTable m i = Some n" "n_type n = kTrash \<or> n_type n = kReserved"
    and m': "nodeTable m' = nodeTable m" "count_inv m' = count_inv m" "quotaDatabase m' = quotaDatabase m" "aclStorage m' = aclStorage m"
    and s: "shelved ((detachedOf (nodeTable m))(i := None)) m'"
  shows "removable goals i (n\<lparr>n_ctime := ts\<rparr>) (set_node i (\<lambda>n. n\<lparr>n_ctime := ts\<rparr>) m')"
proof -
  let ?n = "n\<lparr>n_ctime := ts\<rparr>" and ?ns = "nodeTable m"
  note f = detached_facts [OF inv n]
  have n': "?n = n\<lparr>n_type := n_type n, n_ctime := ts\<rparr>" "is_file ?n" using f(5) by (simp_all add: is_file_def)
  note r = retype_law [of ?ns i n ?n ts "n_type n", OF n(1) f(5) n']
  have "quota_inv goals (m'\<lparr>nodeTable := ?ns(i \<mapsto> ?n)\<rparr>)" "count_inv (m'\<lparr>nodeTable := ?ns(i \<mapsto> ?n)\<rparr>)"
    using retype_sums [of m' i n ?n ts "n_type n", OF _ f(5) n'] inv m' n f(6) by (simp_all add: meta_inv_def) (simp add: quota_inv_def)
  moreover have "set_node i (\<lambda>n. n\<lparr>n_ctime := ts\<rparr>) m' = m'\<lparr>nodeTable := ?ns(i \<mapsto> ?n)\<rparr>" using n(1) m'(1) by (simp add: set_node_eq)
  moreover have "\<forall>j \<in> dom ?ns - {i}. (pars ?ns j = [] \<and> j \<noteq> SPECIAL_INODE_ROOT) = (detachedOf (?ns(i \<mapsto> ?n)) j \<noteq> None)"
    using inv unfolding meta_inv_def homed_def by simp
  ultimately show ?thesis using inv m' s f by (simp add: removable_def meta_inv_def r insert_absorb)
qed

lemma purge_frees:
  assumes inv: "meta_inv goals m" and n: "nodeTable m i = Some n" "n_type n = kTrash \<and> n_sessionIds n = [] \<or> n_type n = kReserved"
  shows "\<exists>m'. purge goals ts i m = Some (1, m') \<and> meta_inv goals m' \<and> nodeTable m' = (nodeTable m)(i := None)"
proof -
  have k: "n_type n = kTrash \<or> n_type n = kReserved" using n(2) by blast
  note f = detached_facts [OF inv n(1) k]
  have s: "shelved (detachedOf (nodeTable m)) m" using inv by (simp add: meta_inv_def)
  define m2 where "m2 = (if n_type n = kTrash
    then m\<lparr>trashSpace := trashSpace m - n_length n, trashNodes := trashNodes m - 1, detached := removeTrashEntry i n (detached m)\<rparr>
    else m\<lparr>reservedSpace := reservedSpace m - n_length n, reservedNodes := reservedNodes m - 1, detached := removeReservedEntry i (detached m)\<rparr>)"
  have m2: "nodeTable m2 = nodeTable m" "count_inv m2 = count_inv m" "quotaDatabase m2 = quotaDatabase m" "aclStorage m2 = aclStorage m"
    by (simp_all add: m2_def count_inv_def)
  have "shelved ((detachedOf (nodeTable m))(i := None)) m2"
    using unshelve_trash [OF s f(7,4)] unshelve_reserved [OF s f(7,4)] k by (auto simp: m2_def shelved_def)
  note removable_detached [OF inv n(1) k m2 this, of ts]
  from removeNode_law [OF this] obtain m' where m': "removeNode goals i (set_node i (\<lambda>n. n\<lparr>n_ctime := ts\<rparr>) m2) = Some m'"
      "meta_inv goals m'" "nodeTable m' = (nodeTable m)(i := None)"
    using n(1) m2(1) by (auto simp: set_node_eq)
  then show ?thesis using n by (auto simp: purge_def m2_def)
qed

lemma purge_law:
  assumes inv: "meta_inv goals m" and n: "nodeTable m i = Some n"
  shows "\<exists>r m'. purge goals ts i m = Some (r, m') \<and> meta_inv goals m' \<and>
    (if n_type n = kTrash \<and> n_sessionIds n \<noteq> [] then r = 0 \<and> nodeTable m' = (nodeTable m)(i \<mapsto> n\<lparr>n_type := kReserved\<rparr>)
     else if n_type n = kTrash \<or> n_type n = kReserved then r = 1 \<and> nodeTable m' = (nodeTable m)(i := None)
     else r = - 1 \<and> m' = m)"
proof (cases "n_type n = kTrash \<and> n_sessionIds n \<noteq> []")
  case True
  let ?n = "n\<lparr>n_type := kReserved\<rparr>" and ?ns = "nodeTable m"
  note f = detached_facts [OF inv n, simplified True, simplified]
  have n': "?n = n\<lparr>n_type := kReserved, n_ctime := n_ctime n\<rparr>" "is_file ?n" by (simp_all add: is_file_def)
  note r = retype_law [of ?ns i n ?n "n_ctime n" kReserved, OF n f(5) n']
    and q = retype_sums [of m i n ?n "n_ctime n" kReserved, OF n f(5) n' f(6)]
  define m' where "m' = m\<lparr>trashSpace := trashSpace m - n_length n, trashNodes := trashNodes m - 1, nodeTable := ?ns(i \<mapsto> ?n),
    reservedSpace := reservedSpace m + n_length n, reservedNodes := reservedNodes m + 1,
    detached := moveTrashToReservedEntry i ?n (detached m)\<rparr>"
  have "shelved ((detachedOf ?ns)(i \<mapsto> ?n)) m'"
    using reshelve [of "detachedOf ?ns" m i n ?n] inv f True by (simp add: meta_inv_def m'_def shelved_def)
  moreover have "homed (?ns(i \<mapsto> ?n))" using inv n f by (auto simp: meta_inv_def homed_def r)
  ultimately have "meta_inv goals m'"
    using inv q by (simp add: meta_inv_def m'_def r) (simp add: count_inv_def quota_inv_def)
  moreover have "purge goals ts i m = Some (0, m')" using n True by (simp add: purge_def set_node_eq m'_def Let_def)
  ultimately show ?thesis using True by (auto simp: m'_def)
next
  case False
  then show ?thesis using purge_frees [OF inv n, of ts] inv n by (cases "n_type n = kTrash \<or> n_type n = kReserved") (auto simp: purge_def)
qed

section \<open>Unlinking\<close>

text \<open>The table after the edge is gone.\<close>

lemma cut_law:
  assumes inv: "meta_inv goals m" and e: "lookup (nodeTable m) parent name = Some child"
  shows "\<exists>n ns1 n1. nodeTable m child = Some n \<and> removeEdge goals ts parent name child (nodeTable m) = Some ns1 \<and>
    ns1 child = Some n1 \<and> core n1 = core n \<and> n_parents n1 = remove1 (parent, name) (n_parents n) \<and> n_entries n1 = n_entries n \<and>
    (parent, name) \<in> set (n_parents n) \<and> fs_inv goals ns1 \<and> count_inv (m\<lparr>nodeTable := ns1\<rparr>) \<and> quota_inv goals (m\<lparr>nodeTable := ns1\<rparr>) \<and> acl_ok ns1 (aclStorage m) \<and>
    detachedOf ns1 = detachedOf (nodeTable m) \<and> detachedOf (nodeTable m) child = None \<and> dom ns1 = dom (nodeTable m) \<and>
    isdir ns1 = isdir (nodeTable m) \<and> isdir (nodeTable m) parent \<and> child \<noteq> SPECIAL_INODE_ROOT \<and>
    pars ns1 = (pars (nodeTable m))(child := n_parents n1) \<and>
    kids ns1 = (kids (nodeTable m))(parent := remove1 (name, child) (kids (nodeTable m) parent))"
proof -
  let ?ns = "nodeTable m"
  have i: "tree_inv ?ns" "stats_inv goals ?ns" "homed ?ns" "count_inv m" "quota_inv goals m" "acl_ok ?ns (aclStorage m)"
    using inv by (simp_all add: meta_inv_def fs_inv_def)
  have k: "(name, child) \<in> set (kids ?ns parent)" using e by (simp add: lookup_def map_of_SomeD)
  then have p: "(parent, name) \<in> set (pars ?ns child)" by (simp add: tree_inv_iff [OF i(1)])
  then have "pars ?ns child \<noteq> []" by auto
  then obtain n where n: "?ns child = Some n" "n_parents n \<noteq> []" by (cases "?ns child") (auto simp: pars_def)
  have dir: "isdir ?ns parent" by (rule tree_inv_edge(2) [OF i(1) p])
  have root: "child \<noteq> SPECIAL_INODE_ROOT" using p i(1) by (auto simp: tree_inv_def)
  have d: "detachedOf ?ns child = None" using i(3) n by (auto simp: homed_def dom_def pars_Some)
  then have t: "n_type n \<noteq> kTrash" using n by (auto simp: detachedOf_def)
  obtain ns1 where ns1: "removeEdge goals ts parent name child ?ns = Some ns1" "tree_inv ns1" "same_core ?ns ns1" "dom ns1 = dom ?ns"
      "isdir ns1 = isdir ?ns" "pars ns1 = (pars ?ns)(child := remove1 (parent, name) (pars ?ns child))"
      "kids ns1 = (kids ?ns)(parent := remove1 (name, child) (kids ?ns parent))"
      "\<forall>i. \<not> isdir ?ns i \<and> i \<noteq> child \<longrightarrow> ns1 i = ?ns i" "stats_inv goals ns1"
    using removeEdge_law [OF i(1) e n(1) t, of goals ts] i(2) by blast
  obtain n1 where n1: "ns1 child = Some n1" using ns1(4) n(1) by (metis domD domI)
  have co: "core n1 = core n" using ns1(3) n(1) n1 unfolding same_core_def by (metis option.inject option.simps(9))
  have "n_entries n1 = n_entries n"
  proof (cases "parent = child")
    case True
    then show ?thesis using tree_inv_edge(3) [OF i(1) p] by blast
  next
    case False
    then have "kids ns1 child = kids ?ns child" by (simp add: ns1(7))
    then show ?thesis using n(1) n1 by (simp add: kids_Some)
  qed
  moreover have "detachedOf ns1 child = None" using d n(1) n1 core_type [OF co] by (auto simp: detachedOf_def split: if_splits)
  then have "detachedOf ns1 = detachedOf ?ns" using detachedOf_frame [OF ns1(3,8)] d by (simp add: fun_upd_idem)
  moreover have "n_parents n1 = remove1 (parent, name) (n_parents n)" using ns1(6) n(1) n1 by (metis fun_upd_same pars_Some)
  moreover have "pars ns1 = (pars ?ns)(child := n_parents n1)" using ns1(6) n1 by (metis fun_upd_same fun_upd_upd pars_Some)
  moreover have "count_inv (m\<lparr>nodeTable := ns1\<rparr>)" "quota_inv goals (m\<lparr>nodeTable := ns1\<rparr>)" "acl_ok ns1 (aclStorage m)"
    using count_inv_core [OF ns1(3)] quota_inv_core [OF ns1(3)] acl_ok_core [OF ns1(3)] i by simp_all
  ultimately show ?thesis using n(1) ns1 n1 co d dir root p by (simp add: fs_inv_def pars_Some)
qed


text \<open>The last link of a file is gone and the file is put on the shelf.\<close>

definition toTrash :: "32 word \<Rightarrow> inode \<Rightarrow> nodes \<Rightarrow> FSNode \<Rightarrow> Handle \<Rightarrow> Metadata \<Rightarrow> Metadata" where
  "toTrash ts child ns1 n1 h m =
     (let n2 = n1\<lparr>n_type := kTrash, n_ctime := ts\<rparr>
      in m\<lparr>nodeTable := ns1(child \<mapsto> n2), detached := addTrashEntry child n2 h (detached m),
           trashSpace := trashSpace m + n_length n2, trashNodes := trashNodes m + 1\<rparr>)"

definition toReserved :: "inode \<Rightarrow> nodes \<Rightarrow> FSNode \<Rightarrow> Handle \<Rightarrow> Metadata \<Rightarrow> Metadata" where
  "toReserved child ns1 n1 h m =
     (let n2 = n1\<lparr>n_type := kReserved\<rparr>
      in m\<lparr>nodeTable := ns1(child \<mapsto> n2), detached := addReservedEntry child h (detached m),
           reservedSpace := reservedSpace m + n_length n2, reservedNodes := reservedNodes m + 1\<rparr>)"

lemma unlink_eq:
  assumes "nodeTable m child = Some n" "removeEdge goals ts parent name child (nodeTable m) = Some ns1" "ns1 child = Some n1"
    "core n1 = core n" "n_parents n1 = []" "getPath parent child (nodeTable m) = Some path"
  shows "\<exists>p. (length (n_parents n) = 1 \<longrightarrow> p = path) \<and> unlink goals ts parent name child handle m =
      (if n_type n = kFile \<and> n_trashtime n > 0 then Some (toTrash ts child ns1 n1 \<lparr>h_data = handle, h_path = p\<rparr> m)
       else if n_type n = kFile \<and> n_sessionIds n \<noteq> [] then Some (toReserved child ns1 n1 \<lparr>h_data = handle, h_path = p\<rparr> m)
       else removeNode goals child (m\<lparr>nodeTable := ns1\<rparr>))"
proof -
  have f: "n_type n1 = n_type n" "n_trashtime n1 = n_trashtime n" "n_sessionIds n1 = n_sessionIds n"
    using arg_cong [OF assms(4), of n_type] arg_cong [OF assms(4), of n_trashtime] arg_cong [OF assms(4), of n_sessionIds] by simp_all
  define p where "p = (if length (n_parents n) = 1 then path else [])"
  show ?thesis
    by (rule exI [of _ p], cases "length (n_parents n) = 1 \<and> n_type n = kFile \<and> (n_trashtime n > 0 \<or> n_sessionIds n \<noteq> [])")
      (use assms(1-3,5,6) f in \<open>auto simp: unlink_def set_node_eq p_def toTrash_def toReserved_def Let_def\<close>)
qed

lemma detach_law:
  assumes inv: "meta_inv goals m" and ns1: "ns1 child = Some n1" "n_type n1 = kFile" "fs_inv goals ns1" "count_inv (m\<lparr>nodeTable := ns1\<rparr>)"
      "quota_inv goals (m\<lparr>nodeTable := ns1\<rparr>)" "acl_ok ns1 (aclStorage m)" "detachedOf ns1 = detachedOf (nodeTable m)"
      "dom ns1 = dom (nodeTable m)" "pars ns1 = (pars (nodeTable m))(child := [])" "child \<noteq> SPECIAL_INODE_ROOT"
    and n2: "n2 = n1\<lparr>n_type := ty, n_ctime := t\<rparr>" "ty = kTrash \<or> ty = kReserved"
    and m': "nodeTable m' = ns1(child \<mapsto> n2)" "count_inv m' = count_inv (m\<lparr>nodeTable := ns1(child \<mapsto> n2)\<rparr>)"
      "quotaDatabase m' = quotaDatabase m" "aclStorage m' = aclStorage m"
    and s: "shelved ((detachedOf (nodeTable m))(child \<mapsto> n2)) m'"
  shows "meta_inv goals m'"
proof -
  have fl: "is_file n1" "is_file n2" using ns1(2) n2 by (auto simp: is_file_def)
  have fin: "finite (dom ns1)" using ns1(3) finite_dom by (simp add: fs_inv_def)
  note r = retype_law [of ns1 child n1 n2 t ty, OF ns1(1) fl(1) n2(1) fl(2)]
    and q = retype_sums [of "m\<lparr>nodeTable := ns1\<rparr>" child n1 n2 t ty, OF _ fl(1) n2(1) fl(2)]
  have "quota_inv goals m'" using q(2) [of goals] ns1(1,5) fin m'(1,3) by (simp add: quota_inv_def)
  moreover have "count_inv m'" using q(1) ns1(1,4) fin m'(2) by simp
  moreover have "detachedOf (nodeTable m') = (detachedOf (nodeTable m))(child \<mapsto> n2)" using n2 ns1(7) by (auto simp: m'(1))
  moreover have "homed (nodeTable m')"
    using inv ns1(7-10) n2 unfolding m'(1) homed_def r by (auto simp: meta_inv_def homed_def)
  ultimately show ?thesis using ns1(3,6) s m'(1,4) by (simp add: meta_inv_def r)
qed

lemma unlink_last:
  assumes inv: "meta_inv goals m" and e: "lookup (nodeTable m) parent name = Some child"
    and n: "nodeTable m child = Some n" "remove1 (parent, name) (n_parents n) = []" "n_entries n = []"
    and h: "nameToId (detached m) handle = None" "counter (detached m) < kMaxIdForTrashOrReservedName"
  shows "\<exists>m'. unlink goals ts parent name child handle m = Some m' \<and> meta_inv goals m'"
proof -
  let ?ns = "nodeTable m"
  obtain ns1 n1 where c: "removeEdge goals ts parent name child ?ns = Some ns1" "ns1 child = Some n1" "core n1 = core n"
      "n_parents n1 = []" "n_entries n1 = []" "fs_inv goals ns1" "count_inv (m\<lparr>nodeTable := ns1\<rparr>)" "quota_inv goals (m\<lparr>nodeTable := ns1\<rparr>)"
      "acl_ok ns1 (aclStorage m)" "detachedOf ns1 = detachedOf ?ns" "detachedOf ?ns child = None" "dom ns1 = dom ?ns"
      "isdir ?ns parent" "child \<noteq> SPECIAL_INODE_ROOT" "pars ns1 = (pars ?ns)(child := [])"
    using cut_law [OF inv e, of ts] n by auto
  have i: "shelved (detachedOf ?ns) m" "homed ?ns" "tree_inv ?ns" using inv by (simp_all add: meta_inv_def fs_inv_def)
  have fin: "finite (dom (detachedOf ?ns))"
    by (rule finite_subset [OF _ finite_dom [OF i(3)]]) (auto simp: detachedOf_def dom_def split: option.splits)
  obtain path where "getPath parent child ?ns = Some path" using getPath_ends [OF i(3) c(13)] by blast
  from unlink_eq [OF n(1) c(1-4) this] obtain p where u: "unlink goals ts parent name child handle m =
      (if n_type n = kFile \<and> n_trashtime n > 0 then Some (toTrash ts child ns1 n1 \<lparr>h_data = handle, h_path = p\<rparr> m)
       else if n_type n = kFile \<and> n_sessionIds n \<noteq> [] then Some (toReserved child ns1 n1 \<lparr>h_data = handle, h_path = p\<rparr> m)
       else removeNode goals child (m\<lparr>nodeTable := ns1\<rparr>))" by blast
  let ?h = "\<lparr>h_data = handle, h_path = p\<rparr>" and ?n2 = "n1\<lparr>n_type := kTrash, n_ctime := ts\<rparr>" and ?n3 = "n1\<lparr>n_type := kReserved\<rparr>"
  have can: "can_detach ?h (detached m)" using h by (simp add: can_detach_def)
  have t: "n_type n1 = n_type n" by (rule core_type [OF c(3)])
  note law = detach_law [OF inv c(2) _ c(6-10,12,15,14)]
  have "meta_inv goals (toTrash ts child ns1 n1 ?h m)" if "n_type n = kFile"
    using law [of ?n2 ts kTrash "toTrash ts child ns1 n1 ?h m"] shelve_trash [OF i(1) fin c(11) _ can, of ?n2] that t
    by (simp add: toTrash_def Let_def count_inv_def shelved_def)
  moreover have "meta_inv goals (toReserved child ns1 n1 ?h m)" if "n_type n = kFile"
    using law [of ?n3 "n_ctime n1" kReserved "toReserved child ns1 n1 ?h m"] shelve_reserved [OF i(1) fin c(11) _ can, of ?n3] that t
    by (simp add: toReserved_def Let_def count_inv_def shelved_def)
  moreover have "removable goals child n1 (m\<lparr>nodeTable := ns1\<rparr>)"
    using i(1,2) c by (auto simp: removable_def homed_def fun_upd_idem)
  ultimately show ?thesis using u removeNode_law by fastforce
qed

lemma unlink_law:
  assumes inv: "meta_inv goals m" and e: "lookup (nodeTable m) parent name = Some child" "kids (nodeTable m) child = []"
    and h: "nameToId (detached m) handle = None" "counter (detached m) < kMaxIdForTrashOrReservedName"
  shows "\<exists>m'. unlink goals ts parent name child handle m = Some m' \<and> meta_inv goals m'"
proof -
  let ?ns = "nodeTable m"
  obtain n ns1 n1 where c: "?ns child = Some n" "removeEdge goals ts parent name child ?ns = Some ns1" "ns1 child = Some n1"
      "core n1 = core n" "n_parents n1 = remove1 (parent, name) (n_parents n)"
      "fs_inv goals ns1" "count_inv (m\<lparr>nodeTable := ns1\<rparr>)" "quota_inv goals (m\<lparr>nodeTable := ns1\<rparr>)"
      "acl_ok ns1 (aclStorage m)" "detachedOf ns1 = detachedOf ?ns" "detachedOf ?ns child = None" "dom ns1 = dom ?ns"
      "isdir ?ns parent" "pars ns1 = (pars ?ns)(child := n_parents n1)" "(parent, name) \<in> set (n_parents n)"
    using cut_law [OF inv e(1), of ts] by blast
  show ?thesis
  proof (cases "n_parents n1 = []")
    case True
    then show ?thesis using unlink_last [OF inv e(1) c(1) _ _ h, of ts] c(1,5) e(2) by (simp add: kids_Some)
  next
    case False
    have "length (n_parents n) \<noteq> 1" using False c(5,15) by (cases "n_parents n") (auto split: if_splits)
    then have "unlink goals ts parent name child handle m = Some (m\<lparr>nodeTable := ns1\<rparr>)"
      using c(1-3) False by (simp add: unlink_def)
    moreover have "homed ns1" using inv c(11) False unfolding homed_def c(10,12,14) by (auto simp: meta_inv_def homed_def)
    ultimately show ?thesis using inv c by (simp add: meta_inv_def)
  qed
qed

section \<open>Restoring\<close>

lemma no_edge_below_file:
  assumes "tree_inv ns" "\<not> isdir ns c" "isdir ns p"
  shows "(c, p) \<notin> (edges ns)\<^sup>*"
proof
  assume "(c, p) \<in> (edges ns)\<^sup>*"
  moreover have "c \<noteq> p" using assms(2,3) by auto
  ultimately obtain x where "(c, x) \<in> edges ns" by (auto elim: converse_rtranclE)
  then obtain name where "(c, name) \<in> set (pars ns x)" by (auto simp: edges_def)
  then have "isdir ns c" by (rule tree_inv_edge(2) [OF assms(1)])
  then show False using assms(2) by simp
qed

definition fromTrash :: "32 word \<Rightarrow> inode \<Rightarrow> FSNode \<Rightarrow> nodes \<Rightarrow> Metadata \<Rightarrow> Metadata" where
  "fromTrash ts i n ns' m = m\<lparr>detached := removeTrashEntry i n (detached m), nodeTable := ns',
     trashSpace := trashSpace m - n_length n, trashNodes := trashNodes m - 1\<rparr>"

lemma restore_law:
  assumes inv: "meta_inv goals m" and n: "nodeTable m i = Some n" "n_type n = kTrash"
    and p: "isdir (nodeTable m) p" "lookup (nodeTable m) p name = None"
  shows "\<exists>ns'. fs_link goals ts p i name ((nodeTable m)(i \<mapsto> n\<lparr>n_type := kFile, n_ctime := ts\<rparr>)) = Some ns' \<and>
    meta_inv goals (fromTrash ts i n ns' m) \<and> same_core ((nodeTable m)(i \<mapsto> n\<lparr>n_type := kFile, n_ctime := ts\<rparr>)) ns' \<and>
    pars ns' = (pars (nodeTable m))(i := [(p, name)]) \<and>
    kids ns' = (kids (nodeTable m))(p := kids (nodeTable m) p @ [(name, i)]) \<and> isdir ns' = isdir (nodeTable m)"
proof -
  let ?n = "n\<lparr>n_type := kFile, n_ctime := ts\<rparr>" and ?ns = "nodeTable m"
  let ?ns1 = "?ns(i \<mapsto> ?n)"
  note f = detached_facts [OF inv n(1), simplified n(2), simplified]
  have fl: "is_file ?n" by (simp add: is_file_def)
  note r = retype_law [of ?ns i n ?n ts kFile, OF n(1) f(5) refl fl]
    and q = retype_sums [of m i n ?n ts kFile, OF n(1) f(5) refl fl f(6)]
  have i: "tree_inv ?ns" "fs_inv goals ?ns" "homed ?ns" "shelved (detachedOf ?ns) m" using inv by (simp_all add: meta_inv_def fs_inv_def)
  have t: "tree_inv ?ns1" "stats_inv goals ?ns1" using i(2) r(1) [of goals] by (simp_all add: fs_inv_def)
  have nd: "\<not> isdir ?ns i" using n by (simp add: isdir_Some)
  have "can_link ?ns1 p i name"
    using p f(3) nd no_edge_below_file [OF t(1), of i p] by (simp add: can_link_def lookup_def r)
  from fs_link_law [OF t(1) this, of goals ts] t(2) obtain ns' where ns': "fs_link goals ts p i name ?ns1 = Some ns'" "tree_inv ns'"
      "same_core ?ns1 ns'" "dom ns' = dom ?ns1" "isdir ns' = isdir ?ns1" "pars ns' = (pars ?ns1)(i := pars ?ns1 i @ [(p, name)])"
      "kids ns' = (kids ?ns1)(p := kids ?ns1 p @ [(name, i)])" "\<forall>j. \<not> isdir ?ns1 j \<and> j \<noteq> i \<longrightarrow> ns' j = ?ns1 j" "stats_inv goals ns'"
    by blast
  have pi: "pars ?ns i = []" using n f(1) by (simp add: pars_Some)
  have "detachedOf ns' i = None" using same_core_type [OF ns'(3), of i] by (cases "ns' i") (auto simp: detachedOf_def)
  then have d: "detachedOf ns' = (detachedOf ?ns)(i := None)" using detachedOf_frame [OF ns'(3,8)] by simp
  have "homed ns'" using i(3) n(1) unfolding homed_def d ns'(4,6) by (auto simp: r pi)
  moreover have "shelved ((detachedOf ?ns)(i := None)) (fromTrash ts i n ns' m)"
    using unshelve_trash [OF i(4) f(7,4) n(2)] by (simp add: fromTrash_def shelved_def)
  moreover have "count_inv (m\<lparr>nodeTable := ns'\<rparr>)" "quota_inv goals (m\<lparr>nodeTable := ns'\<rparr>)" "acl_ok ns' (aclStorage m)"
    using q count_inv_core [of "m\<lparr>nodeTable := ?ns1\<rparr>" ns'] quota_inv_core [of "m\<lparr>nodeTable := ?ns1\<rparr>" ns' goals]
      acl_ok_core [OF ns'(3)] r(2) ns'(3) inv by (simp_all add: meta_inv_def)
  then have "count_inv (fromTrash ts i n ns' m)" "quota_inv goals (fromTrash ts i n ns' m)"
    by (simp_all add: fromTrash_def count_inv_def quota_inv_def)
  ultimately have "meta_inv goals (fromTrash ts i n ns' m)"
    using ns'(2,9) d \<open>acl_ok ns' (aclStorage m)\<close> by (simp add: meta_inv_def fs_inv_def) (simp add: fromTrash_def)
  then show ?thesis using ns' pi by (auto simp: r)
qed

definition slashes :: "string \<Rightarrow> nat" where "slashes path = length (filter (\<lambda>c. c = CHR ''/'') path)"

lemma slashes_rest:
  assumes "length (takeWhile (\<lambda>c. c \<noteq> CHR ''/'') path) \<noteq> length path"
  shows "slashes path = Suc (slashes (drop (length (takeWhile (\<lambda>c. c \<noteq> CHR ''/'') path) + 1) path))"
  using assms by (induction path) (auto simp: slashes_def)

lemma createNode_dir_law:
  assumes inv: "meta_inv goals m" and p: "isdir (nodeTable m) parent" "lookup (nodeTable m) parent name = None" and ino: "nodeTable m ino = None"
  shows "\<exists>m'. createNode goals ts parent name kDirectory mode umask uid gid copysgid inheritAcl ino m = Some m' \<and> meta_inv goals m' \<and>
    dom (nodeTable m') = insert ino (dom (nodeTable m)) \<and> isdir (nodeTable m') ino \<and> kids (nodeTable m') ino = [] \<and>
    (\<forall>i. i \<in> dom (nodeTable m) \<and> \<not> isdir (nodeTable m) i \<longrightarrow> nodeTable m' i = nodeTable m i)"
proof -
  have "parent \<noteq> ino" "kids (nodeTable m) ino = []" using p(1) ino by (auto simp: isdir_def kids_def)
  moreover obtain m' where "createNode goals ts parent name kDirectory mode umask uid gid copysgid inheritAcl ino m = Some m'"
      "meta_inv goals m'" "dom (nodeTable m') = insert ino (dom (nodeTable m))" "isdir (nodeTable m') = (isdir (nodeTable m))(ino := True)"
      "kids (nodeTable m') = (kids (nodeTable m))(parent := kids (nodeTable m) parent @ [(name, ino)])"
      "\<forall>i. \<not> isdir (nodeTable m) i \<and> i \<noteq> ino \<longrightarrow> nodeTable m' i = nodeTable m i"
    using createNode_law [OF inv p ino, of kDirectory ts mode umask uid gid copysgid inheritAcl] by auto
  moreover have "i \<noteq> ino" if "i \<in> dom (nodeTable m)" for i using that ino by auto
  ultimately show ?thesis by auto
qed

lemma undel_loop_law:
  assumes "meta_inv goals m" "nodeTable m i = Some n" "n_type n = kTrash" "isdir (nodeTable m) p"
    "isNew \<longrightarrow> kids (nodeTable m) p = []" "distinct ids" "set ids \<inter> dom (nodeTable m) = {}" "slashes path \<le> length ids"
  shows "\<exists>st created m'. undel_loop goals ts i path p isNew ids m = Some (st, created, m') \<and> meta_inv goals m' \<and>
    (st = SAUNAFS_STATUS_OK \<or> st = SAUNAFS_ERROR_EEXIST \<or> st = SAUNAFS_ERROR_CANTCREATEPATH) \<and>
    (st \<noteq> SAUNAFS_STATUS_OK \<longrightarrow> \<not> isNew \<and> created = [] \<and> m' = m)"
  using assms
proof (induction "length path" arbitrary: path p isNew ids m rule: less_induct)
  case less
  let ?name = "takeWhile (\<lambda>c. c \<noteq> CHR ''/'') path" and ?ns = "nodeTable m"
  let ?rest = "drop (length ?name + 1) path"
  note inv = less.prems(1) and n = less.prems(2,3) and p = less.prems(4)
  note step = undel_loop.simps [of goals ts i path p isNew ids m]
  show ?case
  proof (cases "length ?name = length path")
    case True
    show ?thesis
    proof (cases "lookup ?ns p ?name")
      case None
      from restore_law [OF inv n p None, of ts] obtain ns' where
        "fs_link goals ts p i ?name (?ns(i \<mapsto> n\<lparr>n_type := kFile, n_ctime := ts\<rparr>)) = Some ns'" "meta_inv goals (fromTrash ts i n ns' m)" by blast
      then show ?thesis using True None n by (simp add: step Let_def set_node_def upd_def fromTrash_def)
    next
      case (Some c)
      then show ?thesis using True inv less.prems(5) by (auto simp: step Let_def lookup_def)
    qed
  next
    case False
    then have shorter: "length ?rest < length path" using takeWhile_shorter [of "\<lambda>c. c \<noteq> CHR ''/''" path] by simp
    have sl: "slashes path = Suc (slashes ?rest)" by (rule slashes_rest [OF False])
    show ?thesis
    proof (cases "if isNew then None else lookup ?ns p ?name")
      case (Some c)
      then have "undel_loop goals ts i path p isNew ids m =
          (if isdir ?ns c then undel_loop goals ts i ?rest c False ids m else Some (SAUNAFS_ERROR_CANTCREATEPATH, [], m))" "\<not> isNew"
        unfolding step using False by (simp_all add: Let_def split: if_splits)
      then show ?thesis using less.hyps [OF shorter, of m c False ids] less.prems sl by simp
    next
      case None
      obtain new ids' where ids: "ids = new # ids'" using less.prems(8) sl by (cases ids) auto
      have "lookup ?ns p ?name = None" using None less.prems(5) by (auto simp: lookup_def split: if_splits)
      moreover have "?ns new = None" using less.prems(7) ids by auto
      ultimately obtain m1 where m1: "createNode goals ts p ?name kDirectory kUndelDirectoryMode 0 0 0 False False new m = Some m1"
          "meta_inv goals m1" "dom (nodeTable m1) = insert new (dom ?ns)" "isdir (nodeTable m1) new" "kids (nodeTable m1) new = []"
          "nodeTable m1 i = Some n"
        using createNode_dir_law [OF inv p, of ?name new ts kUndelDirectoryMode 0 0 0 False False] n by (auto simp: isdir_Some)
      have "set ids' \<inter> dom (nodeTable m1) = {}" using less.prems(6,7) ids by (auto simp: m1(3))
      moreover obtain dir where "nodeTable m1 new = Some dir" using m1(4) by (cases "nodeTable m1 new") (auto simp: isdir_def)
      then have "undel_loop goals ts i path p isNew ids m =
          map_option (\<lambda>(st, created, m2). (st, (p, ?name, n_mode dir AND kPermissionsMask, new) # created, m2)) (undel_loop goals ts i ?rest new True ids' m1)"
        unfolding step using None False m1(1) ids by (simp add: Let_def)
      ultimately show ?thesis
        using m1(2,4-6) less.hyps [OF shorter, of m1 new True ids'] less.prems(6,8) n(2) sl ids by auto
    qed
  qed
qed

lemma slashes_drop: "slashes (dropWhile P path) \<le> slashes path"
  by (induction path) (auto simp: slashes_def)

lemma undel_law:
  assumes inv: "meta_inv goals m" and n: "nodeTable m i = Some n" "n_type n = kTrash"
    and ids: "distinct ids" "set ids \<inter> dom (nodeTable m) = {}"
      "\<And>h. trash (detached m) (trashPathKey i n) = Some h \<Longrightarrow> slashes (h_path h) \<le> length ids"
  shows "\<exists>st created m'. undel goals ts i ids m = Some (st, created, m') \<and> meta_inv goals m' \<and>
    (st = SAUNAFS_STATUS_OK \<or> st = SAUNAFS_ERROR_EEXIST \<or> st = SAUNAFS_ERROR_CANTCREATEPATH) \<and>
    (st \<noteq> SAUNAFS_STATUS_OK \<longrightarrow> created = [] \<and> m' = m)"
proof -
  have "placed (detachedOf (nodeTable m)) (detached m)" "detachedOf (nodeTable m) i = Some n" "isdir (nodeTable m) SPECIAL_INODE_ROOT"
    using inv n by (simp_all add: meta_inv_def shelved_def detachedOf_def fs_inv_def tree_inv_def)
  moreover obtain h where h: "trash (detached m) (trashPathKey i n) = Some h" using on_shelf(1) [OF calculation(1,2) n(2)] by blast
  let ?path = "dropWhile (\<lambda>c. c = CHR ''/'') (h_path h)"
  have "slashes ?path \<le> length ids" using slashes_drop order_trans ids(3) [OF h] by blast
  ultimately have "\<exists>st created m'. undel_loop goals ts i ?path SPECIAL_INODE_ROOT False ids m = Some (st, created, m') \<and> meta_inv goals m' \<and>
    (st = SAUNAFS_STATUS_OK \<or> st = SAUNAFS_ERROR_EEXIST \<or> st = SAUNAFS_ERROR_CANTCREATEPATH) \<and>
    (st \<noteq> SAUNAFS_STATUS_OK \<longrightarrow> \<not> False \<and> created = [] \<and> m' = m)"
    by (intro undel_loop_law [OF inv n _ _ ids(1,2)]) simp_all
  moreover have "validateTrashPath (h_path h) = SAUNAFS_STATUS_OK \<or> validateTrashPath (h_path h) = SAUNAFS_ERROR_CANTCREATEPATH"
    by (simp add: validateTrashPath_def Let_def)
  ultimately show ?thesis using inv n h by (auto simp: undel_def)
qed

end
