(* ===== verification/FsModify.thy ===== *)
theory FsModify
  imports FsDetach
begin

text \<open>
  A new file system (\<open>fs_new\<close> of \<open>src/src/master/metadata_backend_file.cc\<close>), and the changes of the length, the
  owner and the times of a node: \<open>setLength\<close>, \<open>changeUidGid\<close>, \<open>updateCTime\<close> keep the invariant of the metadata.
\<close>

section \<open>A new file system\<close>

definition emptyMetadata :: Metadata where
  "emptyMetadata = \<lparr>nodeTable = Map.empty, detached = emptyDetached, aclStorage = emptyAclStorage, quotaDatabase = Map.empty,
     nodeCount = 0, dirNodes = 0, fileNodes = 0, linkNodes = 0, trashNodes = 0, reservedNodes = 0,
     trashSpace = 0, reservedSpace = 0, chunkCalls = []\<rparr>"

definition rootDirectory :: "32 word \<Rightarrow> FSNode" where
  "rootDirectory now = (newNode kDirectory)\<lparr>n_atime := now, n_mtime := now, n_ctime := now, n_goal := DEFAULT_GOAL,
     n_trashtime := kDefaultTrashTime, n_mode := 0x1FF, n_uid := 0, n_gid := 0\<rparr>"

definition fs_new :: "32 word \<Rightarrow> Metadata" where
  "fs_new now =
     (let m = emptyMetadata\<lparr>nodeTable := [SPECIAL_INODE_ROOT \<mapsto> rootDirectory now], nodeCount := 1, dirNodes := 1, fileNodes := 0\<rparr>
      in quota_change 0 0 [(kInodes, 1)] m)"

lemma rootDirectory_fields [simp]:
  "n_type (rootDirectory now) = kDirectory" "n_parents (rootDirectory now) = []" "n_entries (rootDirectory now) = []"
  "n_stats (rootDirectory now) = 0" "n_nlink (rootDirectory now) = 2" "n_uid (rootDirectory now) = 0" "n_gid (rootDirectory now) = 0"
  by (simp_all add: rootDirectory_def newNode_def)

lemma tally_empty [simp]: "tally f Map.empty = 0"
  by (simp add: tally_def)

lemma used_empty [simp]: "used Map.empty owner r = 0"
  by (simp add: used_def quota_at_def zeroLimits_def)

lemma fs_new_inv: "meta_inv goals (fs_new now)"
proof -
  let ?ns = "[SPECIAL_INODE_ROOT \<mapsto> rootDirectory now]"
  have v: "pars ?ns = (\<lambda>_. [])" "kids ?ns = (\<lambda>_. [])" "isdir ?ns = (\<lambda>i. i = SPECIAL_INODE_ROOT)" "detachedOf ?ns = Map.empty"
    by (auto simp: fun_eq_iff pars_def kids_def isdir_def detachedOf_def)
  have t: "tally f ?ns = f (rootDirectory now)" for f :: "FSNode \<Rightarrow> 'a :: ab_group_add"
    using tally_new [of Map.empty SPECIAL_INODE_ROOT f "rootDirectory now"] by simp
  have "fs_inv goals ?ns"
    by (auto simp: fs_inv_def tree_inv_def stats_inv_def v edges_def acyclic_def childSum_def subdirs_def)
  moreover have "used (quotaDatabase (fs_new now)) owner r = (if owned owner (rootDirectory now) then charge goals (rootDirectory now) r else 0)"
    if "fst owner \<noteq> kInode" for owner r
    by (cases r) (auto simp: fs_new_def used_quota_change owned_iff [OF that] emptyMetadata_def is_file_def)
  then have "quota_inv goals (fs_new now)" by (simp add: quota_inv_def t fs_new_def)
  moreover have "count_inv (fs_new now)" by (simp add: fs_new_def quota_change_def t emptyMetadata_def count_simps)
  moreover have "shelved Map.empty (fs_new now)"
    using detached_inv_empty by (simp add: fs_new_def quota_change_def shelved_def emptyMetadata_def emptyDetached_def placed_def trash_keys_def reserved_ids_def)
  moreover have "homed ?ns" by (auto simp: homed_def v split: if_splits)
  moreover have "acl_ok ?ns emptyAclStorage" using acl_inv_empty by (simp add: acl_ok_def emptyAclStorage_def)
  moreover have "nodeTable (fs_new now) = ?ns" "aclStorage (fs_new now) = emptyAclStorage"
    by (simp_all add: fs_new_def) (simp add: emptyMetadata_def)
  ultimately show ?thesis unfolding meta_inv_def by (simp only: v simp_thms)
qed

section \<open>Replacing a node\<close>

lemma dom_core: "same_core ns ns' \<Longrightarrow> dom ns' = dom ns"
proof -
  assume "same_core ns ns'"
  then have "ns' i = None \<longleftrightarrow> ns i = None" for i unfolding same_core_def by (metis map_option_is_None)
  then show ?thesis by (auto simp: dom_def)
qed

text \<open>A node that keeps its place in the tree, its kind and its mode.\<close>

lemma meta_inv_replace:
  assumes inv: "meta_inv goals m" and n: "nodeTable m i = Some n"
    and n': "n_type n' = n_type n" "n_mode n' = n_mode n" "n_parents n' = n_parents n"
    and m': "same_core ((nodeTable m)(i \<mapsto> n')) (nodeTable m')" "detachedOf (nodeTable m') = detachedOf ((nodeTable m)(i \<mapsto> n'))"
      "pars (nodeTable m') = pars (nodeTable m)" "fs_inv goals (nodeTable m')" "aclStorage m' = aclStorage m"
      "nodeCount m' = nodeCount m" "dirNodes m' = dirNodes m" "fileNodes m' = fileNodes m" "linkNodes m' = linkNodes m"
    and q: "quota_inv goals (m'\<lparr>nodeTable := (nodeTable m)(i \<mapsto> n')\<rparr>)"
    and s: "shelved (detachedOf ((nodeTable m)(i \<mapsto> n'))) m'"
  shows "meta_inv goals m'"
proof -
  let ?ns = "nodeTable m" and ?ns1 = "(nodeTable m)(i \<mapsto> n')"
  have fin: "finite (dom ?ns)" using inv finite_dom by (simp add: meta_inv_def fs_inv_def)
  have "tally f ?ns1 = tally f ?ns" if "f n' = f n" for f :: "FSNode \<Rightarrow> 32 word" using that by (simp add: tally_replace [OF fin n])
  then have "count_inv (m\<lparr>nodeTable := ?ns1\<rparr>)" using inv n'(1) by (simp add: meta_inv_def count_simps)
  then have "count_inv (m\<lparr>nodeTable := nodeTable m'\<rparr>)" using count_inv_core [of "m\<lparr>nodeTable := ?ns1\<rparr>" "nodeTable m'"] m'(1) by simp
  then have c: "count_inv m'" using m' by (simp add: count_inv_def)
  have "quota_inv goals m'" using q quota_inv_core [of "m'\<lparr>nodeTable := ?ns1\<rparr>" "nodeTable m'" goals] m'(1) by simp
  moreover have "dom (nodeTable m') = dom ?ns"
    using dom_core [OF m'(1)] n by auto
  moreover have "detachedOf ?ns1 j = None \<longleftrightarrow> detachedOf ?ns j = None" for j using n n'(1) by (auto simp: detachedOf_def)
  then have "homed (nodeTable m')" using inv calculation(2) unfolding homed_def m'(2,3) by (simp add: meta_inv_def homed_def)
  moreover have "acl_ok (nodeTable m') (aclStorage m')"
    using inv acl_ok_core [OF m'(1)] acl_ok_replace [of ?ns i n n', OF n n'(2)] m'(5) by (simp add: meta_inv_def)
  ultimately show ?thesis using c m'(2,4) s by (simp add: meta_inv_def)
qed

section \<open>Length\<close>

lemma detachedOf_stats_only: "stats_only ns ns' \<Longrightarrow> detachedOf ns' = detachedOf ns"
proof
  fix i assume "stats_only ns ns'"
  then consider "ns' i = ns i" | d s where "ns i = Some d" "is_dir d" "ns' i = Some (d\<lparr>n_stats := s\<rparr>)" unfolding stats_only_def by blast
  then show "detachedOf ns' i = detachedOf ns i" by cases (simp_all add: detachedOf_def)
qed

lemma shelved_resize:
  assumes s: "shelved dn m" "finite (dom dn)" and n: "dn i = Some n"
    and n': "n_type n' = n_type n" and k: "n_type n = kTrash \<Longrightarrow> trashPathKey i n' = trashPathKey i n"
  shows "shelved (dn(i \<mapsto> n')) (updateDetachedSpaceUsage n (n_length n) (n_length n') m)"
proof -
  have "trashPathKey i n \<in> trash_keys dn" if "n_type n = kTrash" using n that by (auto simp: trash_keys_def)
  moreover have "i \<in> reserved_ids dn" if "n_type n = kReserved" using n that by (auto simp: reserved_ids_def)
  ultimately have "trash_keys (dn(i \<mapsto> n')) = trash_keys dn" "reserved_ids (dn(i \<mapsto> n')) = reserved_ids dn"
    using n n' k by (auto simp: trash_keys_put trash_keys_free reserved_ids_put reserved_ids_free)
  then show ?thesis
    using s n n' by (simp add: shelved_def placed_def updateDetachedSpaceUsage_def tally_replace one_if_def algebra_simps)
qed

lemma shelved_length:
  assumes "shelved (detachedOf ns) m" "finite (dom (detachedOf ns))" "ns i = Some n"
    "n_type n' = n_type n" "n_type n = kTrash \<Longrightarrow> trashPathKey i n' = trashPathKey i n"
  shows "shelved (detachedOf (ns(i \<mapsto> n'))) (updateDetachedSpaceUsage n (n_length n) (n_length n') m)"
proof (cases "n_type n = kTrash \<or> n_type n = kReserved")
  case True
  then have "detachedOf ns i = Some n" "detachedOf (ns(i \<mapsto> n')) = (detachedOf ns)(i \<mapsto> n')"
    using assms(3,4) by (simp_all add: detachedOf_at)
  then show ?thesis using shelved_resize [OF assms(1,2) _ assms(4,5)] by simp
next
  case False
  then have "detachedOf ns i = None" using assms(3) by (simp add: detachedOf_at)
  then show ?thesis using False assms(1,4) by (simp add: updateDetachedSpaceUsage_def fun_upd_idem)
qed

lemma finite_detachedOf: "finite (dom ns) \<Longrightarrow> finite (dom (detachedOf ns))"
  by (rule finite_subset [of _ "dom ns"]) (auto simp: detachedOf_def dom_def split: option.splits)

lemma space_fields [simp]:
  "nodeTable (updateDetachedSpaceUsage n a b m) = nodeTable m" "quotaDatabase (updateDetachedSpaceUsage n a b m) = quotaDatabase m"
  "aclStorage (updateDetachedSpaceUsage n a b m) = aclStorage m" "nodeCount (updateDetachedSpaceUsage n a b m) = nodeCount m"
  "dirNodes (updateDetachedSpaceUsage n a b m) = dirNodes m" "fileNodes (updateDetachedSpaceUsage n a b m) = fileNodes m"
  "linkNodes (updateDetachedSpaceUsage n a b m) = linkNodes m"
  by (simp_all add: updateDetachedSpaceUsage_def)

lemma quota_inv_replace:
  assumes "quota_inv goals m" "finite (dom (nodeTable m))" "nodeTable m i = Some n" "nodeTable m' = (nodeTable m)(i \<mapsto> n')"
    "\<And>owner r. fst owner \<noteq> kInode \<Longrightarrow> used (quotaDatabase m') owner r = used (quotaDatabase m) owner r
      - (if owned owner n then charge goals n r else 0) + (if owned owner n' then charge goals n' r else 0)"
  shows "quota_inv goals m'"
  by (rule quota_inv_step [OF assms(1)]) (simp add: assms tally_replace)

lemma setLength_law:
  assumes inv: "meta_inv goals m" and n: "nodeTable m i = Some n" "is_file n"
  shows "\<exists>m' n'. setLength goals i len erase m = Some m' \<and> meta_inv goals m' \<and> nodeTable m' i = Some n' \<and> is_file n' \<and> n_length n' = len"
proof -
  let ?ns = "nodeTable m"
  define keep where "keep = (if erase then unat (chunksForLength len) else length (n_chunks n))"
  define n' where "n' = n\<lparr>n_length := len, n_chunks := take keep (n_chunks n)\<rparr>"
  define m3 where "m3 = quota_change (n_uid n) (n_gid n) [(kSize, st_size (getStats goals n') - st_size (getStats goals n))]
    (releaseChunks (drop keep (n_chunks n)) (n_goal n) ((updateDetachedSpaceUsage n (n_length n) len m)\<lparr>nodeTable := ?ns(i \<mapsto> n')\<rparr>))"
  have f: "n_type n' = n_type n" "n_mode n' = n_mode n" "n_parents n' = n_parents n" "n_entries n' = n_entries n" "n_ctime n' = n_ctime n"
    "n_trashtime n' = n_trashtime n" "n_uid n' = n_uid n" "n_gid n' = n_gid n" "n_length n' = len" by (simp_all add: n'_def)
  have nd: "\<not> is_dir n" "\<not> is_dir n'" using n(2) f(1) by (auto simp: is_file_def)
  have t: "tree_inv ?ns" "stats_inv goals ?ns" "shelved (detachedOf ?ns) m" "quota_inv goals m"
    using inv by (simp_all add: meta_inv_def fs_inv_def)
  have fin: "finite (dom ?ns)" "finite (dom (detachedOf ?ns))"
    using finite_dom [OF t(1)] finite_detachedOf by blast+
  from file_change_law [OF t(1) n(1) nd f(3,4), of goals] t(2) obtain ns' where
    ns': "updateParentStatsForNode (getStats goals n') (getStats goals n) i (?ns(i \<mapsto> n')) = Some ns'" "same_tree ?ns ns'"
      "stats_only (?ns(i \<mapsto> n')) ns'" "stats_inv goals ns'" by blast
  have m3: "nodeTable m3 = ?ns(i \<mapsto> n')" "aclStorage m3 = aclStorage m" "nodeCount m3 = nodeCount m" "dirNodes m3 = dirNodes m"
    "fileNodes m3 = fileNodes m" "linkNodes m3 = linkNodes m"
    by (simp_all add: m3_def releaseChunks_def quota_change_def)
  have "used (quotaDatabase m3) owner r = used (quotaDatabase m) owner r
      - (if owned owner n then charge goals n r else 0) + (if owned owner n' then charge goals n' r else 0)"
    if "fst owner \<noteq> kInode" for owner r
    using n(2) f(1,7,8) by (cases r) (auto simp: m3_def releaseChunks_def used_quota_change owned_iff [OF that] is_file_def getSize_def)
  then have "quota_inv goals m3" by (rule quota_inv_replace [OF t(4) fin(1) n(1) m3(1)])
  moreover have "shelved (detachedOf (?ns(i \<mapsto> n'))) m3"
    using shelved_length [OF t(3) fin(2) n(1) f(1)] f(5,6,9) by (simp add: m3_def releaseChunks_def trashPathKey_def)
  moreover have "fs_inv goals ns'" using ns'(2,4) t(1) tree_inv_same by (simp add: fs_inv_def)
  ultimately have "meta_inv goals (m3\<lparr>nodeTable := ns'\<rparr>)"
    using meta_inv_replace [OF inv n(1) f(1-3), of "m3\<lparr>nodeTable := ns'\<rparr>"] ns'(2,3) m3 same_core_stats detachedOf_stats_only
    by (simp add: same_tree_def quota_inv_def)
  moreover have "setLength goals i len erase m = Some (m3\<lparr>nodeTable := ns'\<rparr>)"
    using n(1) ns'(1) f(7,8) by (simp add: setLength_def Let_def m3_def n'_def keep_def releaseChunks_def split del: if_split)
  moreover have "ns' i = Some n'" using stats_only_nondir [OF ns'(3), of i] nd(2) by (simp add: isdir_def)
  ultimately show ?thesis using n(2) f(1,9) by (auto simp: is_file_def)
qed

section \<open>Owner\<close>

lemma attr_replace:
  assumes "ns i = Some n" "n_type n' = n_type n" "n_goal n' = n_goal n" "n_length n' = n_length n" "n_chunks n' = n_chunks n"
    "n_path_length n' = n_path_length n" "n_stats n' = n_stats n" "n_parents n' = n_parents n" "n_entries n' = n_entries n" "n_nlink n' = n_nlink n"
  shows "fs_inv goals (ns(i \<mapsto> n')) = fs_inv goals ns" "pars (ns(i \<mapsto> n')) = pars ns" "kids (ns(i \<mapsto> n')) = kids ns"
    "isdir (ns(i \<mapsto> n')) = isdir ns"
proof -
  have "getStats goals n' = getStats goals n" by (rule getStats_cong) (simp_all add: assms)
  then have s: "same_fs goals ns (ns(i \<mapsto> n'))" using assms by (intro same_fs_replace [of ns i n n']) simp_all
  show "fs_inv goals (ns(i \<mapsto> n')) = fs_inv goals ns" by (rule fs_inv_same [OF s])
  show "pars (ns(i \<mapsto> n')) = pars ns" "kids (ns(i \<mapsto> n')) = kids ns" "isdir (ns(i \<mapsto> n')) = isdir ns"
    using s by (simp_all add: same_fs_def same_tree_def)
qed

lemma changeUidGid_law:
  assumes inv: "meta_inv goals m" and n: "nodeTable m i = Some n"
  shows "\<exists>m'. changeUidGid goals i uid gid m = Some m' \<and> meta_inv goals m' \<and> nodeTable m' = (nodeTable m)(i \<mapsto> n\<lparr>n_uid := uid, n_gid := gid\<rparr>)"
proof -
  let ?ns = "nodeTable m" and ?n = "n\<lparr>n_uid := uid, n_gid := gid\<rparr>" and ?sz = "if is_file n then getSize goals n else 0"
  define m' where "m' = quota_change uid gid (if is_file n then [(kInodes, 1), (kSize, ?sz)] else [(kInodes, 1)])
    ((quota_change (n_uid n) (n_gid n) (if is_file n then [(kInodes, - 1), (kSize, - ?sz)] else [(kInodes, - 1)]) m)\<lparr>nodeTable := ?ns(i \<mapsto> ?n)\<rparr>)"
  have m': "nodeTable m' = ?ns(i \<mapsto> ?n)" "aclStorage m' = aclStorage m" "nodeCount m' = nodeCount m" "dirNodes m' = dirNodes m"
    "fileNodes m' = fileNodes m" "linkNodes m' = linkNodes m"
    by (simp_all add: m'_def quota_change_def)
  have t: "tree_inv ?ns" "fs_inv goals ?ns" "shelved (detachedOf ?ns) m" "quota_inv goals m" using inv by (simp_all add: meta_inv_def fs_inv_def)
  have fin: "finite (dom ?ns)" "finite (dom (detachedOf ?ns))" using finite_dom [OF t(1)] finite_detachedOf by blast+
  have "fs_inv goals (?ns(i \<mapsto> ?n))" "pars (?ns(i \<mapsto> ?n)) = pars ?ns" using attr_replace [of ?ns i n ?n] n t(2) by simp_all
  moreover have c: "charge goals ?n r = charge goals n r" for r by (rule charge_cong) simp_all
  have d: "delta (if is_file n then [(kInodes, 1), (kSize, ?sz)] else [(kInodes, 1)]) r = charge goals n r"
    "delta (if is_file n then [(kInodes, - 1), (kSize, - ?sz)] else [(kInodes, - 1)]) r = - charge goals n r" for r
    by (cases r; simp)+
  have "used (quotaDatabase m') owner r = used (quotaDatabase m) owner r
      - (if owned owner n then charge goals n r else 0) + (if owned owner ?n then charge goals ?n r else 0)"
    if "fst owner \<noteq> kInode" for owner r
    unfolding c by (simp add: m'_def used_quota_change owned_iff [OF that] d)
  then have "quota_inv goals m'" by (rule quota_inv_replace [OF t(4) fin(1) n m'(1)])
  moreover have "shelved (detachedOf (?ns(i \<mapsto> ?n))) m'"
    using shelved_length [OF t(3) fin(2) n, of ?n] by (simp add: m'_def updateDetachedSpaceUsage_def trashPathKey_def)
  ultimately have "meta_inv goals m'"
    using meta_inv_replace [OF inv n, of ?n m'] m' by (simp add: quota_inv_def)
  moreover have "changeUidGid goals i uid gid m = Some m'" using n by (simp add: changeUidGid_def set_node_eq m'_def Let_def)
  ultimately show ?thesis using m'(1) by blast
qed

section \<open>Times\<close>

lemma shelved_key:
  assumes s: "shelved dn m" and n: "dn i = Some n" "n_type n = kTrash"
    and n': "n_type n' = kTrash" "n_length n' = n_length n" and fin: "finite (dom dn)"
  shows "shelved (dn(i \<mapsto> n')) (m\<lparr>detached := updateTrashFromOldEntry i n' (trashPathKey i n) (detached m)\<rparr>)"
proof -
  have pl: "placed dn (detached m)" "detached_inv (detached m)" using s by (simp_all add: shelved_def)
  obtain h where h: "trash (detached m) (trashPathKey i n) = Some h" using on_shelf(1) [OF pl(1) n(1,2)] by blast
  have "trashPathKey i n' = trashPathKey i n \<or> trash (detached m) (trashPathKey i n') = None"
  proof (rule ccontr)
    assume c: "\<not> ?thesis"
    then have "trashPathKey i n' \<in> trash_keys dn" using pl(1) by (auto simp: placed_def)
    then show False using n c by (auto simp: trash_keys_def)
  qed
  from updateTrashFromOldEntry_law [OF pl(2) h _ this] have l:
    "detached_inv (updateTrashFromOldEntry i n' (trashPathKey i n) (detached m))"
    "trash (updateTrashFromOldEntry i n' (trashPathKey i n) (detached m)) = (trash (detached m))(trashPathKey i n := None, trashPathKey i n' \<mapsto> h)"
    "reserved (updateTrashFromOldEntry i n' (trashPathKey i n) (detached m)) = reserved (detached m)" by simp_all
  have "dom ((trash (detached m))(trashPathKey i n := None, trashPathKey i n' \<mapsto> h)) = trash_keys (dn(i \<mapsto> n'))"
    using pl(1) n n' by (auto simp: placed_def trash_keys_put trash_keys_free)
  then show ?thesis using s n n' fin l by (simp add: shelved_def placed_def tally_replace one_if_def reserved_ids_put reserved_ids_free)
qed

lemma updateCTime_law:
  assumes inv: "meta_inv goals m" and n: "nodeTable m i = Some n"
  shows "\<exists>m'. updateCTime i ctime m = Some m' \<and> meta_inv goals m' \<and> nodeTable m' = (nodeTable m)(i \<mapsto> n\<lparr>n_ctime := ctime\<rparr>)"
proof -
  let ?ns = "nodeTable m" and ?n = "n\<lparr>n_ctime := ctime\<rparr>"
  define m' where "m' = (let m1 = m\<lparr>nodeTable := ?ns(i \<mapsto> ?n)\<rparr> in
    if n_type n = kTrash \<and> n_ctime n \<noteq> ctime then m1\<lparr>detached := updateTrashFromOldEntry i ?n (trashPathKey i n) (detached m1)\<rparr> else m1)"
  have m': "nodeTable m' = ?ns(i \<mapsto> ?n)" "aclStorage m' = aclStorage m" "nodeCount m' = nodeCount m" "dirNodes m' = dirNodes m"
    "fileNodes m' = fileNodes m" "linkNodes m' = linkNodes m" "quotaDatabase m' = quotaDatabase m"
    by (simp_all add: m'_def Let_def)
  have t: "tree_inv ?ns" "fs_inv goals ?ns" "shelved (detachedOf ?ns) m" "quota_inv goals m" using inv by (simp_all add: meta_inv_def fs_inv_def)
  have fin: "finite (dom ?ns)" "finite (dom (detachedOf ?ns))" using finite_dom [OF t(1)] finite_detachedOf by blast+
  have "fs_inv goals (?ns(i \<mapsto> ?n))" "pars (?ns(i \<mapsto> ?n)) = pars ?ns" using attr_replace [of ?ns i n ?n] n t(2) by simp_all
  moreover have "charge goals ?n r = charge goals n r" "owned owner ?n = owned owner n" for r owner
    by (rule charge_cong, simp_all) (cases "(owner, n)" rule: owned.cases, simp_all)
  then have "quota_inv goals m'" by (intro quota_inv_replace [OF t(4) fin(1) n m'(1)]) (simp add: m'(7))
  moreover have "shelved (detachedOf (?ns(i \<mapsto> ?n))) m'"
  proof (cases "n_type n = kTrash \<and> n_ctime n \<noteq> ctime")
    case True
    then show ?thesis using shelved_key [OF t(3), of i n ?n] fin n by (simp add: m'_def detachedOf_at) (simp add: shelved_def)
  next
    case False
    then have "trashPathKey i ?n = trashPathKey i n" if "n_type n = kTrash" using that by (simp add: trashPathKey_def)
    then have "shelved (detachedOf (?ns(i \<mapsto> ?n))) m"
      using shelved_length [OF t(3) fin(2) n, of ?n] by (simp add: updateDetachedSpaceUsage_def)
    then show ?thesis unfolding m'_def Let_def if_not_P [OF False] by (simp del: detachedOf_upd)
  qed
  ultimately have "meta_inv goals m'"
    using meta_inv_replace [OF inv n, of ?n m'] m' by (simp add: quota_inv_def)
  moreover have "updateCTime i ctime m = Some m'" using n by (simp add: updateCTime_def set_node_eq m'_def Let_def)
  ultimately show ?thesis using m'(1) by blast
qed

end
