(* ===== verification/FsAccess.thy ===== *)
theory FsAccess
  imports FsModify
begin

text \<open>
  Who may do what (\<open>src/src/master/fs_context.h\<close>, \<open>src/src/master/filesystem_node.cc\<close>): the context of an operation,
  the check of a session, the check of permissions by mode or by access control list, the node an operation
  works on, and the operations on access control lists. \<open>None\<close> is a failed assertion. The lower-case index that
  \<open>getNodeForOperation\<close> rebuilds for case-insensitive sessions is not modelled.

  The section on the invariant shows that the mode of a node and its list always agree, so that the
  assertions of \<open>access\<close> and \<open>getAcl\<close> hold, and that a session only ever works on nodes below its root.
\<close>

unbundle bit_operations_syntax

section \<open>Contexts\<close>

record FsContext =
  ctx_ts :: "32 word"
  ctx_master :: bool
  ctx_hasSessionData :: bool
  ctx_rootinode :: inode
  ctx_sesflags :: "8 word"
  ctx_hasUidGidData :: bool
  ctx_uid :: "32 word"
  ctx_auid :: "32 word"
  ctx_gids :: "32 word list"
  ctx_agid :: "32 word"

definition SESFLAG_READONLY :: "8 word" where "SESFLAG_READONLY = 0x01"
definition SESFLAG_IGNOREGID :: "8 word" where "SESFLAG_IGNOREGID = 0x04"
definition SESFLAG_ALLCANCHANGEQUOTA :: "8 word" where "SESFLAG_ALLCANCHANGEQUOTA = 0x08"
definition SESFLAG_NOMASTERPERMCHECK :: "8 word" where "SESFLAG_NOMASTERPERMCHECK = 0x20"

definition MODE_MASK_W :: "8 word" where "MODE_MASK_W = 2"
definition MODE_MASK_EMPTY :: "8 word" where "MODE_MASK_EMPTY = 0"

definition canCheckPermissions :: "FsContext \<Rightarrow> bool" where
  "canCheckPermissions ctx \<longleftrightarrow> ctx_hasSessionData ctx \<and> ctx_hasUidGidData ctx \<and> ctx_master ctx"

datatype SessionType = kNotMeta | kOnlyMeta | kAnySession
datatype OperationMode = kReadWrite | kReadOnly
datatype ExpectedNodeType = ExpectFile | ExpectDirectory | ExpectNotDirectory | ExpectFileOrDirectory | ExpectAny

definition verifySession :: "FsContext \<Rightarrow> OperationMode \<Rightarrow> SessionType \<Rightarrow> status" where
  "verifySession ctx operationMode sessionType =
     (if ctx_hasSessionData ctx \<and> ctx_sesflags ctx AND SESFLAG_READONLY \<noteq> 0 \<and> operationMode = kReadWrite then SAUNAFS_ERROR_EROFS
      else if ctx_hasSessionData ctx \<and> ctx_rootinode ctx = 0 \<and> sessionType = kNotMeta then SAUNAFS_ERROR_ENOENT
      else if ctx_hasSessionData ctx \<and> ctx_rootinode ctx \<noteq> 0 \<and> sessionType = kOnlyMeta then SAUNAFS_ERROR_EPERM
      else SAUNAFS_STATUS_OK)"

section \<open>Names and permissions\<close>

definition nameCheck :: "string \<Rightarrow> int" where
  "nameCheck name =
     (if length name = 0 \<or> length name > kMaxFileNameLength then - 1
      else if name ! 0 = CHR ''.'' \<and> length name = 1 then - 1
      else if name ! 0 = CHR ''.'' \<and> length name = 2 \<and> name ! 1 = CHR ''.'' then - 1
      else if list_ex (\<lambda>c. c = CHR 0x00 \<or> c = CHR ''/'') name then - 1
      else 0)"

text \<open>The permissions of a node without a list for the user of a context.\<close>

definition classMode :: "FsContext \<Rightarrow> FSNode \<Rightarrow> 8 word" where
  "classMode ctx node =
     ucast ((if ctx_uid ctx = n_uid node \<or> n_mode node AND push_bit EATTR_BIT_OFFSET EATTR_NOOWNER \<noteq> 0 then drop_bit 6 (n_mode node)
             else if ctx_sesflags ctx AND SESFLAG_IGNOREGID \<noteq> 0 then drop_bit 3 (n_mode node) OR n_mode node
             else if n_gid node \<in> set (ctx_gids ctx) then drop_bit 3 (n_mode node)
             else n_mode node) AND 7)"

definition fs_access :: "FsContext \<Rightarrow> inode \<Rightarrow> 8 word \<Rightarrow> Metadata \<Rightarrow> bool option" where
  "fs_access ctx i modeMask m =
     do {
       node \<leftarrow> nodeTable m i;
       if \<not> ctx_hasSessionData ctx then None
       else if ctx_sesflags ctx AND SESFLAG_NOMASTERPERMCHECK \<noteq> 0 then Some True
       else if \<not> ctx_hasUidGidData ctx then None
       else if ctx_uid ctx = 0 then Some True
       else do {
         nodeAcl \<leftarrow> acl_get (aclStorage m) i;
         case nodeAcl of
           Some acl \<Rightarrow>
             if n_mode node AND kStandardPermissionsMask \<noteq> getMode acl then None
             else
               (let mask = convertMode2Mask (ucast modeMask);
                    mask' = (if is_dir node then mask else mask AND NOT kDeleteChild)
                in Some (checkPermission acl mask' (n_uid node) (n_gid node) (ctx_uid ctx) (ctx_gids ctx)))
         | None \<Rightarrow> Some (classMode ctx node AND modeMask = modeMask)
       }
     }"

definition kStickyBit :: "16 word" where "kStickyBit = 0x200"

definition stickyAccess :: "FSNode \<Rightarrow> FSNode \<Rightarrow> 32 word \<Rightarrow> bool" where
  "stickyAccess parent node uid =
     (if uid = 0 \<or> n_mode parent AND kStickyBit = 0 then True
      else uid = n_uid parent \<or> n_mode parent AND push_bit EATTR_BIT_OFFSET EATTR_NOOWNER \<noteq> 0 \<or>
           uid = n_uid node \<or> n_mode node AND push_bit EATTR_BIT_OFFSET EATTR_NOOWNER \<noteq> 0)"

section \<open>The node of an operation\<close>

text \<open>The first part of \<open>getNodeForOperation\<close>: the node, or why there is none.\<close>

definition candidate :: "FsContext \<Rightarrow> inode \<Rightarrow> Metadata \<Rightarrow> (status + inode) option" where
  "candidate ctx i m =
     (let ns = nodeTable m
      in if \<not> ctx_hasSessionData ctx then Some (if ns i = None then Inl SAUNAFS_ERROR_ENOENT else Inr i)
         else if ctx_rootinode ctx = SPECIAL_INODE_ROOT \<or> ctx_rootinode ctx = 0 then
           (case ns i of
              None \<Rightarrow> Some (Inl SAUNAFS_ERROR_ENOENT)
            | Some node \<Rightarrow>
                Some (if ctx_rootinode ctx = 0 \<and> n_type node \<noteq> kTrash \<and> n_type node \<noteq> kReserved
                      then Inl SAUNAFS_ERROR_EPERM else Inr i))
         else if \<not> isdir ns (ctx_rootinode ctx) then Some (Inl SAUNAFS_ERROR_ENOENT)
         else if i = SPECIAL_INODE_ROOT \<or> i = ctx_rootinode ctx then Some (Inr (ctx_rootinode ctx))
         else if ns i = None then Some (Inl SAUNAFS_ERROR_ENOENT)
         else do {
           below \<leftarrow> isAncestorOrNodeReservedOrTrash (ctx_rootinode ctx) i ns;
           Some (if below then Inr i else Inl SAUNAFS_ERROR_EPERM)
         })"

definition expectedType :: "ExpectedNodeType \<Rightarrow> FSNode \<Rightarrow> status" where
  "expectedType expected node =
     (if expected = ExpectDirectory \<and> \<not> is_dir node then SAUNAFS_ERROR_ENOTDIR
      else if expected = ExpectNotDirectory \<and> is_dir node then SAUNAFS_ERROR_EPERM
      else if expected = ExpectFile \<and> n_type node \<noteq> kFile \<and> n_type node \<noteq> kReserved \<and> n_type node \<noteq> kTrash then SAUNAFS_ERROR_EPERM
      else if expected = ExpectFileOrDirectory \<and> \<not> is_dir node \<and> n_type node \<noteq> kFile \<and> n_type node \<noteq> kReserved \<and> n_type node \<noteq> kTrash
        then SAUNAFS_ERROR_EPERM
      else SAUNAFS_STATUS_OK)"

definition getNodeForOperation :: "FsContext \<Rightarrow> ExpectedNodeType \<Rightarrow> 8 word \<Rightarrow> inode \<Rightarrow> Metadata \<Rightarrow> (status + inode) option" where
  "getNodeForOperation ctx expected modeMask i m =
     do {
       found \<leftarrow> candidate ctx i m;
       case found of
         Inl st \<Rightarrow> Some (Inl st)
       | Inr c \<Rightarrow>
           do {
             node \<leftarrow> nodeTable m c;
             if expectedType expected node \<noteq> SAUNAFS_STATUS_OK then Some (Inl (expectedType expected node))
             else if \<not> canCheckPermissions ctx then Some (Inr c)
             else do {
               ok \<leftarrow> fs_access ctx c modeMask m;
               Some (if ok then Inr c else Inl SAUNAFS_ERROR_EACCES)
             }
           }
     }"

section \<open>Access control lists of nodes\<close>

datatype AclType = kAccess | kDefault | kRichACL

definition mergeMode :: "16 word \<Rightarrow> 16 word \<Rightarrow> 16 word" where
  "mergeMode mode permissions = (mode AND NOT kStandardPermissionsMask) OR (permissions AND kStandardPermissionsMask)"

definition deleteAcl :: "inode \<Rightarrow> AclType \<Rightarrow> 32 word \<Rightarrow> Metadata \<Rightarrow> (status \<times> Metadata) option" where
  "deleteAcl i type timeStamp m =
     do {
       node \<leftarrow> nodeTable m i;
       if type = kDefault \<and> \<not> is_dir node then Some (SAUNAFS_ERROR_ENOTSUP, m)
       else do {
         acls \<leftarrow> (if type = kRichACL then acl_erase i (aclStorage m)
                  else do {
                    nodeAcl \<leftarrow> acl_get (aclStorage m) i;
                    case nodeAcl of
                      None \<Rightarrow> Some (aclStorage m)
                    | Some acl \<Rightarrow>
                        (let newAcl = removeInheritOnly (type = kDefault) (createExplicitInheritance acl)
                         in if ace_list newAcl = [] then acl_erase i (aclStorage m) else acl_set i newAcl (aclStorage m))
                  });
         m1 \<leftarrow> updateCTime i timeStamp (m\<lparr>aclStorage := acls\<rparr>);
         Some (SAUNAFS_STATUS_OK, m1)
       }
     }"

definition syncAclWithMode :: "inode \<Rightarrow> Metadata \<Rightarrow> Metadata option" where
  "syncAclWithMode i m =
     do {
       node \<leftarrow> nodeTable m i;
       acls \<leftarrow> acl_setMode i (n_mode node) (is_dir node) (aclStorage m);
       Some (m\<lparr>aclStorage := acls\<rparr>)
     }"

definition getAcl :: "inode \<Rightarrow> Metadata \<Rightarrow> (status + RichACL) option" where
  "getAcl i m =
     do {
       node \<leftarrow> nodeTable m i;
       richAcl \<leftarrow> acl_get (aclStorage m) i;
       case richAcl of
         None \<Rightarrow> Some (Inl SAUNAFS_ERROR_ENOATTR)
       | Some acl \<Rightarrow> if n_mode node AND kStandardPermissionsMask = getMode acl then Some (Inr acl) else None
     }"

definition setRichAcl :: "inode \<Rightarrow> RichACL \<Rightarrow> 32 word \<Rightarrow> Metadata \<Rightarrow> (status \<times> Metadata) option" where
  "setRichAcl i acl timeStamp m =
     do {
       node \<leftarrow> nodeTable m i;
       if \<not> checkInheritFlags (is_dir node) acl then Some (SAUNAFS_ERROR_ENOTSUP, m)
       else do {
         let (equiv, mode) = equivMode acl (n_mode node) (is_dir node);
         let mode' = (if equiv then mergeMode (n_mode node) mode
                      else if \<not> isAutoSetMode acl then mergeMode (n_mode node) (getMode acl) else n_mode node);
         let newAcl = (if isAutoSetMode acl then setMode mode' (is_dir node) (acl\<lparr>acl_flags := acl_flags acl AND NOT kAutoSetMode\<rparr>) else acl);
         acls \<leftarrow> (if equiv then acl_erase i (aclStorage m) else acl_set i newAcl (aclStorage m));
         m1 \<leftarrow> updateCTime i timeStamp (set_node i (\<lambda>n. n\<lparr>n_mode := mode'\<rparr>) (m\<lparr>aclStorage := acls\<rparr>));
         Some (SAUNAFS_STATUS_OK, m1)
       }
     }"

definition setPosixAcl :: "inode \<Rightarrow> AclType \<Rightarrow> AccessControlList \<Rightarrow> 32 word \<Rightarrow> Metadata \<Rightarrow> (status \<times> Metadata) option" where
  "setPosixAcl i type acl timeStamp m =
     do {
       node \<leftarrow> nodeTable m i;
       if type \<noteq> kDefault \<and> type \<noteq> kAccess then Some (SAUNAFS_ERROR_EINVAL, m)
       else if type = kDefault \<and> \<not> is_dir node then Some (SAUNAFS_ERROR_ENOTSUP, m)
       else do {
         nodeAcl \<leftarrow> acl_get (aclStorage m) i;
         let newAcl = (case nodeAcl of None \<Rightarrow> emptyACL | Some a \<Rightarrow> removeInheritOnly (type = kDefault) (createExplicitInheritance a));
         let newAcl = (if type = kDefault then setMode (n_mode node) True (appendDefaultPosixACL acl newAcl)
                       else appendPosixACL acl (is_dir node) newAcl);
         let mode' = (if type = kDefault then n_mode node else mergeMode (n_mode node) (getMode newAcl));
         acls \<leftarrow> acl_set i newAcl (aclStorage m);
         m1 \<leftarrow> updateCTime i timeStamp (set_node i (\<lambda>n. n\<lparr>n_mode := mode'\<rparr>) (m\<lparr>aclStorage := acls\<rparr>));
         Some (SAUNAFS_STATUS_OK, m1)
       }
     }"

section \<open>The invariant\<close>

lemma mode_acl_law:
  assumes inv: "meta_inv goals m" and n: "nodeTable m i = Some n" and st: "acl_inv st" "acl_of st = (acl_of (aclStorage m))(i := a)"
    and a: "\<And>acl. a = Some acl \<Longrightarrow> mode AND kStandardPermissionsMask = getMode acl"
  shows "meta_inv goals (m\<lparr>nodeTable := (nodeTable m)(i \<mapsto> n\<lparr>n_mode := mode\<rparr>), aclStorage := st\<rparr>)"
proof -
  let ?ns = "nodeTable m" and ?n = "n\<lparr>n_mode := mode\<rparr>"
  let ?m = "m\<lparr>nodeTable := ?ns(i \<mapsto> ?n), aclStorage := st\<rparr>"
  have t: "tree_inv ?ns" "fs_inv goals ?ns" "shelved (detachedOf ?ns) m" "quota_inv goals m" "count_inv m" "homed ?ns" "acl_ok ?ns (aclStorage m)"
    using inv by (simp_all add: meta_inv_def fs_inv_def)
  have fin: "finite (dom ?ns)" "finite (dom (detachedOf ?ns))" using finite_dom [OF t(1)] finite_detachedOf by blast+
  have v: "fs_inv goals (?ns(i \<mapsto> ?n))" "pars (?ns(i \<mapsto> ?n)) = pars ?ns" using attr_replace [of ?ns i n ?n] n t(2) by simp_all
  have "tally f (?ns(i \<mapsto> ?n)) = tally f ?ns" if "f ?n = f n" for f :: "FSNode \<Rightarrow> 32 word" using that by (simp add: tally_replace [OF fin(1) n])
  then have c: "count_inv ?m" using t(5) by (simp add: count_simps)
  have "charge goals ?n r = charge goals n r" "owned owner ?n = owned owner n" for r owner
    by (rule charge_cong, simp_all) (cases "(owner, n)" rule: owned.cases, simp_all)
  then have q: "quota_inv goals ?m" by (intro quota_inv_replace [OF t(4) fin(1) n, where n' = ?n and m' = ?m]) simp_all
  have "shelved (detachedOf (?ns(i \<mapsto> ?n))) m"
    using shelved_length [OF t(3) fin(2) n, of ?n] by (simp add: updateDetachedSpaceUsage_def trashPathKey_def)
  then have s: "shelved (detachedOf (?ns(i \<mapsto> ?n))) ?m" by (simp add: shelved_def del: detachedOf_upd)
  have "detachedOf (?ns(i \<mapsto> ?n)) j = None \<longleftrightarrow> detachedOf ?ns j = None" for j using n by (auto simp: detachedOf_def)
  then have h: "homed (?ns(i \<mapsto> ?n))" using t(6) n unfolding homed_def v(2) by (auto simp del: detachedOf_upd)
  have "acl_ok (?ns(i \<mapsto> ?n)) st" using t(7) st a by (auto simp: acl_ok_def)
  with v c q s h show ?thesis by (simp add: meta_inv_def del: detachedOf_upd)
qed

lemma mergeMode_bits [simp]: "mergeMode mode p AND kStandardPermissionsMask = p AND kStandardPermissionsMask"
  by (rule bit_word_eqI) (auto simp: mergeMode_def bit_simps)

lemma getMode_standard [simp]: "getMode acl AND kStandardPermissionsMask = getMode acl"
proof (rule bit_word_eqI)
  fix n assume "n < LENGTH(16)"
  have b: "bit kStandardPermissionsMask n \<longleftrightarrow> n < 9"
    using bit_mask_iff [of 9 n, where 'a = "16 word"] by (auto simp: mask_eq_exp_minus_1 kStandardPermissionsMask_def)
  have "n < 9" if "bit (getMode acl) n"
    using that by (auto simp: getMode_def bit_or_iff bit_push_bit_iff bit_convertMask2Mode)
  then show "bit (getMode acl AND kStandardPermissionsMask) n = bit (getMode acl) n" by (auto simp: bit_and_iff b)
qed

lemma acl_law:
  assumes inv: "meta_inv goals m" and n: "nodeTable m i = Some n" and st: "acl_inv st" "acl_of st = (acl_of (aclStorage m))(i := a)"
    and a: "\<And>acl. a = Some acl \<Longrightarrow> n_mode n AND kStandardPermissionsMask = getMode acl"
  shows "meta_inv goals (m\<lparr>aclStorage := st\<rparr>)"
proof -
  have "(nodeTable m)(i \<mapsto> n\<lparr>n_mode := n_mode n\<rparr>) = nodeTable m" using n by (simp add: fun_upd_idem)
  then show ?thesis using mode_acl_law [OF inv n st a] by simp
qed

lemma acl_facts:
  assumes "meta_inv goals m"
  shows "acl_inv (aclStorage m)" "acl_get (aclStorage m) i = Some (acl_of (aclStorage m) i)"
    "nodeTable m i = Some n \<Longrightarrow> acl_of (aclStorage m) i = Some acl \<Longrightarrow> n_mode n AND kStandardPermissionsMask = getMode acl"
proof -
  have ok: "acl_ok (nodeTable m) (aclStorage m)" using assms by (simp add: meta_inv_def)
  then show "acl_inv (aclStorage m)" by (simp add: acl_ok_def)
  then show "acl_get (aclStorage m) i = Some (acl_of (aclStorage m) i)" by (rule acl_get_law)
  assume "nodeTable m i = Some n" "acl_of (aclStorage m) i = Some acl"
  then show "n_mode n AND kStandardPermissionsMask = getMode acl" using ok unfolding acl_ok_def by fastforce
qed

lemma getMode_explicit [simp]: "getMode (removeInheritOnly b (createExplicitInheritance acl)) = getMode acl"
  by (simp add: removeInheritOnly_def createExplicitInheritance_def getMode_def Let_def)

lemma deleteAcl_law:
  assumes inv: "meta_inv goals m" and n: "nodeTable m i = Some n"
  shows "\<exists>st m'. deleteAcl i type ts m = Some (st, m') \<and> meta_inv goals m'"
proof (cases "type = kDefault \<and> \<not> is_dir n")
  case True
  then show ?thesis using inv n by (simp add: deleteAcl_def)
next
  case False
  note f = acl_facts [OF inv]
  define a where "a = (if type = kRichACL then None else
    (case acl_of (aclStorage m) i of None \<Rightarrow> None
     | Some acl \<Rightarrow> let new = removeInheritOnly (type = kDefault) (createExplicitInheritance acl) in if ace_list new = [] then None else Some new))"
  obtain acls where acls: "(if type = kRichACL then acl_erase i (aclStorage m)
      else case acl_of (aclStorage m) i of None \<Rightarrow> Some (aclStorage m)
        | Some acl \<Rightarrow> let newAcl = removeInheritOnly (type = kDefault) (createExplicitInheritance acl)
            in if ace_list newAcl = [] then acl_erase i (aclStorage m) else acl_set i newAcl (aclStorage m)) = Some acls"
      "acl_inv acls" "acl_of acls = (acl_of (aclStorage m))(i := a)"
    using acl_erase_law [OF f(1), of i] acl_set_law [OF f(1), of i] f(1)
    by (cases "acl_of (aclStorage m) i") (fastforce simp: a_def Let_def fun_upd_idem split: if_splits)+
  have "meta_inv goals (m\<lparr>aclStorage := acls\<rparr>)"
    by (rule acl_law [OF inv n acls(2,3)]) (use f(3) [OF n] in \<open>auto simp: a_def Let_def split: if_splits option.splits\<close>)
  then obtain m' where "updateCTime i ts (m\<lparr>aclStorage := acls\<rparr>) = Some m'" "meta_inv goals m'"
    using updateCTime_law [of goals "m\<lparr>aclStorage := acls\<rparr>" i n ts] n by auto
  then have "deleteAcl i type ts m = Some (SAUNAFS_STATUS_OK, m')"
    using False n acls(1) f(2) [of i] by (cases "type = kRichACL") (simp_all add: deleteAcl_def)
  then show ?thesis using \<open>meta_inv goals m'\<close> by blast
qed

text \<open>The common end of both operations that set a list.\<close>

lemma store_acl_law:
  assumes inv: "meta_inv goals m" and n: "nodeTable m i = Some n" and st: "acl_inv st" "acl_of st = (acl_of (aclStorage m))(i := a)"
    and a: "\<And>acl. a = Some acl \<Longrightarrow> mode AND kStandardPermissionsMask = getMode acl"
  shows "\<exists>m'. updateCTime i ts (set_node i (\<lambda>n. n\<lparr>n_mode := mode\<rparr>) (m\<lparr>aclStorage := st\<rparr>)) = Some m' \<and> meta_inv goals m'"
proof -
  have "set_node i (\<lambda>n. n\<lparr>n_mode := mode\<rparr>) (m\<lparr>aclStorage := st\<rparr>) = m\<lparr>nodeTable := (nodeTable m)(i \<mapsto> n\<lparr>n_mode := mode\<rparr>), aclStorage := st\<rparr>"
    using n by (simp add: set_node_eq)
  then show ?thesis
    using updateCTime_law [OF mode_acl_law [OF inv n st a], of i "n\<lparr>n_mode := mode\<rparr>" ts] by auto
qed

lemma setRichAcl_law:
  assumes inv: "meta_inv goals m" and n: "nodeTable m i = Some n"
  shows "\<exists>st m'. setRichAcl i acl ts m = Some (st, m') \<and> meta_inv goals m'"
proof (cases "checkInheritFlags (is_dir n) acl")
  case False
  then show ?thesis using inv n by (simp add: setRichAcl_def)
next
  case True
  note f = acl_facts(1) [OF inv]
  obtain equiv mode where e: "equivMode acl (n_mode n) (is_dir n) = (equiv, mode)" by (cases "equivMode acl (n_mode n) (is_dir n)")
  define mode' where "mode' = (if equiv then mergeMode (n_mode n) mode
    else if \<not> isAutoSetMode acl then mergeMode (n_mode n) (getMode acl) else n_mode n)"
  define new where "new = (if isAutoSetMode acl then setMode mode' (is_dir n) (acl\<lparr>acl_flags := acl_flags acl AND NOT kAutoSetMode\<rparr>) else acl)"
  obtain acls where acls: "(if equiv then acl_erase i (aclStorage m) else acl_set i new (aclStorage m)) = Some acls"
      "acl_inv acls" "acl_of acls = (acl_of (aclStorage m))(i := if equiv then None else Some new)"
    using acl_erase_law [OF f, of i] acl_set_law [OF f, of i new] by (cases equiv) auto
  have "mode' AND kStandardPermissionsMask = getMode new" if "\<not> equiv"
    using that by (simp add: new_def mode'_def getMode_setMode kStandardPermissionsMask_def [symmetric])
  then have "mode' AND kStandardPermissionsMask = getMode x" if "(if equiv then None else Some new) = Some x" for x
    using that by (cases equiv) simp_all
  then obtain m' where "updateCTime i ts (set_node i (\<lambda>n. n\<lparr>n_mode := mode'\<rparr>) (m\<lparr>aclStorage := acls\<rparr>)) = Some m'" "meta_inv goals m'"
    using store_acl_law [OF inv n acls(2,3), of mode' ts] by blast
  then have "setRichAcl i acl ts m = Some (SAUNAFS_STATUS_OK, m')"
    using True n acls(1) by (simp add: setRichAcl_def e mode'_def [symmetric] new_def [symmetric]) (cases equiv, simp_all)
  then show ?thesis using \<open>meta_inv goals m'\<close> by blast
qed

lemma setPosixAcl_law:
  assumes inv: "meta_inv goals m" and n: "nodeTable m i = Some n"
  shows "\<exists>st m'. setPosixAcl i type acl ts m = Some (st, m') \<and> meta_inv goals m'"
proof (cases "type \<noteq> kDefault \<and> type \<noteq> kAccess \<or> type = kDefault \<and> \<not> is_dir n")
  case True
  then show ?thesis using inv n by (auto simp: setPosixAcl_def)
next
  case False
  note f = acl_facts [OF inv]
  define old where "old = (case acl_of (aclStorage m) i of None \<Rightarrow> emptyACL | Some a \<Rightarrow> removeInheritOnly (type = kDefault) (createExplicitInheritance a))"
  define new where "new = (if type = kDefault then setMode (n_mode n) True (appendDefaultPosixACL acl old) else appendPosixACL acl (is_dir n) old)"
  define mode' where "mode' = (if type = kDefault then n_mode n else mergeMode (n_mode n) (getMode new))"
  obtain acls where acls: "acl_set i new (aclStorage m) = Some acls" "acl_inv acls" "acl_of acls = (acl_of (aclStorage m))(i := Some new)"
    using acl_set_law [OF f(1)] by blast
  have "mode' AND kStandardPermissionsMask = getMode new"
    by (simp add: mode'_def) (simp add: new_def getMode_setMode kStandardPermissionsMask_def)
  then obtain m' where "updateCTime i ts (set_node i (\<lambda>n. n\<lparr>n_mode := mode'\<rparr>) (m\<lparr>aclStorage := acls\<rparr>)) = Some m'" "meta_inv goals m'"
    using store_acl_law [OF inv n acls(2,3), of mode' ts] by auto
  then have "setPosixAcl i type acl ts m = Some (SAUNAFS_STATUS_OK, m')"
    using False n acls(1) f(2) [of i]
    by (simp add: setPosixAcl_def old_def [symmetric] new_def [symmetric] mode'_def [symmetric])
  then show ?thesis using \<open>meta_inv goals m'\<close> by blast
qed

text \<open>The assertions of \<open>getAcl\<close> and \<open>access\<close> hold.\<close>

lemma syncAclWithMode_law:
  assumes inv: "meta_inv goals m" and n: "nodeTable m i = Some n"
  shows "\<exists>m'. syncAclWithMode i m = Some m' \<and> meta_inv goals m'"
proof -
  obtain acls where acls: "acl_setMode i (n_mode n) (is_dir n) (aclStorage m) = Some acls" "acl_inv acls"
      "acl_of acls = (acl_of (aclStorage m))(i := map_option (setMode (n_mode n) (is_dir n)) (acl_of (aclStorage m) i))"
    using acl_setMode_law [OF acl_facts(1) [OF inv]] by blast
  have "meta_inv goals (m\<lparr>aclStorage := acls\<rparr>)"
    by (rule acl_law [OF inv n acls(2,3)]) (auto simp: getMode_setMode kStandardPermissionsMask_def)
  then show ?thesis using n acls(1) by (simp add: syncAclWithMode_def)
qed

lemma getAcl_law:
  assumes inv: "meta_inv goals m" and n: "nodeTable m i = Some n"
  shows "getAcl i m = Some (case acl_of (aclStorage m) i of None \<Rightarrow> Inl SAUNAFS_ERROR_ENOATTR | Some acl \<Rightarrow> Inr acl)"
  using acl_facts(2,3) [OF inv] n by (auto simp: getAcl_def split: option.splits)

definition mayAccess :: "FsContext \<Rightarrow> inode \<Rightarrow> 8 word \<Rightarrow> Metadata \<Rightarrow> bool" where
  "mayAccess ctx i modeMask m \<longleftrightarrow>
     ctx_sesflags ctx AND SESFLAG_NOMASTERPERMCHECK \<noteq> 0 \<or> ctx_uid ctx = 0 \<or>
     (case nodeTable m i of None \<Rightarrow> False | Some node \<Rightarrow>
       (case acl_of (aclStorage m) i of
          None \<Rightarrow> classMode ctx node AND modeMask = modeMask
        | Some acl \<Rightarrow> checkPermission acl (if is_dir node then convertMode2Mask (ucast modeMask) else convertMode2Mask (ucast modeMask) AND NOT kDeleteChild)
            (n_uid node) (n_gid node) (ctx_uid ctx) (ctx_gids ctx)))"

lemma fs_access_law:
  assumes inv: "meta_inv goals m" and n: "nodeTable m i = Some n" and ctx: "ctx_hasSessionData ctx" "ctx_hasUidGidData ctx"
  shows "fs_access ctx i modeMask m = Some (mayAccess ctx i modeMask m)"
  using acl_facts(2,3) [OF inv] n ctx by (auto simp: fs_access_def mayAccess_def Let_def split: option.splits)

text \<open>The nodes a session may work on.\<close>

definition visible :: "FsContext \<Rightarrow> Metadata \<Rightarrow> inode \<Rightarrow> bool" where
  "visible ctx m c \<longleftrightarrow>
     (case nodeTable m c of
        None \<Rightarrow> False
      | Some node \<Rightarrow>
          \<not> ctx_hasSessionData ctx \<or> ctx_rootinode ctx = SPECIAL_INODE_ROOT \<or> n_type node = kTrash \<or> n_type node = kReserved \<or>
          ctx_rootinode ctx \<noteq> 0 \<and> isdir (nodeTable m) (ctx_rootinode ctx) \<and> (ctx_rootinode ctx, c) \<in> (edges (nodeTable m))\<^sup>*)"

lemma candidate_law:
  assumes inv: "meta_inv goals m"
  shows "\<exists>r. candidate ctx i m = Some r \<and> (\<forall>c. r = Inr c \<longrightarrow> visible ctx m c)"
proof -
  have t: "tree_inv (nodeTable m)" using inv by (simp add: meta_inv_def fs_inv_def)
  have "isAncestorOrNodeReservedOrTrash a c (nodeTable m) =
      Some (case nodeTable m c of None \<Rightarrow> (a, c) \<in> (edges (nodeTable m))\<^sup>+
            | Some node \<Rightarrow> n_type node = kReserved \<or> n_type node = kTrash \<or> (a, c) \<in> (edges (nodeTable m))\<^sup>+)" for a c
    by (simp add: isAncestorOrNodeReservedOrTrash_def isAncestor_law [OF t] split: option.splits)
  then show ?thesis
    by (auto simp: candidate_def visible_def Let_def isdir_def split: option.splits dest: trancl_into_rtrancl)
qed

lemma getNodeForOperation_law:
  assumes inv: "meta_inv goals m"
  shows "\<exists>r. getNodeForOperation ctx expected modeMask i m = Some r \<and>
    (\<forall>c. r = Inr c \<longrightarrow> candidate ctx i m = Some (Inr c) \<and> visible ctx m c \<and>
       (\<exists>node. nodeTable m c = Some node \<and> expectedType expected node = SAUNAFS_STATUS_OK) \<and>
       (canCheckPermissions ctx \<longrightarrow> mayAccess ctx c modeMask m))"
proof -
  obtain r where r: "candidate ctx i m = Some r" "\<And>c. r = Inr c \<Longrightarrow> visible ctx m c" using candidate_law [OF inv] by blast
  show ?thesis
  proof (cases r)
    case (Inl st)
    then show ?thesis using r by (simp add: getNodeForOperation_def)
  next
    case (Inr c)
    obtain node where node: "nodeTable m c = Some node" using r(2) [OF Inr] by (auto simp: visible_def split: option.splits)
    have "fs_access ctx c modeMask m = Some (mayAccess ctx c modeMask m)" if "canCheckPermissions ctx"
      using fs_access_law [OF inv node] that by (simp add: canCheckPermissions_def)
    then show ?thesis using r Inr node by (auto simp: getNodeForOperation_def)
  qed
qed

end
