(* ===== verification/FsOps.thy ===== *)
theory FsOps
  imports FsAccess
begin

text \<open>
  The operations of clients on the directory tree (\<open>src/src/master/filesystem_operations.cc\<close>): \<open>mknod\<close>, \<open>mkdir\<close>,
  \<open>symlink\<close>, \<open>unlink\<close>, \<open>rmdir\<close>, \<open>link\<close>, \<open>rename\<close>, and \<open>applyCreate\<close> and \<open>applyUnlink\<close>, by which a replica replays
  them. An operation answers a status, the lines it adds to the changelog, and the new metadata; \<open>None\<close> is a
  failed assertion or a recursion that never returns. The inode number \<open>ino\<close> that the generator hands
  out and the word of a new string handle are arguments. \<open>canMutateFileChunks\<close> of this backend always
  agrees. Attributes sent back to the client and case-insensitive sessions are not modelled.
\<close>

unbundle bit_operations_syntax

section \<open>The changelog\<close>

datatype FsLog =
    LogCreate "32 word" inode string FSNodeType "32 word" "32 word" "32 word" "32 word" inode
  | LogSymlink "32 word" inode string string "32 word" "32 word" inode
  | LogUnlink "32 word" inode string inode
  | LogMove "32 word" inode string inode string inode
  | LogLink "32 word" inode inode string
  | LogAcquire "32 word" inode "32 word"
  | LogRelease "32 word" inode "32 word"
  | LogPurge "32 word" inode
  | LogUndel "32 word" inode
  | LogSetPath "32 word" inode string
  | LogAttr "32 word" inode "32 word" "32 word" "32 word" "32 word" "32 word"
  | LogLength "32 word" inode "64 word" bool
  | LogDeleteAcl "32 word" inode char
  | LogSetAcl "32 word" inode char string
  | LogSetRichAcl "32 word" inode string

type_synonym fs_result = "(status \<times> FsLog list \<times> Metadata) option"

definition refuse :: "status \<Rightarrow> Metadata \<Rightarrow> fs_result" where
  "refuse st m = Some (st, [], m)"

definition context_uid :: "FsContext \<Rightarrow> 32 word option" where
  "context_uid ctx = (if ctx_hasUidGidData ctx then Some (ctx_uid ctx) else None)"

definition context_gid :: "FsContext \<Rightarrow> 32 word option" where
  "context_gid ctx = (if ctx_hasUidGidData ctx then (case ctx_gids ctx of [] \<Rightarrow> None | g # _ \<Rightarrow> Some g) else None)"

definition checkQuotaUgDir :: "32 word \<Rightarrow> 32 word \<Rightarrow> inode \<Rightarrow> resource_list \<Rightarrow> Metadata \<Rightarrow> status option" where
  "checkQuotaUgDir uid gid dir rs m =
     (if fsnodes_quota_exceeded_ug (quotaDatabase m) uid gid rs then Some SAUNAFS_ERROR_QUOTA
      else do {
        exceeded \<leftarrow> fsnodes_quota_exceeded_dir (quotaDatabase m) rs dir (nodeTable m);
        Some (if exceeded then SAUNAFS_ERROR_QUOTA else SAUNAFS_STATUS_OK)
      })"

section \<open>Making nodes\<close>

definition is_device :: "FSNodeType \<Rightarrow> bool" where
  "is_device ty \<longleftrightarrow> ty = kBlockDev \<or> ty = kCharDev"

definition set_rdev :: "FSNodeType \<Rightarrow> 32 word \<Rightarrow> inode \<Rightarrow> Metadata \<Rightarrow> Metadata" where
  "set_rdev ty rdev i m = (if is_device ty then set_node i (\<lambda>n. n\<lparr>n_rdev := rdev\<rparr>) m else m)"

definition fs_mknod ::
  "goal_defs \<Rightarrow> FsContext \<Rightarrow> 32 word \<Rightarrow> inode \<Rightarrow> string \<Rightarrow> FSNodeType \<Rightarrow> 16 word \<Rightarrow> 16 word \<Rightarrow> 32 word \<Rightarrow> inode \<Rightarrow> Metadata \<Rightarrow> fs_result" where
  "fs_mknod goals ctx timeStamp parent name ty mode umask rdev ino m =
     (if verifySession ctx kReadWrite kNotMeta \<noteq> SAUNAFS_STATUS_OK then refuse (verifySession ctx kReadWrite kNotMeta) m
      else if ty \<notin> {kFile, kSocket, kFifo, kBlockDev, kCharDev} then refuse SAUNAFS_ERROR_EINVAL m
      else do {
        found \<leftarrow> getNodeForOperation ctx ExpectDirectory MODE_MASK_W parent m;
        case found of
          Inl st \<Rightarrow> refuse st m
        | Inr p \<Rightarrow>
            if nameCheck name < 0 then refuse SAUNAFS_ERROR_EINVAL m
            else if lookup (nodeTable m) p name \<noteq> None then refuse SAUNAFS_ERROR_EEXIST m
            else do {
              uid \<leftarrow> context_uid ctx;
              gid \<leftarrow> context_gid ctx;
              st \<leftarrow> checkQuotaUgDir uid gid p [(kInodes, 1)] m;
              if st \<noteq> SAUNAFS_STATUS_OK then refuse st m
              else do {
                m1 \<leftarrow> createNode goals timeStamp p name ty mode umask uid gid False True ino m;
                let m2 = set_rdev ty rdev ino m1;
                node \<leftarrow> nodeTable m2 ino;
                Some (SAUNAFS_STATUS_OK, [LogCreate timeStamp p name ty (ucast (n_mode node AND kPermissionsMask)) uid gid rdev ino], m2)
              }
            }
      })"

text \<open>\<open>depleted\<close>: the master is told to refuse new directories on a full disk, and the disk is full.\<close>

definition fs_mkdir ::
  "goal_defs \<Rightarrow> FsContext \<Rightarrow> 32 word \<Rightarrow> inode \<Rightarrow> string \<Rightarrow> 16 word \<Rightarrow> 16 word \<Rightarrow> bool \<Rightarrow> bool \<Rightarrow> inode \<Rightarrow> Metadata \<Rightarrow> fs_result" where
  "fs_mkdir goals ctx timeStamp parent name mode umask copysgid depleted ino m =
     (if verifySession ctx kReadWrite kNotMeta \<noteq> SAUNAFS_STATUS_OK then refuse (verifySession ctx kReadWrite kNotMeta) m
      else do {
        found \<leftarrow> getNodeForOperation ctx ExpectDirectory MODE_MASK_W parent m;
        case found of
          Inl st \<Rightarrow> refuse st m
        | Inr p \<Rightarrow>
            if nameCheck name < 0 then refuse SAUNAFS_ERROR_EINVAL m
            else if lookup (nodeTable m) p name \<noteq> None then refuse SAUNAFS_ERROR_EEXIST m
            else do {
              uid \<leftarrow> context_uid ctx;
              gid \<leftarrow> context_gid ctx;
              st \<leftarrow> checkQuotaUgDir uid gid p [(kInodes, 1)] m;
              if st \<noteq> SAUNAFS_STATUS_OK then refuse st m
              else if depleted then refuse SAUNAFS_ERROR_NOSPACE m
              else do {
                m1 \<leftarrow> createNode goals timeStamp p name kDirectory mode umask uid gid copysgid True ino m;
                node \<leftarrow> nodeTable m1 ino;
                Some (SAUNAFS_STATUS_OK, [LogCreate timeStamp p name kDirectory (ucast (n_mode node AND kPermissionsMask)) uid gid 0 ino], m1)
              }
            }
      })"

text \<open>The requested inode is 0 in the master; a replica asks for the logged one.\<close>

definition fs_symlink ::
  "goal_defs \<Rightarrow> FsContext \<Rightarrow> inode \<Rightarrow> string \<Rightarrow> string \<Rightarrow> inode \<Rightarrow> inode \<Rightarrow> Metadata \<Rightarrow> fs_result" where
  "fs_symlink goals ctx parent name path requested ino m =
     (if verifySession ctx kReadWrite kNotMeta \<noteq> SAUNAFS_STATUS_OK then refuse (verifySession ctx kReadWrite kNotMeta) m
      else do {
        found \<leftarrow> getNodeForOperation ctx ExpectDirectory MODE_MASK_W parent m;
        case found of
          Inl st \<Rightarrow> refuse st m
        | Inr p \<Rightarrow>
            if length path = 0 then refuse SAUNAFS_ERROR_EINVAL m
            else if CHR 0x00 \<in> set path then refuse SAUNAFS_ERROR_EINVAL m
            else if nameCheck name < 0 then refuse SAUNAFS_ERROR_EINVAL m
            else if lookup (nodeTable m) p name \<noteq> None then refuse SAUNAFS_ERROR_EEXIST m
            else do {
              uid \<leftarrow> context_uid ctx;
              gid \<leftarrow> context_gid ctx;
              st \<leftarrow> (if ctx_master ctx then checkQuotaUgDir uid gid p [(kInodes, 1)] m else Some SAUNAFS_STATUS_OK);
              if st \<noteq> SAUNAFS_STATUS_OK then refuse st m
              else do {
                m1 \<leftarrow> createNode goals (ctx_ts ctx) p name kSymlink kStandardPermissionsMask 0 uid gid False False ino m;
                let m2 = set_node ino (\<lambda>n. n\<lparr>n_path := path, n_path_length := of_nat (length path)\<rparr>) m1;
                ns \<leftarrow> addStats (StatsRecord 0 0 0 0 0 (of_nat (length path)) 0 0) p (nodeTable m2);
                let m3 = m2\<lparr>nodeTable := ns\<rparr>;
                if ctx_master ctx then
                  (if requested \<noteq> 0 then None
                   else Some (SAUNAFS_STATUS_OK, [LogSymlink (ctx_ts ctx) p name path uid gid ino], m3))
                else refuse (if requested \<noteq> ino then SAUNAFS_ERROR_MISMATCH else SAUNAFS_STATUS_OK) m3
              }
            }
      })"

definition applyCreate ::
  "goal_defs \<Rightarrow> 32 word \<Rightarrow> inode \<Rightarrow> string \<Rightarrow> FSNodeType \<Rightarrow> 32 word \<Rightarrow> 32 word \<Rightarrow> 32 word \<Rightarrow> 32 word \<Rightarrow> inode \<Rightarrow> inode \<Rightarrow> Metadata \<Rightarrow>
   (status \<times> Metadata) option" where
  "applyCreate goals timestamp parent name ty mode uid gid rdev inode ino m =
     (if ty \<notin> {kFile, kSocket, kFifo, kBlockDev, kCharDev, kDirectory} then Some (SAUNAFS_ERROR_EINVAL, m)
      else
        (case nodeTable m parent of
           None \<Rightarrow> Some (SAUNAFS_ERROR_ENOENT, m)
         | Some dir \<Rightarrow>
             if \<not> is_dir dir then Some (SAUNAFS_ERROR_ENOTDIR, m)
             else if lookup (nodeTable m) parent name \<noteq> None then Some (SAUNAFS_ERROR_EEXIST, m)
             else do {
               m1 \<leftarrow> createNode goals timestamp parent name ty (ucast mode) 0 uid gid False True ino m;
               let m2 = set_rdev ty rdev ino m1;
               Some (if inode \<noteq> ino then SAUNAFS_ERROR_MISMATCH else SAUNAFS_STATUS_OK, m2)
             }))"

section \<open>Removing nodes\<close>

definition fs_unlink :: "goal_defs \<Rightarrow> FsContext \<Rightarrow> 32 word \<Rightarrow> inode \<Rightarrow> string \<Rightarrow> 64 word \<Rightarrow> Metadata \<Rightarrow> fs_result" where
  "fs_unlink goals ctx timeStamp parent name handle m =
     (if verifySession ctx kReadWrite kNotMeta \<noteq> SAUNAFS_STATUS_OK then refuse (verifySession ctx kReadWrite kNotMeta) m
      else do {
        found \<leftarrow> getNodeForOperation ctx ExpectDirectory MODE_MASK_W parent m;
        case found of
          Inl st \<Rightarrow> refuse st m
        | Inr p \<Rightarrow>
            if nameCheck name < 0 then refuse SAUNAFS_ERROR_EINVAL m
            else (case lookup (nodeTable m) p name of
              None \<Rightarrow> refuse SAUNAFS_ERROR_ENOENT m
            | Some c \<Rightarrow>
                do {
                  dir \<leftarrow> nodeTable m p;
                  child \<leftarrow> nodeTable m c;
                  uid \<leftarrow> context_uid ctx;
                  if \<not> stickyAccess dir child uid then refuse SAUNAFS_ERROR_EPERM m
                  else if is_dir child then refuse SAUNAFS_ERROR_EPERM m
                  else do {
                    m1 \<leftarrow> unlink goals timeStamp p name c handle m;
                    Some (SAUNAFS_STATUS_OK, [LogUnlink timeStamp p name c], m1)
                  }
                })
      })"

definition fs_rmdir :: "goal_defs \<Rightarrow> FsContext \<Rightarrow> 32 word \<Rightarrow> inode \<Rightarrow> string \<Rightarrow> 64 word \<Rightarrow> Metadata \<Rightarrow> fs_result" where
  "fs_rmdir goals ctx timeStamp parent name handle m =
     (if verifySession ctx kReadWrite kNotMeta \<noteq> SAUNAFS_STATUS_OK then refuse (verifySession ctx kReadWrite kNotMeta) m
      else do {
        found \<leftarrow> getNodeForOperation ctx ExpectDirectory MODE_MASK_W parent m;
        case found of
          Inl st \<Rightarrow> refuse st m
        | Inr p \<Rightarrow>
            if nameCheck name < 0 then refuse SAUNAFS_ERROR_EINVAL m
            else (case lookup (nodeTable m) p name of
              None \<Rightarrow> refuse SAUNAFS_ERROR_ENOENT m
            | Some c \<Rightarrow>
                do {
                  dir \<leftarrow> nodeTable m p;
                  child \<leftarrow> nodeTable m c;
                  uid \<leftarrow> context_uid ctx;
                  if \<not> stickyAccess dir child uid then refuse SAUNAFS_ERROR_EPERM m
                  else if \<not> is_dir child then refuse SAUNAFS_ERROR_ENOTDIR m
                  else if n_entries child \<noteq> [] then refuse SAUNAFS_ERROR_ENOTEMPTY m
                  else do {
                    m1 \<leftarrow> unlink goals timeStamp p name c handle m;
                    Some (SAUNAFS_STATUS_OK, [LogUnlink timeStamp p name c], m1)
                  }
                })
      })"

definition applyUnlink :: "goal_defs \<Rightarrow> 32 word \<Rightarrow> inode \<Rightarrow> string \<Rightarrow> inode \<Rightarrow> 64 word \<Rightarrow> Metadata \<Rightarrow> (status \<times> Metadata) option" where
  "applyUnlink goals timestamp parent name inode handle m =
     (case nodeTable m parent of
        None \<Rightarrow> Some (SAUNAFS_ERROR_ENOENT, m)
      | Some dir \<Rightarrow>
          if \<not> is_dir dir then Some (SAUNAFS_ERROR_ENOTDIR, m)
          else (case lookup (nodeTable m) parent name of
            None \<Rightarrow> Some (SAUNAFS_ERROR_ENOENT, m)
          | Some c \<Rightarrow>
              if c \<noteq> inode then Some (SAUNAFS_ERROR_MISMATCH, m)
              else do {
                child \<leftarrow> nodeTable m c;
                if is_dir child \<and> n_entries child \<noteq> [] then Some (SAUNAFS_ERROR_ENOTEMPTY, m)
                else do {
                  m1 \<leftarrow> unlink goals timestamp parent name c handle m;
                  Some (SAUNAFS_STATUS_OK, m1)
                }
              }))"

section \<open>Links and moves\<close>

definition fs_linkOp :: "goal_defs \<Rightarrow> FsContext \<Rightarrow> inode \<Rightarrow> inode \<Rightarrow> string \<Rightarrow> Metadata \<Rightarrow> fs_result" where
  "fs_linkOp goals ctx inode_src parent_dst name_dst m =
     (if verifySession ctx kReadWrite kNotMeta \<noteq> SAUNAFS_STATUS_OK then refuse (verifySession ctx kReadWrite kNotMeta) m
      else do {
        found \<leftarrow> getNodeForOperation ctx ExpectDirectory MODE_MASK_W parent_dst m;
        case found of
          Inl st \<Rightarrow> refuse st m
        | Inr dst \<Rightarrow>
            do {
              source \<leftarrow> getNodeForOperation ctx ExpectNotDirectory MODE_MASK_EMPTY inode_src m;
              case source of
                Inl st \<Rightarrow> refuse st m
              | Inr src \<Rightarrow>
                  do {
                    node \<leftarrow> nodeTable m src;
                    if n_type node = kTrash \<or> n_type node = kReserved then refuse SAUNAFS_ERROR_ENOENT m
                    else if nameCheck name_dst < 0 then refuse SAUNAFS_ERROR_EINVAL m
                    else if lookup (nodeTable m) dst name_dst \<noteq> None then refuse SAUNAFS_ERROR_EEXIST m
                    else do {
                      ns \<leftarrow> fs_link goals (ctx_ts ctx) dst src name_dst (nodeTable m);
                      Some (SAUNAFS_STATUS_OK, if ctx_master ctx then [LogLink (ctx_ts ctx) src dst name_dst] else [], m\<lparr>nodeTable := ns\<rparr>)
                    }
                  }
            }
      })"

text \<open>What a node counts for the quotas of directories: inodes and size.\<close>

definition moveDelta :: "goal_defs \<Rightarrow> FSNode \<Rightarrow> 64 word \<times> 64 word" where
  "moveDelta goals node =
     (if is_dir node then (ucast (st_inodes (n_stats node)), st_size (n_stats node))
      else if n_type node = kFile then (1, getSize goals node)
      else (1, 1))"

text \<open>The change of usage in the target directory: the moved node less the one it replaces.\<close>

definition moveDeltas :: "goal_defs \<Rightarrow> FSNode \<Rightarrow> FSNode option \<Rightarrow> resource_list" where
  "moveDeltas goals node old =
     (case moveDelta goals node of (inodes, sz) \<Rightarrow>
        case old of
          None \<Rightarrow> [(kInodes, inodes), (kSize, sz)]
        | Some d \<Rightarrow> (case moveDelta goals d of (inodes', sz') \<Rightarrow> [(kInodes, inodes - inodes'), (kSize, sz - sz')]))"

text \<open>The end of \<open>rename\<close>, after all checks.\<close>

definition moveEdge ::
  "goal_defs \<Rightarrow> FsContext \<Rightarrow> inode \<Rightarrow> string \<Rightarrow> inode \<Rightarrow> string \<Rightarrow> inode \<Rightarrow> inode option \<Rightarrow> 64 word \<Rightarrow> Metadata \<Rightarrow> fs_result" where
  "moveEdge goals ctx src name_src dst name_dst c target handle m =
     do {
       m1 \<leftarrow> (case target of None \<Rightarrow> Some m | Some d \<Rightarrow> unlink goals (ctx_ts ctx) dst name_dst d handle m);
       ns2 \<leftarrow> removeEdge goals (ctx_ts ctx) src name_src c (nodeTable m1);
       ns3 \<leftarrow> fs_link goals (ctx_ts ctx) dst c name_dst ns2;
       Some (SAUNAFS_STATUS_OK, if ctx_master ctx then [LogMove (ctx_ts ctx) src name_src dst name_dst c] else [], m1\<lparr>nodeTable := ns3\<rparr>)
     }"

text \<open>\<open>rename\<close> once the directories and the node \<open>c\<close> that moves are known.\<close>

definition renameNode ::
  "goal_defs \<Rightarrow> FsContext \<Rightarrow> inode \<Rightarrow> string \<Rightarrow> inode \<Rightarrow> string \<Rightarrow> inode \<Rightarrow> inode \<Rightarrow> 64 word \<Rightarrow> Metadata \<Rightarrow> fs_result" where
  "renameNode goals ctx src name_src dst name_dst c inode handle m =
     do {
       srcDir \<leftarrow> nodeTable m src;
       dstDir \<leftarrow> nodeTable m dst;
       node \<leftarrow> nodeTable m c;
       if canCheckPermissions ctx \<and> \<not> stickyAccess srcDir node (ctx_uid ctx) then refuse SAUNAFS_ERROR_EPERM m
       else if \<not> ctx_master ctx \<and> c \<noteq> inode then refuse SAUNAFS_ERROR_MISMATCH m
       else do {
         below \<leftarrow> (if is_dir node then isAncestor c dst (nodeTable m) else Some False);
         if below then refuse SAUNAFS_ERROR_EINVAL m
         else if nameCheck name_dst < 0 then refuse SAUNAFS_ERROR_EINVAL m
         else if lookup (nodeTable m) dst name_dst = Some c then refuse SAUNAFS_STATUS_OK m
         else do {
           let target = lookup (nodeTable m) dst name_dst;
           old \<leftarrow> (case target of None \<Rightarrow> Some None | Some d \<Rightarrow> map_option Some (nodeTable m d));
           if (case old of None \<Rightarrow> False | Some d \<Rightarrow> is_dir d \<and> n_entries d \<noteq> []) then refuse SAUNAFS_ERROR_ENOTEMPTY m
           else if (case old of None \<Rightarrow> False | Some d \<Rightarrow> canCheckPermissions ctx \<and> \<not> stickyAccess dstDir d (ctx_uid ctx))
             then refuse SAUNAFS_ERROR_EPERM m
           else do {
             exceeded \<leftarrow> fsnodes_quota_exceeded_dir_from (quotaDatabase m) (moveDeltas goals node old) dst src (nodeTable m);
             if exceeded then refuse SAUNAFS_ERROR_QUOTA m
             else moveEdge goals ctx src name_src dst name_dst c target handle m
           }
         }
       }
     }"

definition fs_rename ::
  "goal_defs \<Rightarrow> FsContext \<Rightarrow> inode \<Rightarrow> string \<Rightarrow> inode \<Rightarrow> string \<Rightarrow> inode \<Rightarrow> 64 word \<Rightarrow> Metadata \<Rightarrow> fs_result" where
  "fs_rename goals ctx parent_src name_src parent_dst name_dst inode handle m =
     (if verifySession ctx kReadWrite kAnySession \<noteq> SAUNAFS_STATUS_OK then refuse (verifySession ctx kReadWrite kAnySession) m
      else do {
        dest \<leftarrow> getNodeForOperation ctx ExpectDirectory MODE_MASK_W parent_dst m;
        case dest of
          Inl st \<Rightarrow> refuse st m
        | Inr dst \<Rightarrow>
            do {
              source \<leftarrow> getNodeForOperation ctx ExpectDirectory MODE_MASK_W parent_src m;
              case source of
                Inl st \<Rightarrow> refuse st m
              | Inr src \<Rightarrow>
                  if nameCheck name_src < 0 then refuse SAUNAFS_ERROR_EINVAL m
                  else (case lookup (nodeTable m) src name_src of
                    None \<Rightarrow> refuse SAUNAFS_ERROR_ENOENT m
                  | Some c \<Rightarrow> renameNode goals ctx src name_src dst name_dst c inode handle m)
            }
      })"

end
