(* ===== verification/FsOpsInv.thy ===== *)
theory FsOpsInv
  imports FsOps
begin

text \<open>
  Every operation of clients answers and keeps the invariant of the metadata, whatever context it is called
  in; only moving a directory into itself never returns.
\<close>

section \<open>New links\<close>

lemma link_law:
  assumes inv: "fs_inv goals ns" "count_inv (m\<lparr>nodeTable := ns\<rparr>)" "quota_inv goals (m\<lparr>nodeTable := ns\<rparr>)" "acl_ok ns (aclStorage m)"
      "shelved (detachedOf ns) m"
    and h: "\<And>i. i \<in> dom ns \<Longrightarrow> i \<noteq> c \<Longrightarrow> (pars ns i = [] \<and> i \<noteq> SPECIAL_INODE_ROOT) \<longleftrightarrow> detachedOf ns i \<noteq> None" "detachedOf ns c = None"
    and can: "can_link ns p c name"
  shows "\<exists>ns'. fs_link goals ts p c name ns = Some ns' \<and> meta_inv goals (m\<lparr>nodeTable := ns'\<rparr>) \<and>
    pars ns' = (pars ns)(c := pars ns c @ [(p, name)]) \<and> kids ns' = (kids ns)(p := kids ns p @ [(name, c)]) \<and>
    isdir ns' = isdir ns \<and> same_core ns ns' \<and> dom ns' = dom ns"
proof -
  have t: "tree_inv ns" "stats_inv goals ns" using inv(1) by (simp_all add: fs_inv_def)
  from fs_link_law [OF t(1) can, of goals ts] t(2) obtain ns' where ns': "fs_link goals ts p c name ns = Some ns'" "tree_inv ns'"
      "same_core ns ns'" "dom ns' = dom ns" "isdir ns' = isdir ns" "pars ns' = (pars ns)(c := pars ns c @ [(p, name)])"
      "kids ns' = (kids ns)(p := kids ns p @ [(name, c)])" "\<forall>j. \<not> isdir ns j \<and> j \<noteq> c \<longrightarrow> ns' j = ns j" "stats_inv goals ns'"
    by blast
  have "detachedOf ns' c = None" using same_core_type [OF ns'(3), of c] h(2) by (cases "ns c"; cases "ns' c") (auto simp: detachedOf_def)
  then have d: "detachedOf ns' = detachedOf ns" using detachedOf_frame [OF ns'(3,8)] h(2) by auto
  have "homed ns'" using h unfolding homed_def d ns'(4,6) by auto
  moreover have "count_inv (m\<lparr>nodeTable := ns'\<rparr>)" "quota_inv goals (m\<lparr>nodeTable := ns'\<rparr>)" "acl_ok ns' (aclStorage m)"
    using inv count_inv_core [of "m\<lparr>nodeTable := ns\<rparr>" ns'] quota_inv_core [of "m\<lparr>nodeTable := ns\<rparr>" ns' goals]
      acl_ok_core [OF ns'(3)] ns'(3) by simp_all
  ultimately have "meta_inv goals (m\<lparr>nodeTable := ns'\<rparr>)"
    using ns'(2,9) d inv(5) by (simp add: meta_inv_def fs_inv_def)
  then show ?thesis using ns' by blast
qed

lemma hardlink_law:
  assumes inv: "meta_inv goals m" and p: "isdir (nodeTable m) p" "lookup (nodeTable m) p name = None"
    and c: "nodeTable m c = Some n" "\<not> is_dir n" "n_type n \<noteq> kTrash" "n_type n \<noteq> kReserved"
  shows "\<exists>ns'. fs_link goals ts p c name (nodeTable m) = Some ns' \<and> meta_inv goals (m\<lparr>nodeTable := ns'\<rparr>)"
proof -
  let ?ns = "nodeTable m"
  have i: "tree_inv ?ns" "fs_inv goals ?ns" "homed ?ns" "shelved (detachedOf ?ns) m" "count_inv m" "quota_inv goals m" "acl_ok ?ns (aclStorage m)"
    using inv by (simp_all add: meta_inv_def fs_inv_def)
  have nd: "\<not> isdir ?ns c" using c by (simp add: isdir_Some)
  moreover have "isdir ?ns SPECIAL_INODE_ROOT" using i(1) by (simp add: tree_inv_def)
  ultimately have "can_link ?ns p c name"
    using p c no_edge_below_file [OF i(1), of c p] by (auto simp: can_link_def)
  moreover have "detachedOf ?ns c = None" using c by (simp add: detachedOf_def)
  ultimately show ?thesis
    using link_law [of goals ?ns m c p name ts] i unfolding homed_def by auto
qed

section \<open>Moves\<close>

lemma unlink_table:
  assumes "unlink goals ts p name c handle m = Some m'"
  shows "\<exists>ns1. removeEdge goals ts p name c (nodeTable m) = Some ns1 \<and> (\<forall>x. x \<noteq> c \<longrightarrow> nodeTable m' x = ns1 x) \<and>
    (kids (nodeTable m') c = [] \<or> kids (nodeTable m') c = kids ns1 c)"
proof -
  have "removeNode goals c m1 = Some m' \<Longrightarrow> (\<forall>x. x \<noteq> c \<longrightarrow> nodeTable m' x = nodeTable m1 x) \<and>
      (kids (nodeTable m') c = [] \<or> kids (nodeTable m') c = kids (nodeTable m1) c)" for m1
    by (auto simp: removeNode_def releaseChunks_def kids_def Let_def split: bind_splits if_splits)
  then show ?thesis
    using assms by (fastforce simp: unlink_def set_node_def upd_def kids_def Let_def split: bind_splits if_splits option.splits)
qed

lemma lookup_remove1:
  assumes "distinct (map fst xs)"
  shows "map_of (remove1 (name, c) xs) name' = (if name' = name \<and> map_of xs name = Some c then None else map_of xs name')"
  using assms
proof (induction xs)
  case (Cons x xs)
  have "map_of xs (fst x) = None" using Cons.prems by (simp add: map_of_eq_None_iff)
  then show ?case using Cons by (cases x) auto
qed simp

text \<open>The tree after the entry that the move replaces, if any, is gone.\<close>

lemma clear_target:
  assumes inv: "meta_inv goals m" and src: "lookup (nodeTable m) src name = Some c" and dst: "isdir (nodeTable m) dst"
    and target: "target = lookup (nodeTable m) dst name'" "target \<noteq> Some c" "\<And>d. target = Some d \<Longrightarrow> kids (nodeTable m) d = []" "target \<noteq> Some dst"
    and h: "nameToId (detached m) handle = None" "counter (detached m) < kMaxIdForTrashOrReservedName"
  shows "\<exists>m1. (case target of None \<Rightarrow> Some m | Some d \<Rightarrow> unlink goals ts dst name' d handle m) = Some m1 \<and> meta_inv goals m1 \<and>
    lookup (nodeTable m1) src name = Some c \<and> isdir (nodeTable m1) dst \<and> lookup (nodeTable m1) dst name' = None \<and>
    edges (nodeTable m1) \<subseteq> edges (nodeTable m)"
proof (cases target)
  case None
  then show ?thesis using assms by simp
next
  case (Some d)
  let ?ns = "nodeTable m"
  have e: "lookup ?ns dst name' = Some d" and kd: "kids ?ns d = []" using target Some by simp_all
  obtain m1 where m1: "unlink goals ts dst name' d handle m = Some m1" "meta_inv goals m1"
    using unlink_law [OF inv e kd h] by blast
  obtain ns1 where ns1: "removeEdge goals ts dst name' d ?ns = Some ns1" "\<And>x. x \<noteq> d \<Longrightarrow> nodeTable m1 x = ns1 x"
      "kids (nodeTable m1) d = [] \<or> kids (nodeTable m1) d = kids ns1 d"
    using unlink_table [OF m1(1)] by blast
  have v: "isdir ns1 = isdir ?ns" "kids ns1 = (kids ?ns)(dst := remove1 (name', d) (kids ?ns dst))"
    using cut_law [OF inv e, of ts] ns1(1) by auto
  have t: "tree_inv ?ns" "tree_inv (nodeTable m1)" using inv m1(2) by (simp_all add: meta_inv_def fs_inv_def)
  have dist: "distinct (map fst (kids ?ns q))" for q using t(1) by (simp add: tree_inv_def)
  have w: "kids (nodeTable m1) x = kids ns1 x" "isdir (nodeTable m1) x = isdir ?ns x" if "x \<noteq> d" for x
    using ns1(2) [OF that] v(1) by (simp_all add: kids_def isdir_def fun_eq_iff)
  have "src \<noteq> d" "dst \<noteq> d" using src kd target(4) Some by (auto simp: lookup_def)
  note sd = this
  have "\<not> (src = dst \<and> name = name')" using src e target(2) Some by auto
  then have "lookup (nodeTable m1) src name = Some c"
    using src dist w(1) [OF sd(1)] by (cases "src = dst") (simp_all add: lookup_def v lookup_remove1 del: map_of_eq_Some_iff)
  moreover have "isdir (nodeTable m1) dst" "lookup (nodeTable m1) dst name' = None"
    using e dst w [OF sd(2)] dist by (simp_all add: lookup_def v lookup_remove1 del: map_of_eq_Some_iff)
  moreover have "edges (nodeTable m1) \<subseteq> edges ?ns"
  proof
    fix e' assume "e' \<in> edges (nodeTable m1)"
    then obtain q x nm where q: "e' = (q, x)" "(q, nm) \<in> set (pars (nodeTable m1) x)" by (auto simp: edges_def)
    then have k: "(nm, x) \<in> set (kids (nodeTable m1) q)" using tree_inv_edge(1) [OF t(2)] by blast
    show "e' \<in> edges ?ns"
    proof (cases "q = d")
      case True
      then show ?thesis using k ns1(3) v(2) kd sd(2) by auto
    next
      case False
      then have "(nm, x) \<in> set (kids ?ns q)" using k w(1) v(2) notin_set_remove1 by (force split: if_splits)
      then have "(q, nm) \<in> set (pars ?ns x)" using tree_inv_iff [OF t(1)] by blast
      then show ?thesis using q(1) by (force simp: edges_def)
    qed
  qed
  ultimately show ?thesis using m1 Some by simp
qed

lemma edges_shrink: "(\<And>x. set (pars ns' x) \<subseteq> set (pars ns x)) \<Longrightarrow> edges ns' \<subseteq> edges ns"
  by (auto simp: edges_def)

lemma moveEdge_law:
  assumes inv: "meta_inv goals m" and src: "lookup (nodeTable m) src name = Some c" and dst: "isdir (nodeTable m) dst"
    and above: "(c, dst) \<notin> (edges (nodeTable m))\<^sup>*"
    and target: "target = lookup (nodeTable m) dst name'" "target \<noteq> Some c" "\<And>d. target = Some d \<Longrightarrow> kids (nodeTable m) d = []"
    and h: "nameToId (detached m) handle = None" "counter (detached m) < kMaxIdForTrashOrReservedName"
  shows "\<exists>log m'. moveEdge goals ctx src name dst name' c target handle m = Some (SAUNAFS_STATUS_OK, log, m') \<and> meta_inv goals m'"
proof -
  have t: "tree_inv (nodeTable m)" using inv by (simp add: meta_inv_def fs_inv_def)
  have "target \<noteq> Some dst"
    using target(1) tree_inv_iff [OF t] tree_inv_edge(3) [OF t] by (metis lookup_def map_of_SomeD)
  from clear_target [OF inv src dst target this h, of "ctx_ts ctx"] obtain m1 where
    m1: "(case target of None \<Rightarrow> Some m | Some d \<Rightarrow> unlink goals (ctx_ts ctx) dst name' d handle m) = Some m1" "meta_inv goals m1"
      "lookup (nodeTable m1) src name = Some c" "isdir (nodeTable m1) dst" "lookup (nodeTable m1) dst name' = None"
      "edges (nodeTable m1) \<subseteq> edges (nodeTable m)"
    by blast
  let ?ns = "nodeTable m1"
  obtain n ns2 n2 where c: "?ns c = Some n" "removeEdge goals (ctx_ts ctx) src name c ?ns = Some ns2" "ns2 c = Some n2"
      "n_parents n2 = remove1 (src, name) (n_parents n)" "(src, name) \<in> set (n_parents n)"
      "fs_inv goals ns2" "count_inv (m1\<lparr>nodeTable := ns2\<rparr>)" "quota_inv goals (m1\<lparr>nodeTable := ns2\<rparr>)" "acl_ok ns2 (aclStorage m1)"
      "detachedOf ns2 = detachedOf ?ns" "detachedOf ?ns c = None" "dom ns2 = dom ?ns" "isdir ns2 = isdir ?ns" "c \<noteq> SPECIAL_INODE_ROOT"
      "pars ns2 = (pars ?ns)(c := n_parents n2)" "kids ns2 = (kids ?ns)(src := remove1 (name, c) (kids ?ns src))"
    using cut_law [OF m1(2,3), of "ctx_ts ctx"] by blast
  have t1: "tree_inv ?ns" "homed ?ns" "shelved (detachedOf ?ns) m1" using m1(2) by (simp_all add: meta_inv_def fs_inv_def)
  have pc: "pars ?ns c = n_parents n" using c(1) by (simp add: pars_Some)
  have "set (pars ns2 x) \<subseteq> set (pars ?ns x)" for x
    using c(4,15) pc set_remove1_subset [of "(src, name)" "n_parents n"] by simp
  then have "(edges ns2)\<^sup>* \<subseteq> (edges (nodeTable m))\<^sup>*"
    using edges_shrink [of ns2 ?ns] m1(6) by (intro rtrancl_mono) blast
  then have "(c, dst) \<notin> (edges ns2)\<^sup>*" using above by blast
  moreover have "pars ns2 c = []" if "isdir ns2 c"
  proof -
    have "length (n_parents n) \<le> 1" using t1(1) that c(13) pc unfolding tree_inv_def by metis
    then show ?thesis using c(4,5,15) by (cases "n_parents n") auto
  qed
  moreover have "distinct (map fst (kids ?ns src))" using t1(1) by (simp add: tree_inv_def)
  then have "lookup ns2 dst name' = None" using m1(5) by (auto simp: lookup_def c(16) lookup_remove1)
  moreover have "detachedOf ns2 c = None" using c(10,11) by simp
  then have "n_type n2 \<noteq> kTrash" using c(3) by (auto simp: detachedOf_def)
  ultimately have "can_link ns2 dst c name'" using m1(4) c(3,13,14) by (auto simp: can_link_def)
  moreover have "(pars ns2 i = [] \<and> i \<noteq> SPECIAL_INODE_ROOT) \<longleftrightarrow> detachedOf ns2 i \<noteq> None" if "i \<in> dom ns2" "i \<noteq> c" for i
    using t1(2) that unfolding homed_def c(10,12,15) by simp
  ultimately obtain ns3 where "fs_link goals (ctx_ts ctx) dst c name' ns2 = Some ns3" "meta_inv goals (m1\<lparr>nodeTable := ns3\<rparr>)"
    using link_law [of goals ns2 m1 c dst name' "ctx_ts ctx"] c(6-9,10,11) t1(3) by auto
  then show ?thesis using m1(1) c(2) by (simp add: moveEdge_def)
qed

section \<open>The operations\<close>

definition user_context :: "FsContext \<Rightarrow> bool" where
  "user_context ctx \<longleftrightarrow> ctx_hasUidGidData ctx \<and> ctx_gids ctx \<noteq> []"

lemma user_context_gets:
  assumes "user_context ctx"
  obtains gid where "context_uid ctx = Some (ctx_uid ctx)" "context_gid ctx = Some gid"
  using assms by (cases "ctx_gids ctx") (auto simp: user_context_def context_uid_def context_gid_def)

lemma workDir_cases:
  assumes "meta_inv goals m"
  obtains st where "getNodeForOperation ctx ExpectDirectory modeMask i m = Some (Inl st)"
  | p d where "getNodeForOperation ctx ExpectDirectory modeMask i m = Some (Inr p)" "isdir (nodeTable m) p" "nodeTable m p = Some d"
proof -
  obtain r where r: "getNodeForOperation ctx ExpectDirectory modeMask i m = Some r"
      "\<And>c. r = Inr c \<Longrightarrow> \<exists>node. nodeTable m c = Some node \<and> expectedType ExpectDirectory node = SAUNAFS_STATUS_OK"
    using getNodeForOperation_law [OF assms] by blast
  show thesis
  proof (cases r)
    case (Inl st)
    then show ?thesis using r that(1) by blast
  next
    case (Inr p)
    then obtain node where "nodeTable m p = Some node" "is_dir node" using r(2) by (force simp: expectedType_def split: if_splits)
    then show ?thesis using r(1) Inr that(2) [of p node] by (simp add: isdir_Some)
  qed
qed

lemma checkQuotaUgDir_ends:
  assumes "meta_inv goals m"
  obtains st where "checkQuotaUgDir uid gid p rs m = Some st"
  using assms quota_exceeded_dir_law [of "nodeTable m"]
  by (cases "fsnodes_quota_exceeded_ug (quotaDatabase m) uid gid rs") (auto simp: checkQuotaUgDir_def meta_inv_def fs_inv_def)

lemma set_rdev_law:
  assumes inv: "meta_inv goals m" and n: "nodeTable m i = Some n"
  shows "meta_inv goals (set_rdev ty rdev i m)" "\<exists>n'. nodeTable (set_rdev ty rdev i m) i = Some n'"
proof -
  let ?ns = "nodeTable m" and ?n = "n\<lparr>n_rdev := rdev\<rparr>"
  let ?m = "m\<lparr>nodeTable := ?ns(i \<mapsto> ?n)\<rparr>"
  have t: "tree_inv ?ns" "fs_inv goals ?ns" "shelved (detachedOf ?ns) m" "quota_inv goals m" using inv by (simp_all add: meta_inv_def fs_inv_def)
  have fin: "finite (dom ?ns)" "finite (dom (detachedOf ?ns))" using finite_dom [OF t(1)] finite_detachedOf by blast+
  have "charge goals ?n r = charge goals n r" "owned owner ?n = owned owner n" for r owner
    by (rule charge_cong, simp_all) (cases "(owner, n)" rule: owned.cases, simp_all)
  then have "quota_inv goals ?m" by (intro quota_inv_replace [OF t(4) fin(1) n, where n' = ?n and m' = ?m]) simp_all
  moreover have "shelved (detachedOf (?ns(i \<mapsto> ?n))) ?m"
    using shelved_length [OF t(3) fin(2) n, of ?n] by (simp add: updateDetachedSpaceUsage_def trashPathKey_def)
  moreover have "fs_inv goals (?ns(i \<mapsto> ?n))" "pars (?ns(i \<mapsto> ?n)) = pars ?ns" using attr_replace [of ?ns i n ?n] n t(2) by simp_all
  ultimately have "meta_inv goals ?m" using meta_inv_replace [OF inv n, of ?n ?m] by (simp del: detachedOf_upd)
  then show "meta_inv goals (set_rdev ty rdev i m)" using inv n by (simp add: set_rdev_def set_node_eq)
  show "\<exists>n'. nodeTable (set_rdev ty rdev i m) i = Some n'" using n by (simp add: set_rdev_def set_node_eq)
qed

lemma created_with_rdev:
  assumes inv: "meta_inv goals m" and p: "isdir (nodeTable m) parent" "lookup (nodeTable m) parent name = None"
    and ino: "nodeTable m ino = None" and ty: "ty \<noteq> kTrash" "ty \<noteq> kReserved" "ty \<noteq> kUnknown"
  shows "\<exists>m1 n'. createNode goals ts parent name ty mode umask uid gid copysgid inheritAcl ino m = Some m1 \<and>
    meta_inv goals (set_rdev ty rdev ino m1) \<and> nodeTable (set_rdev ty rdev ino m1) ino = Some n' \<and> meta_inv goals m1 \<and> nodeTable m1 ino \<noteq> None"
proof -
  obtain m1 where m1: "createNode goals ts parent name ty mode umask uid gid copysgid inheritAcl ino m = Some m1" "meta_inv goals m1"
      "dom (nodeTable m1) = insert ino (dom (nodeTable m))"
    using createNode_law [OF assms] by blast
  then obtain n where "nodeTable m1 ino = Some n" by blast
  then show ?thesis using m1 set_rdev_law [OF m1(2)] by blast
qed

lemma fs_mknod_law:
  assumes inv: "meta_inv goals m" and ctx: "user_context ctx" and ino: "nodeTable m ino = None"
  shows "\<exists>st log m'. fs_mknod goals ctx ts parent name ty mode umask rdev ino m = Some (st, log, m') \<and> meta_inv goals m'"
proof (cases "verifySession ctx kReadWrite kNotMeta \<noteq> SAUNAFS_STATUS_OK \<or> ty \<notin> {kFile, kSocket, kFifo, kBlockDev, kCharDev}")
  case True
  then show ?thesis using inv by (auto simp: fs_mknod_def refuse_def)
next
  case False
  then have ty: "ty \<noteq> kTrash" "ty \<noteq> kReserved" "ty \<noteq> kUnknown" by auto
  obtain gid where g: "context_uid ctx = Some (ctx_uid ctx)" "context_gid ctx = Some gid" using user_context_gets [OF ctx] .
  show ?thesis
  proof (cases rule: workDir_cases [OF inv, of ctx MODE_MASK_W parent])
    case (1 st)
    then show ?thesis using inv False by (auto simp: fs_mknod_def refuse_def)
  next
    case (2 p d)
    obtain st where q: "checkQuotaUgDir (ctx_uid ctx) gid p [(kInodes, 1)] m = Some st" using checkQuotaUgDir_ends [OF inv] .
    show ?thesis
    proof (cases "lookup (nodeTable m) p name")
      case None
      then show ?thesis
        using created_with_rdev [OF inv 2(2) None ino ty, of ts mode umask "ctx_uid ctx" gid False True rdev] False 2 g q inv
        by (auto simp: fs_mknod_def refuse_def)
    next
      case (Some c)
      then show ?thesis using False 2 inv by (auto simp: fs_mknod_def refuse_def)
    qed
  qed
qed

lemma fs_mkdir_law:
  assumes inv: "meta_inv goals m" and ctx: "user_context ctx" and ino: "nodeTable m ino = None"
  shows "\<exists>st log m'. fs_mkdir goals ctx ts parent name mode umask copysgid depleted ino m = Some (st, log, m') \<and> meta_inv goals m'"
proof (cases "verifySession ctx kReadWrite kNotMeta \<noteq> SAUNAFS_STATUS_OK")
  case True
  then show ?thesis using inv by (auto simp: fs_mkdir_def refuse_def)
next
  case False
  obtain gid where g: "context_uid ctx = Some (ctx_uid ctx)" "context_gid ctx = Some gid" using user_context_gets [OF ctx] .
  show ?thesis
  proof (cases rule: workDir_cases [OF inv, of ctx MODE_MASK_W parent])
    case (1 st)
    then show ?thesis using inv False by (auto simp: fs_mkdir_def refuse_def)
  next
    case (2 p d)
    obtain st where q: "checkQuotaUgDir (ctx_uid ctx) gid p [(kInodes, 1)] m = Some st" using checkQuotaUgDir_ends [OF inv] .
    show ?thesis
    proof (cases "lookup (nodeTable m) p name")
      case None
      then show ?thesis
        using created_with_rdev [OF inv 2(2) None ino, of kDirectory ts mode umask "ctx_uid ctx" gid copysgid True 0] False 2 g q inv
        by (auto simp: fs_mkdir_def refuse_def)
    next
      case (Some c)
      then show ?thesis using False 2 inv by (auto simp: fs_mkdir_def refuse_def)
    qed
  qed
qed

lemma fs_unlink_law:
  assumes inv: "meta_inv goals m" and ctx: "user_context ctx"
    and h: "nameToId (detached m) handle = None" "counter (detached m) < kMaxIdForTrashOrReservedName"
  shows "\<exists>st log m'. fs_unlink goals ctx ts parent name handle m = Some (st, log, m') \<and> meta_inv goals m'"
proof (cases "verifySession ctx kReadWrite kNotMeta \<noteq> SAUNAFS_STATUS_OK")
  case True
  then show ?thesis using inv by (auto simp: fs_unlink_def refuse_def)
next
  case False
  obtain gid where g: "context_uid ctx = Some (ctx_uid ctx)" using user_context_gets [OF ctx] .
  show ?thesis
  proof (cases rule: workDir_cases [OF inv, of ctx MODE_MASK_W parent])
    case (1 st)
    then show ?thesis using inv False by (auto simp: fs_unlink_def refuse_def)
  next
    case (2 p d)
    show ?thesis
    proof (cases "lookup (nodeTable m) p name")
      case None
      then show ?thesis using False 2 inv by (auto simp: fs_unlink_def refuse_def)
    next
      case (Some c)
      obtain n where n: "nodeTable m c = Some n" using cut_law [OF inv Some] by blast
      have "kids (nodeTable m) c = []" if "\<not> is_dir n"
        using inv n that by (auto simp: meta_inv_def fs_inv_def tree_inv_def isdir_Some)
      then show ?thesis
        using unlink_law [OF inv Some _ h, of ts] False 2 g n inv Some by (cases "is_dir n") (auto simp: fs_unlink_def refuse_def)
    qed
  qed
qed

lemma fs_rmdir_law:
  assumes inv: "meta_inv goals m" and ctx: "user_context ctx"
    and h: "nameToId (detached m) handle = None" "counter (detached m) < kMaxIdForTrashOrReservedName"
  shows "\<exists>st log m'. fs_rmdir goals ctx ts parent name handle m = Some (st, log, m') \<and> meta_inv goals m'"
proof (cases "verifySession ctx kReadWrite kNotMeta \<noteq> SAUNAFS_STATUS_OK")
  case True
  then show ?thesis using inv by (auto simp: fs_rmdir_def refuse_def)
next
  case False
  obtain gid where g: "context_uid ctx = Some (ctx_uid ctx)" using user_context_gets [OF ctx] .
  show ?thesis
  proof (cases rule: workDir_cases [OF inv, of ctx MODE_MASK_W parent])
    case (1 st)
    then show ?thesis using inv False by (auto simp: fs_rmdir_def refuse_def)
  next
    case (2 p d)
    show ?thesis
    proof (cases "lookup (nodeTable m) p name")
      case None
      then show ?thesis using False 2 inv by (auto simp: fs_rmdir_def refuse_def)
    next
      case (Some c)
      obtain n where n: "nodeTable m c = Some n" using cut_law [OF inv Some] by blast
      have "kids (nodeTable m) c = n_entries n" using n by (simp add: kids_Some)
      then show ?thesis
        using unlink_law [OF inv Some _ h, of ts] False 2 g n inv Some by (cases "n_entries n = []") (auto simp: fs_rmdir_def refuse_def)
    qed
  qed
qed

lemma fs_linkOp_law:
  assumes inv: "meta_inv goals m"
  shows "\<exists>st log m'. fs_linkOp goals ctx inode_src parent_dst name m = Some (st, log, m') \<and> meta_inv goals m'"
proof (cases "verifySession ctx kReadWrite kNotMeta \<noteq> SAUNAFS_STATUS_OK")
  case True
  then show ?thesis using inv by (auto simp: fs_linkOp_def refuse_def)
next
  case False
  show ?thesis
  proof (cases rule: workDir_cases [OF inv, of ctx MODE_MASK_W parent_dst])
    case (1 st)
    then show ?thesis using inv False by (auto simp: fs_linkOp_def refuse_def)
  next
    case (2 p d)
    obtain r where r: "getNodeForOperation ctx ExpectNotDirectory MODE_MASK_EMPTY inode_src m = Some r"
        "\<And>c. r = Inr c \<Longrightarrow> \<exists>node. nodeTable m c = Some node \<and> expectedType ExpectNotDirectory node = SAUNAFS_STATUS_OK"
      using getNodeForOperation_law [OF inv] by blast
    show ?thesis
    proof (cases r)
      case (Inl st)
      then show ?thesis using False 2 r(1) inv by (auto simp: fs_linkOp_def refuse_def)
    next
      case (Inr c)
      then obtain n where n: "nodeTable m c = Some n" "\<not> is_dir n" using r(2) by (force simp: expectedType_def split: if_splits)
      then show ?thesis
        using hardlink_law [OF inv 2(2) _ n, of name "ctx_ts ctx"] False 2 r(1) inv Inr
        by (cases "lookup (nodeTable m) p name = None \<and> n_type n \<noteq> kTrash \<and> n_type n \<noteq> kReserved") (auto simp: fs_linkOp_def refuse_def)
    qed
  qed
qed

lemma createNode_node:
  assumes inv: "meta_inv goals m" and p: "isdir (nodeTable m) parent" "lookup (nodeTable m) parent name = None" "nodeTable m parent = Some d"
    and ino: "nodeTable m ino = None" and ty: "ty \<noteq> kTrash" "ty \<noteq> kReserved" "ty \<noteq> kUnknown"
    and r: "createNode goals ts parent name ty mode umask uid gid copysgid inheritAcl ino m = Some m'"
  shows "\<exists>n. nodeTable m' ino = Some n \<and> core n = core (ownNode uid gid copysgid d
    (fst (inheritInto (if inheritAcl then acl_of (aclStorage m) parent else None) umask (initNode ts ty mode d))))"
proof -
  let ?pa = "if inheritAcl then acl_of (aclStorage m) parent else None"
  obtain node0 acl where inh: "inheritInto ?pa umask (initNode ts ty mode d) = (node0, acl)" by fastforce
  define node where "node = ownNode uid gid copysgid d node0"
  note f = created_node [OF inh node_def]
  have i: "fs_inv goals (nodeTable m)" using inv by (simp add: meta_inv_def)
  obtain ns' where ns': "fs_link goals ts parent ino name ((nodeTable m)(ino \<mapsto> node)) = Some ns'" "same_core ((nodeTable m)(ino \<mapsto> node)) ns'"
    using link_new_law [OF i ino f(2,3) _ _ p(1,2), of ts] f(1,4,5) ty by auto
  have "(if inheritAcl then acl_get (aclStorage m) parent else Some None) = Some ?pa" using acl_facts(2) [OF inv] by simp
  then have "nodeTable m' = ns'"
    using r ns'(1) ty p(3) inh
    by (auto simp: createNode_def Let_def node_def [symmetric] split: bind_splits if_splits)
  moreover have "map_option core (ns' ino) = Some (core node)" using ns'(2) unfolding same_core_def by (metis fun_upd_same option.simps(9))
  ultimately show ?thesis using inh by (auto simp: node_def)
qed

lemma symlink_stats:
  assumes "n_type n = kSymlink" "n_path_length n = 0" "length path \<le> 65535"
  shows "getStats goals (n\<lparr>n_path := path, n_path_length := of_nat (length path)\<rparr>) - getStats goals n =
    StatsRecord 0 0 0 0 0 (of_nat (length path)) 0 0"
proof -
  have "ucast (of_nat (length path) :: 16 word) = (of_nat (length path) :: 64 word)"
    using assms(3) by (simp add: unsigned_of_nat take_bit_nat_eq_self)
  then show ?thesis using assms by (simp add: getStats_def is_file_def)
qed

lemma symlink_target_law:
  assumes inv: "meta_inv goals m" and n: "nodeTable m i = Some n" "n_type n = kSymlink" "n_path_length n = 0" "pars (nodeTable m) i = [(p, name)]"
    and path: "length path \<le> 65535"
  shows "\<exists>ns. addStats (StatsRecord 0 0 0 0 0 (of_nat (length path)) 0 0) p
      ((nodeTable m)(i \<mapsto> n\<lparr>n_path := path, n_path_length := of_nat (length path)\<rparr>)) = Some ns \<and> meta_inv goals (m\<lparr>nodeTable := ns\<rparr>)"
proof -
  let ?ns = "nodeTable m" and ?n = "n\<lparr>n_path := path, n_path_length := of_nat (length path)\<rparr>"
  have t: "tree_inv ?ns" "stats_inv goals ?ns" "shelved (detachedOf ?ns) m" "quota_inv goals m" using inv by (simp_all add: meta_inv_def fs_inv_def)
  have fin: "finite (dom ?ns)" "finite (dom (detachedOf ?ns))" using finite_dom [OF t(1)] finite_detachedOf by blast+
  have nd: "\<not> is_dir n" "\<not> is_dir ?n" using n(2) by simp_all
  from file_change_law [OF t(1) n(1) nd, of goals] t(2) obtain ns where
    ns: "updateParentStatsForNode (getStats goals ?n) (getStats goals n) i (?ns(i \<mapsto> ?n)) = Some ns" "same_tree ?ns ns"
      "stats_only (?ns(i \<mapsto> ?n)) ns" "stats_inv goals ns" by auto
  have "pars (?ns(i \<mapsto> ?n)) i = [(p, name)]" using n(1,4) by (simp add: pars_def)
  then have r: "addStats (StatsRecord 0 0 0 0 0 (of_nat (length path)) 0 0) p (?ns(i \<mapsto> ?n)) = Some ns"
    using ns(1) symlink_stats [OF n(2,3) path, of goals] by (simp add: updateParentStatsForNode_def addSubStats_def split: option.splits)
  have "charge goals ?n r = charge goals n r" "owned owner ?n = owned owner n" for r owner
    using n(2) by (cases r; simp add: is_file_def) (cases "(owner, n)" rule: owned.cases, simp_all)
  then have "quota_inv goals (m\<lparr>nodeTable := ?ns(i \<mapsto> ?n)\<rparr>)"
    by (intro quota_inv_replace [OF t(4) fin(1) n(1), where n' = ?n and m' = "m\<lparr>nodeTable := ?ns(i \<mapsto> ?n)\<rparr>"]) simp_all
  moreover have "shelved (detachedOf (?ns(i \<mapsto> ?n))) m"
    using shelved_length [OF t(3) fin(2) n(1), of ?n] by (simp add: updateDetachedSpaceUsage_def trashPathKey_def)
  moreover have "fs_inv goals ns" using ns(2,4) t(1) tree_inv_same by (simp add: fs_inv_def)
  ultimately have "meta_inv goals (m\<lparr>nodeTable := ns\<rparr>)"
    using meta_inv_replace [OF inv n(1), of ?n "m\<lparr>nodeTable := ns\<rparr>"] ns(2,3) same_core_stats detachedOf_stats_only
    by (simp add: same_tree_def quota_inv_def del: detachedOf_upd)
  then show ?thesis using r by blast
qed

lemma new_symlink_law:
  assumes inv: "meta_inv goals m" and p: "isdir (nodeTable m) p" "lookup (nodeTable m) p name = None" "nodeTable m p = Some d"
    and ino: "nodeTable m ino = None" and path: "length path \<le> 65535"
  shows "\<exists>m1 ns. createNode goals ts p name kSymlink kStandardPermissionsMask 0 uid gid False False ino m = Some m1 \<and>
    addStats (StatsRecord 0 0 0 0 0 (of_nat (length path)) 0 0) p
      (nodeTable (set_node ino (\<lambda>n. n\<lparr>n_path := path, n_path_length := of_nat (length path)\<rparr>) m1)) = Some ns \<and>
    meta_inv goals (m1\<lparr>nodeTable := ns\<rparr>)"
proof -
  obtain m1 where m1: "createNode goals ts p name kSymlink kStandardPermissionsMask 0 uid gid False False ino m = Some m1" "meta_inv goals m1"
      "pars (nodeTable m1) = (pars (nodeTable m))(ino := [(p, name)])"
    using createNode_law [OF inv p(1,2) ino, of kSymlink ts kStandardPermissionsMask 0 uid gid False False] by auto
  obtain n where n: "nodeTable m1 ino = Some n" "core n = core (ownNode uid gid False d (fst (inheritInto None 0 (initNode ts kSymlink kStandardPermissionsMask d))))"
    using createNode_node [OF inv p ino _ _ _ m1(1)] by auto
  have "n_type n = kSymlink" "n_path_length n = 0"
    using arg_cong [OF n(2), of n_type] arg_cong [OF n(2), of n_path_length]
    by (simp_all add: ownNode_def inheritInto_def initNode_def newNode_def Let_def core_def split: if_splits)
  then show ?thesis using symlink_target_law [OF m1(2) n(1) _ _ _ path, of p name] m1 n(1) by (simp add: set_node_eq)
qed

lemma fs_symlink_law:
  assumes inv: "meta_inv goals m" and ctx: "user_context ctx" "ctx_master ctx \<Longrightarrow> requested = 0" and ino: "nodeTable m ino = None"
    and path: "length path \<le> 65535"
  shows "\<exists>st log m'. fs_symlink goals ctx parent name path requested ino m = Some (st, log, m') \<and> meta_inv goals m'"
proof (cases "verifySession ctx kReadWrite kNotMeta \<noteq> SAUNAFS_STATUS_OK")
  case True
  then show ?thesis using inv by (auto simp: fs_symlink_def refuse_def)
next
  case False
  obtain gid where g: "context_uid ctx = Some (ctx_uid ctx)" "context_gid ctx = Some gid" using user_context_gets [OF ctx(1)] .
  show ?thesis
  proof (cases rule: workDir_cases [OF inv, of ctx MODE_MASK_W parent])
    case (1 st)
    then show ?thesis using inv False by (auto simp: fs_symlink_def refuse_def)
  next
    case (2 p d)
    obtain st0 where "checkQuotaUgDir (ctx_uid ctx) gid p [(kInodes, 1)] m = Some st0" using checkQuotaUgDir_ends [OF inv] .
    then obtain st where q: "(if ctx_master ctx then checkQuotaUgDir (ctx_uid ctx) gid p [(kInodes, 1)] m else Some SAUNAFS_STATUS_OK) = Some st"
      by (cases "ctx_master ctx") auto
    show ?thesis
    proof (cases "path = [] \<or> CHR 0x00 \<in> set path \<or> nameCheck name < 0 \<or> lookup (nodeTable m) p name \<noteq> None \<or> st \<noteq> SAUNAFS_STATUS_OK")
      case True
      then show ?thesis using False 2 inv g q by (auto simp: fs_symlink_def refuse_def)
    next
      case ok: False
      obtain m1 ns where "createNode goals (ctx_ts ctx) p name kSymlink kStandardPermissionsMask 0 (ctx_uid ctx) gid False False ino m = Some m1"
          "addStats (StatsRecord 0 0 0 0 0 (of_nat (length path)) 0 0) p
            (nodeTable (set_node ino (\<lambda>n. n\<lparr>n_path := path, n_path_length := of_nat (length path)\<rparr>) m1)) = Some ns"
          "meta_inv goals (m1\<lparr>nodeTable := ns\<rparr>)"
        using new_symlink_law [OF inv 2(2) _ 2(3) ino path] ok by blast
      then show ?thesis using ok False 2(1) g q ctx(2) by (cases "ctx_master ctx") (simp_all add: fs_symlink_def refuse_def set_node_def)
    qed
  qed
qed

lemma renameNode_law:
  assumes inv: "meta_inv goals m" and src: "lookup (nodeTable m) src name_src = Some c" and dst: "isdir (nodeTable m) dst" and "c \<noteq> dst"
    and h: "nameToId (detached m) handle = None" "counter (detached m) < kMaxIdForTrashOrReservedName"
  shows "\<exists>st log m'. renameNode goals ctx src name_src dst name_dst c inode handle m = Some (st, log, m') \<and> meta_inv goals m'"
proof -
  let ?ns = "nodeTable m" and ?target = "lookup (nodeTable m) dst name_dst"
  have t: "tree_inv ?ns" using inv by (simp add: meta_inv_def fs_inv_def)
  obtain n where n: "?ns c = Some n" "isdir ?ns src" using cut_law [OF inv src] by blast
  then obtain sd dd where d: "?ns src = Some sd" "?ns dst = Some dd" using dst by (auto simp: isdir_def split: option.splits)
  have b: "(if is_dir n then isAncestor c dst ?ns else Some False) = Some ((c, dst) \<in> (edges ?ns)\<^sup>+)"
    using isAncestor_law [OF t] no_edge_below_file [OF t, of c dst] n(1) dst \<open>c \<noteq> dst\<close> by (auto simp: isdir_Some dest: trancl_into_rtrancl)
  obtain old where old: "(case ?target of None \<Rightarrow> Some None | Some x \<Rightarrow> map_option Some (?ns x)) = Some old"
      "\<And>x. ?target = Some x \<Longrightarrow> \<exists>o'. old = Some o' \<and> ?ns x = Some o'"
    using cut_law [OF inv, of dst name_dst] by (cases ?target) fastforce+
  have k: "kids ?ns x = []" if tg: "?target = Some x" "\<not> (case old of None \<Rightarrow> False | Some o' \<Rightarrow> is_dir o' \<and> n_entries o' \<noteq> [])" for x
  proof -
    obtain o' where "old = Some o'" "?ns x = Some o'" using old(2) [OF tg(1)] by blast
    moreover have "kids ?ns x \<noteq> [] \<longrightarrow> isdir ?ns x" using t by (simp add: tree_inv_def)
    ultimately show ?thesis using tg(2) by (auto simp: kids_Some isdir_Some)
  qed
  obtain e where e: "fsnodes_quota_exceeded_dir_from (quotaDatabase m) (moveDeltas goals n old) dst src ?ns = Some e"
    using quota_exceeded_dir_from_law [OF t dst n(2)] by blast
  have up: "(c, dst) \<notin> (edges ?ns)\<^sup>*" if "(c, dst) \<notin> (edges ?ns)\<^sup>+" using that \<open>c \<noteq> dst\<close> by (simp add: rtrancl_eq_or_trancl)
  have mv: "\<exists>st log m'. moveEdge goals ctx src name_src dst name_dst c ?target handle m = Some (st, log, m') \<and> meta_inv goals m'"
    if "(c, dst) \<notin> (edges ?ns)\<^sup>+" "?target \<noteq> Some c" "\<not> (case old of None \<Rightarrow> False | Some o' \<Rightarrow> is_dir o' \<and> n_entries o' \<noteq> [])"
    using moveEdge_law [OF inv src dst up [OF that(1)] refl that(2) k [OF _ that(3)] h, where ctx = ctx] by blast
  show ?thesis
    unfolding renameNode_def n(1) d refuse_def bind.bind_lunit b old(1) Let_def e
    using mv inv by (simp split del: if_split split: if_split)
qed

lemma fs_rename_law:
  assumes inv: "meta_inv goals m"
    and self: "\<And>src dst. candidate ctx parent_src m = Some (Inr src) \<Longrightarrow> candidate ctx parent_dst m = Some (Inr dst) \<Longrightarrow>
      lookup (nodeTable m) src name_src \<noteq> Some dst"
    and h: "nameToId (detached m) handle = None" "counter (detached m) < kMaxIdForTrashOrReservedName"
  shows "\<exists>st log m'. fs_rename goals ctx parent_src name_src parent_dst name_dst inode handle m = Some (st, log, m') \<and> meta_inv goals m'"
proof (cases "verifySession ctx kReadWrite kAnySession \<noteq> SAUNAFS_STATUS_OK")
  case True
  then show ?thesis using inv by (auto simp: fs_rename_def refuse_def)
next
  case ok: False
  have t: "tree_inv (nodeTable m)" using inv by (simp add: meta_inv_def fs_inv_def)
  show ?thesis
  proof (cases rule: workDir_cases [OF inv, of ctx MODE_MASK_W parent_dst])
    case (1 st)
    then show ?thesis using inv ok by (auto simp: fs_rename_def refuse_def)
  next
    case dst: (2 dst dd)
    show ?thesis
    proof (cases rule: workDir_cases [OF inv, of ctx MODE_MASK_W parent_src])
      case (1 st)
      then show ?thesis using inv ok dst by (auto simp: fs_rename_def refuse_def)
    next
      case src: (2 src sd)
      show ?thesis
      proof (cases "lookup (nodeTable m) src name_src")
        case None
        then show ?thesis using inv ok dst src by (auto simp: fs_rename_def refuse_def)
      next
        case (Some c)
        obtain n where n: "nodeTable m c = Some n" using cut_law [OF inv Some] by blast
        have "candidate ctx parent_src m = Some (Inr src)" "candidate ctx parent_dst m = Some (Inr dst)"
          using getNodeForOperation_law [OF inv] src(1) dst(1) by (metis option.inject)+
        then have "c \<noteq> dst" using self Some by auto
        from renameNode_law [OF inv Some dst(2) this h, of ctx name_dst inode] show ?thesis
          using ok dst src Some inv by (auto simp: fs_rename_def refuse_def)
      qed
    qed
  qed
qed

end
