(* ===== verification/FsInherit.thy ===== *)
theory FsInherit
  imports FsOpsInv
begin

text \<open>
  A replica makes a node from the mode that the master logged, without a umask. This theory shows that
  inheriting an access control list a second time, from the mode that came out of the first time, gives the
  same list and the same mode (\<open>inheritInode\<close> of \<open>src/src/common/richacl.cc\<close> and \<open>createNodeWithIdInternal\<close> of
  \<open>src/src/master/filesystem_node.cc\<close>).
\<close>

unbundle bit_operations_syntax

section \<open>Inheriting twice\<close>

lemma convertMode2Mask_cong: "(\<And>n. n < 3 \<Longrightarrow> bit a n = bit b n) \<Longrightarrow> convertMode2Mask a = convertMode2Mask b"
  by (rule bit_word_eqI) (simp add: bit_convertMode2Mask)

lemma bit_standard [simp]: "bit kStandardPermissionsMask n \<longleftrightarrow> n < 9"
  using bit_mask_iff [of 9 n, where 'a = "16 word"] by (auto simp: mask_eq_exp_minus_1 kStandardPermissionsMask_def)

text \<open>Whether a list is equivalent to a mode, and to which, does not depend on the mode that is passed in.\<close>

definition fixed_part :: "RichACL \<Rightarrow> bool \<Rightarrow> 16 word option" where
  "fixed_part acl dirp = (case equivMode acl 0 dirp of (True, p) \<Rightarrow> Some p | (False, p) \<Rightarrow> None)"

lemma keep_low:
  fixes p :: "16 word"
  shows "convertMode2Mask (drop_bit 6 ((m AND NOT kStandardPermissionsMask) OR p)) = convertMode2Mask (drop_bit 6 p)"
    "convertMode2Mask (drop_bit 3 ((m AND NOT kStandardPermissionsMask) OR p)) = convertMode2Mask (drop_bit 3 p)"
    "convertMode2Mask ((m AND NOT kStandardPermissionsMask) OR p) = convertMode2Mask p"
  by (rule convertMode2Mask_cong, simp only: bit_drop_bit_eq o_apply bit_or_iff bit_andnot bit_standard, simp)+

lemma equivMode_fixed:
  "equivMode acl m dirp = (case fixed_part acl dirp of None \<Rightarrow> (False, m) | Some p \<Rightarrow> (True, (m AND NOT kStandardPermissionsMask) OR p))"
proof -
  define x where "x = (if dirp then 0 else kDeleteChild)"
  define s0 where "s0 = \<lparr>owner_allowed = 0, owner_defined = kPosixAlwaysAllowed OR kPosixOwnerAllowed OR x,
                group_allowed = 0, group_defined = kPosixAlwaysAllowed OR x,
                everyone_allowed = 0, everyone_defined = kPosixAlwaysAllowed OR x\<rparr>"
  note e = equivMode_def [where is_dir = dirp, folded kStandardPermissionsMask_def x_def, unfolded Let_def, folded s0_def]
  have a: "bit (acl_flags acl AND NOT (kWriteThrough OR kMasked)) 5" if "isAutoSetMode acl"
    using that unfolding acl_bits bit_andnot bit_or_iff by (simp add: acl_consts)
  show ?thesis
  proof (cases "acl_flags acl AND NOT (kWriteThrough OR kMasked) = 0")
    case False
    then show ?thesis by (simp add: e fixed_part_def)
  next
    case True
    then have "\<not> isAutoSetMode acl" using a by auto
    with True show ?thesis
    proof (cases "equiv_loop (ace_list acl) s0")
      case (Some s)
      define oa where "oa = (if isMasked acl then (if isWriteThrough acl then owner_mask acl else owner_allowed s AND owner_mask acl) else owner_allowed s)"
      define ea where "ea = (if isMasked acl then (if isWriteThrough acl then other_mask acl else everyone_allowed s AND other_mask acl) else everyone_allowed s)"
      define ga where "ga = (if isMasked acl then group_allowed s AND group_mask acl else group_allowed s)"
      define p where "p = push_bit 6 (convertMask2Mode oa) OR push_bit 3 (convertMask2Mode ga) OR convertMask2Mode ea"
      have e': "equivMode acl m dirp = (if group_allowed s AND NOT (owner_defined s) \<noteq> 0 \<or>
          (convertMode2Mask (drop_bit 6 p) XOR oa) AND NOT x \<noteq> 0 \<or> (convertMode2Mask (drop_bit 3 p) XOR ga) AND NOT x \<noteq> 0 \<or>
          (convertMode2Mask p XOR ea) AND NOT x \<noteq> 0 then (False, m) else (True, (m AND NOT kStandardPermissionsMask) OR p))" for m
        unfolding e Some option.case oa_def [symmetric] ea_def [symmetric] ga_def [symmetric] p_def [symmetric] keep_low
        using True \<open>\<not> isAutoSetMode acl\<close>
        by (cases "group_allowed s AND NOT (owner_defined s) = 0") (simp_all only: simp_thms if_False if_True not_False_eq_True)
      show ?thesis by (simp add: e' fixed_part_def)
    qed (simp add: e fixed_part_def)
  qed
qed

lemma mask_inherit:
  assumes "Y = X AND convertMode2Mask m"
  shows "X AND convertMode2Mask (convertMask2Mode Y) = Y"
proof (rule bit_word_eqI)
  fix n assume "n < LENGTH(32)"
  have "Y AND kPosixModeRead \<noteq> 0 \<longleftrightarrow> bit Y 0" "Y AND kPosixModeWrite \<noteq> 0 \<longleftrightarrow> bit Y 1 \<or> bit Y 2 \<or> bit Y 6" "Y AND kPosixModeExec \<noteq> 0 \<longleftrightarrow> bit Y 5"
    by (auto simp: and_zero_bits bit_posix_masks)
  then show "bit (X AND convertMode2Mask (convertMask2Mode Y)) n = bit Y n"
    unfolding assms by (auto simp: bit_and_iff bit_convertMode2Mask bit_convertMask2Mode)
qed

lemma getMode_parts:
  assumes "M AND kStandardPermissionsMask = getMode acl"
  shows "convertMode2Mask (drop_bit 6 M) = convertMode2Mask (convertMask2Mode (owner_mask acl))"
    "convertMode2Mask (drop_bit 3 M) = convertMode2Mask (convertMask2Mode (group_mask acl))"
    "convertMode2Mask M = convertMode2Mask (convertMask2Mode (other_mask acl))"
proof -
  have b: "bit M n = bit (getMode acl) n" if "n < 9" for n
    using that arg_cong [OF assms, of "\<lambda>w. bit w n"] by (simp add: bit_and_iff)
  have g: "bit (getMode acl) n \<longleftrightarrow> (6 \<le> n \<and> bit (convertMask2Mode (owner_mask acl)) (n - 6)) \<or>
      (3 \<le> n \<and> bit (convertMask2Mode (group_mask acl)) (n - 3)) \<or> bit (convertMask2Mode (other_mask acl)) n" if "n < 9" for n
    using that by (auto simp: getMode_def bit_or_iff bit_push_bit_iff bit_convertMask2Mode)
  show "convertMode2Mask (drop_bit 6 M) = convertMode2Mask (convertMask2Mode (owner_mask acl))"
    "convertMode2Mask (drop_bit 3 M) = convertMode2Mask (convertMask2Mode (group_mask acl))"
    "convertMode2Mask M = convertMode2Mask (convertMask2Mode (other_mask acl))"
    by (rule convertMode2Mask_cong, auto simp: bit_drop_bit_eq b g bit_convertMask2Mode)+
qed

lemma low_bits_fixed:
  fixes M :: "16 word"
  assumes "\<And>n. n < 9 \<Longrightarrow> bit M n \<Longrightarrow> bit r n"
  shows "M AND (r OR NOT kStandardPermissionsMask) = M"
  by (rule bit_word_eqI) (auto simp: bit_and_iff bit_or_iff bit_not_iff assms)

lemma inheritInode_again:
  assumes i: "inheritInode dir_acl M umask dirp = (v, r, acl)" and M': "M' AND kStandardPermissionsMask = (M AND r) AND kStandardPermissionsMask"
  shows "\<exists>r'. inheritInode dir_acl M' 0 dirp = (v, r', acl) \<and> M' AND (r' OR NOT kStandardPermissionsMask) = M'"
proof -
  let ?acl = "inheritACL dir_acl dirp"
  have b: "bit M' n \<longleftrightarrow> bit M n \<and> bit r n" if "n < 9" for n
    using that arg_cong [OF M', of "\<lambda>w. bit w n"] by (simp add: bit_and_iff)
  consider "ace_list ?acl = []" | p where "ace_list ?acl \<noteq> []" "fixed_part ?acl dirp = Some p" | "ace_list ?acl \<noteq> []" "fixed_part ?acl dirp = None"
    by fastforce
  then show ?thesis
  proof cases
    case 1
    then show ?thesis using i low_bits_fixed [of M' M'] by (auto simp: inheritInode_def Let_def)
  next
    case (2 p)
    have "bit p n" if "n < 9" "bit M' n" for n
      using 2 i b [OF that(1)] that by (auto simp: inheritInode_def equivMode_fixed Let_def bit_and_iff bit_or_iff bit_not_iff)
    then have "M' AND ((M' AND (M' AND NOT kStandardPermissionsMask OR p)) OR NOT kStandardPermissionsMask) = M'"
      by (intro low_bits_fixed) (simp add: bit_and_iff bit_or_iff)
    then show ?thesis using 2 i by (auto simp: inheritInode_def equivMode_fixed Let_def)
  next
    case 3
    then have v: "v" using i by (auto simp: inheritInode_def equivMode_fixed Let_def)
    define A where "A = computeMaxMasks (if isAutoInherit ?acl then ?acl\<lparr>acl_flags := acl_flags ?acl OR kProtected\<rparr> else ?acl)"
    have I: "inheritInode dir_acl x u dirp =
        (let a = A\<lparr>acl_flags := acl_flags A OR kMasked, owner_mask := owner_mask A AND convertMode2Mask (drop_bit 6 x),
           group_mask := group_mask A AND convertMode2Mask (drop_bit 3 x), other_mask := other_mask A AND convertMode2Mask x\<rparr>
         in (True, getMode a, a))" for x u
      using 3 by (simp add: inheritInode_def equivMode_fixed Let_def A_def)
    have acl: "acl = A\<lparr>acl_flags := acl_flags A OR kMasked, owner_mask := owner_mask A AND convertMode2Mask (drop_bit 6 M),
           group_mask := group_mask A AND convertMode2Mask (drop_bit 3 M), other_mask := other_mask A AND convertMode2Mask M\<rparr>" and r: "r = getMode acl"
      using i by (auto simp: I Let_def)
    have "(M AND (r OR NOT kStandardPermissionsMask)) AND kStandardPermissionsMask = getMode acl" using inheritInode_mode i v by simp
    moreover have "(M AND (r OR NOT kStandardPermissionsMask)) AND kStandardPermissionsMask = (M AND r) AND kStandardPermissionsMask"
      by (rule bit_word_eqI) (auto simp: bit_and_iff bit_or_iff bit_not_iff)
    ultimately have m: "M' AND kStandardPermissionsMask = getMode acl" using M' by simp
    have "owner_mask A AND convertMode2Mask (drop_bit 6 M') = owner_mask acl" "group_mask A AND convertMode2Mask (drop_bit 3 M') = group_mask acl"
      "other_mask A AND convertMode2Mask M' = other_mask acl"
      unfolding getMode_parts [OF m] by (rule mask_inherit, simp add: acl)+
    then have "inheritInode dir_acl M' 0 dirp = (True, r, acl)" unfolding I Let_def r by (simp add: acl)
    moreover have "M' AND (r OR NOT kStandardPermissionsMask) = M'" by (rule low_bits_fixed) (simp add: b)
    ultimately show ?thesis using v by auto
  qed
qed

lemma inheritInto_again:
  assumes i: "inheritInto pa umask n = (n1, acl)" and M: "M AND kStandardPermissionsMask = n_mode n1 AND kStandardPermissionsMask"
  shows "inheritInto pa 0 (n\<lparr>n_mode := M\<rparr>) = (n\<lparr>n_mode := M\<rparr>, acl)"
proof (cases pa)
  case None
  then show ?thesis using i by (simp add: inheritInto_def)
next
  case (Some dir_acl)
  obtain v r a where r: "inheritInode dir_acl (n_mode n) umask (is_dir n) = (v, r, a)" by (metis prod_cases3)
  have "M AND kStandardPermissionsMask = (n_mode n AND r) AND kStandardPermissionsMask"
  proof -
    have "n_mode n1 = n_mode n AND (r OR NOT kStandardPermissionsMask)" using i Some r by (auto simp: inheritInto_def)
    moreover have "(x AND (r OR NOT kStandardPermissionsMask)) AND kStandardPermissionsMask = (x AND r) AND kStandardPermissionsMask" for x :: "16 word"
      by (rule bit_word_eqI) (auto simp: bit_and_iff bit_or_iff bit_not_iff)
    ultimately show ?thesis using M by simp
  qed
  from inheritInode_again [OF r this] show ?thesis using i Some r by (auto simp: inheritInto_def)
qed

lemma bit_permissions [simp]: "bit kPermissionsMask n \<longleftrightarrow> n < 12"
  using bit_mask_iff [of 12 n, where 'a = "16 word"] by (auto simp: mask_eq_exp_minus_1 kPermissionsMask_def)

lemma bit_extra: "bit kExtraAttributesMask n \<longleftrightarrow> 12 \<le> n \<and> n < 16"
proof -
  have e: "kExtraAttributesMask = push_bit 12 (mask 4)" by (simp add: kExtraAttributesMask_def mask_eq_exp_minus_1)
  show ?thesis unfolding e by (auto simp: bit_push_bit_iff bit_mask_iff)
qed

text \<open>A replica that makes a node with the logged mode and no umask makes the same node.\<close>

lemma created_again:
  assumes i: "inheritInto pa umask (initNode ts ty mode d) = (n1, acl)" and node: "node = ownNode uid gid copysgid d n1"
  shows "inheritInto pa 0 (initNode ts ty (n_mode node AND kPermissionsMask) d) = (initNode ts ty (n_mode node AND kPermissionsMask) d, acl)"
    "ownNode uid gid False d (initNode ts ty (n_mode node AND kPermissionsMask) d) = node"
proof -
  let ?n0 = "initNode ts ty mode d"
  obtain y where y: "n1 = ?n0\<lparr>n_mode := y\<rparr>" using i by (auto simp: inheritInto_def split: option.splits prod.splits)
  have high: "bit (n_mode n1) k = bit (n_mode ?n0) k" if "9 \<le> k" for k
    using i that bit_imp_le_length [of "n_mode ?n0" k] by (fastforce simp: inheritInto_def bit_simps split: option.splits prod.splits)
  have sg: "bit S_ISGID k \<longleftrightarrow> k = 10" for k
    using bit_exp_iff [of 10 k, where 'a = "16 word"] by (auto simp: S_ISGID_def)
  have m: "bit (n_mode node) k \<longleftrightarrow> bit (n_mode n1) k \<or> k = 10 \<and> n_mode d AND S_ISGID = S_ISGID \<and> copysgid \<and> is_dir n1" for k
    by (auto simp: node ownNode_def Let_def bit_or_iff sg)
  have "n_mode (initNode ts ty (n_mode node AND kPermissionsMask) d) = n_mode node"
  proof (rule bit_word_eqI)
    fix k assume "k < LENGTH(16)"
    show "bit (n_mode (initNode ts ty (n_mode node AND kPermissionsMask) d)) k = bit (n_mode node) k"
      using high [of k] \<open>k < LENGTH(16)\<close> by (cases "k < 12") (auto simp: m initNode_def newNode_def bit_and_iff bit_or_iff bit_extra bit_not_iff)
  qed
  then have e: "initNode ts ty (n_mode node AND kPermissionsMask) d = ?n0\<lparr>n_mode := n_mode node\<rparr>"
    by (simp add: initNode_def)
  have "n_mode node AND kStandardPermissionsMask = n_mode n1 AND kStandardPermissionsMask"
    by (rule bit_word_eqI) (auto simp: bit_and_iff m)
  from inheritInto_again [OF i this] show "inheritInto pa 0 (initNode ts ty (n_mode node AND kPermissionsMask) d) =
      (initNode ts ty (n_mode node AND kPermissionsMask) d, acl)" unfolding e .
  show "ownNode uid gid False d (initNode ts ty (n_mode node AND kPermissionsMask) d) = node"
    unfolding e by (rule FSNode.equality) (simp_all add: node y ownNode_def Let_def)
qed

lemma createNode_again:
  assumes inv: "meta_inv goals m" and p: "isdir (nodeTable m) parent" "lookup (nodeTable m) parent name = None" "nodeTable m parent = Some d"
    and ino: "nodeTable m ino = None" and ty: "ty \<noteq> kTrash" "ty \<noteq> kReserved" "ty \<noteq> kUnknown"
    and r: "createNode goals ts parent name ty mode umask uid gid copysgid True ino m = Some m'" and n: "nodeTable m' ino = Some n"
  shows "createNode goals ts parent name ty (n_mode n AND kPermissionsMask) 0 uid gid False True ino m = Some m'"
proof -
  let ?pa = "acl_of (aclStorage m) parent"
  obtain n1 acl where i: "inheritInto ?pa umask (initNode ts ty mode d) = (n1, acl)" by fastforce
  define node where "node = ownNode uid gid copysgid d n1"
  have "core n = core node" using createNode_node [OF inv p ino ty r] n i by (simp add: node_def)
  then have "n_mode (core n) = n_mode (core node)" by simp
  then have "n_mode n = n_mode node" by (simp add: core_def)
  then show ?thesis
    using r created_again [OF i node_def] acl_facts(2) [OF inv, of parent] p(3) ty i
    by (simp add: createNode_def increment_fields node_def [symmetric])
qed

end
