(* ===== verification/FsTrash.thy ===== *)
theory FsTrash
  imports FsInherit "HOL-Library.Product_Lexorder"
begin

text \<open>
  Open files, the trash and its periodic cleaning (\<open>acquire\<close>, \<open>release\<close>, \<open>setTrashPath\<close>, \<open>undel\<close>, \<open>purge\<close> and
  \<open>doEmptyTrash\<close> of \<open>src/src/master/filesystem_operations.cc\<close>). The container of the trash is ordered by the
  time at which an entry expires, then by inode. The answers of the watchdog that bounds the cleaning are an
  argument: a list, empty when it never expires.

  All of them keep the invariant of the metadata. The cleaning ends, a call purges at least one expired
  file, and as many calls as there are expired files purge all of them.
\<close>

section \<open>Open files\<close>

definition fs_acquire :: "FsContext \<Rightarrow> inode \<Rightarrow> 32 word \<Rightarrow> Metadata \<Rightarrow> fs_result" where
  "fs_acquire ctx i sessionid m =
     (case nodeTable m i of
        None \<Rightarrow> refuse SAUNAFS_ERROR_ENOENT m
      | Some node \<Rightarrow>
          if \<not> is_file node then refuse SAUNAFS_ERROR_EPERM m
          else if sessionid \<in> set (n_sessionIds node) then refuse SAUNAFS_ERROR_EINVAL m
          else Some (SAUNAFS_STATUS_OK, if ctx_master ctx then [LogAcquire (ctx_ts ctx) i sessionid] else [],
                     set_node i (\<lambda>n. n\<lparr>n_sessionIds := n_sessionIds n @ [sessionid]\<rparr>) m))"

definition fs_release :: "goal_defs \<Rightarrow> FsContext \<Rightarrow> inode \<Rightarrow> 32 word \<Rightarrow> Metadata \<Rightarrow> fs_result" where
  "fs_release goals ctx i sessionid m =
     (case nodeTable m i of
        None \<Rightarrow> refuse SAUNAFS_ERROR_ENOENT m
      | Some node \<Rightarrow>
          if \<not> is_file node then refuse SAUNAFS_ERROR_EPERM m
          else if sessionid \<in> set (n_sessionIds node) then
            do {
              let m1 = set_node i (\<lambda>n. n\<lparr>n_sessionIds := remove1 sessionid (n_sessionIds n)\<rparr>) m;
              m2 \<leftarrow> (if n_type node = kReserved \<and> remove1 sessionid (n_sessionIds node) = []
                     then map_option snd (purge goals (ctx_ts ctx) i m1) else Some m1);
              Some (SAUNAFS_STATUS_OK, if ctx_master ctx then [LogRelease (ctx_ts ctx) i sessionid] else [], m2)
            }
          else refuse SAUNAFS_ERROR_EINVAL m)"

section \<open>The trash\<close>

definition fs_setTrashPath :: "FsContext \<Rightarrow> inode \<Rightarrow> string \<Rightarrow> 64 word \<Rightarrow> Metadata \<Rightarrow> fs_result" where
  "fs_setTrashPath ctx i path handle m =
     (if verifySession ctx kReadWrite kOnlyMeta \<noteq> SAUNAFS_STATUS_OK then refuse (verifySession ctx kReadWrite kOnlyMeta) m
      else do {
        found \<leftarrow> getNodeForOperation ctx ExpectAny MODE_MASK_EMPTY i m;
        case found of
          Inl st \<Rightarrow> refuse st m
        | Inr c \<Rightarrow>
            do {
              node \<leftarrow> nodeTable m c;
              if n_type node \<noteq> kTrash then refuse SAUNAFS_ERROR_ENOENT m
              else if length path = 0 then refuse SAUNAFS_ERROR_EINVAL m
              else if CHR 0x00 \<in> set path then refuse SAUNAFS_ERROR_EINVAL m
              else Some (SAUNAFS_STATUS_OK, if ctx_master ctx then [LogSetPath (ctx_ts ctx) c path] else [],
                         m\<lparr>detached := updateTrashNameEntry c node \<lparr>h_data = handle, h_path = path\<rparr> (detached m)\<rparr>)
            }
      })"

definition fs_undel :: "goal_defs \<Rightarrow> FsContext \<Rightarrow> inode \<Rightarrow> inode list \<Rightarrow> Metadata \<Rightarrow> fs_result" where
  "fs_undel goals ctx i ids m =
     (if verifySession ctx kReadWrite kOnlyMeta \<noteq> SAUNAFS_STATUS_OK then refuse (verifySession ctx kReadWrite kOnlyMeta) m
      else do {
        found \<leftarrow> getNodeForOperation ctx ExpectAny MODE_MASK_EMPTY i m;
        case found of
          Inl st \<Rightarrow> refuse st m
        | Inr c \<Rightarrow>
            do {
              node \<leftarrow> nodeTable m c;
              if n_type node \<noteq> kTrash then refuse SAUNAFS_ERROR_ENOENT m
              else do {
                (st, created, m1) \<leftarrow> undel goals (ctx_ts ctx) c ids m;
                Some (st, map (\<lambda>(p, name, mode, new). LogCreate (ctx_ts ctx) p name kDirectory (ucast mode) 0 0 0 new) created @
                          (if ctx_master ctx \<and> st = SAUNAFS_STATUS_OK then [LogUndel (ctx_ts ctx) c] else []), m1)
              }
            }
      })"

definition fs_purge :: "goal_defs \<Rightarrow> FsContext \<Rightarrow> inode \<Rightarrow> Metadata \<Rightarrow> fs_result" where
  "fs_purge goals ctx i m =
     (if verifySession ctx kReadWrite kOnlyMeta \<noteq> SAUNAFS_STATUS_OK then refuse (verifySession ctx kReadWrite kOnlyMeta) m
      else do {
        found \<leftarrow> getNodeForOperation ctx ExpectAny MODE_MASK_EMPTY i m;
        case found of
          Inl st \<Rightarrow> refuse st m
        | Inr c \<Rightarrow>
            do {
              node \<leftarrow> nodeTable m c;
              if n_type node \<noteq> kTrash then refuse SAUNAFS_ERROR_ENOENT m
              else do {
                (r, m1) \<leftarrow> purge goals (ctx_ts ctx) c m;
                Some (SAUNAFS_STATUS_OK, if ctx_master ctx then [LogPurge (ctx_ts ctx) c] else [], m1)
              }
            }
      })"

text \<open>The first entry of the container.\<close>

definition trash_begin :: "DetachedFiles \<Rightarrow> TrashPathKey option" where
  "trash_begin D = (if dom (trash D) = {} then None else Some (Min (dom (trash D))))"

partial_function (option) emptyTrash_loop ::
  "goal_defs \<Rightarrow> 32 word \<Rightarrow> bool list \<Rightarrow> FsLog list \<Rightarrow> Metadata \<Rightarrow> (FsLog list \<times> Metadata) option" where
  "emptyTrash_loop goals ts watchdog log m =
     (case trash_begin (detached m) of
        None \<Rightarrow> Some (log, m)
      | Some key \<Rightarrow>
          if \<not> fst key < ts then Some (log, m)
          else
            (case nodeTable m (snd key) of
               None \<Rightarrow> emptyTrash_loop goals ts watchdog log (m\<lparr>detached := removeTrashEntryByKey key (detached m)\<rparr>)
             | Some node \<Rightarrow>
                 if n_type node \<noteq> kTrash then None
                 else
                   (case purge goals ts (snd key) m of
                      None \<Rightarrow> None
                    | Some (_, m1) \<Rightarrow>
                        (case watchdog of
                           [] \<Rightarrow> emptyTrash_loop goals ts [] (log @ [LogPurge ts (snd key)]) m1
                         | expired # rest \<Rightarrow>
                             if expired then Some (log @ [LogPurge ts (snd key)], m1)
                             else emptyTrash_loop goals ts rest (log @ [LogPurge ts (snd key)]) m1))))"

definition doEmptyTrash :: "goal_defs \<Rightarrow> 32 word \<Rightarrow> bool list \<Rightarrow> Metadata \<Rightarrow> (FsLog list \<times> Metadata) option" where
  "doEmptyTrash goals ts watchdog m = emptyTrash_loop goals ts watchdog [] m"

section \<open>The invariant\<close>

text \<open>A change of a node that no sum, no index and no list depends on.\<close>

lemma plain_attr_law:
  assumes inv: "meta_inv goals m" and n: "nodeTable m i = Some n"
    and n': "n_type n' = n_type n" "n_mode n' = n_mode n" "n_goal n' = n_goal n" "n_length n' = n_length n" "n_chunks n' = n_chunks n"
      "n_path_length n' = n_path_length n" "n_stats n' = n_stats n" "n_parents n' = n_parents n" "n_entries n' = n_entries n"
      "n_nlink n' = n_nlink n" "n_uid n' = n_uid n" "n_gid n' = n_gid n" "n_ctime n' = n_ctime n" "n_trashtime n' = n_trashtime n"
  shows "meta_inv goals (m\<lparr>nodeTable := (nodeTable m)(i \<mapsto> n')\<rparr>)"
proof -
  let ?ns = "nodeTable m"
  let ?m = "m\<lparr>nodeTable := ?ns(i \<mapsto> n')\<rparr>"
  have t: "tree_inv ?ns" "fs_inv goals ?ns" "shelved (detachedOf ?ns) m" "quota_inv goals m" using inv by (simp_all add: meta_inv_def fs_inv_def)
  have fin: "finite (dom ?ns)" "finite (dom (detachedOf ?ns))" using finite_dom [OF t(1)] finite_detachedOf by blast+
  have "charge goals n' r = charge goals n r" for r by (rule charge_cong) (simp_all add: n')
  moreover have "owned owner n' = owned owner n" for owner by (cases "(owner, n)" rule: owned.cases) (simp_all add: n')
  ultimately have "quota_inv goals ?m" by (intro quota_inv_replace [OF t(4) fin(1) n, where n' = n' and m' = ?m]) simp_all
  moreover have "shelved (detachedOf (?ns(i \<mapsto> n'))) ?m"
    using shelved_length [OF t(3) fin(2) n n'(1)] n' by (simp add: updateDetachedSpaceUsage_def trashPathKey_def)
  moreover have "fs_inv goals (?ns(i \<mapsto> n'))" "pars (?ns(i \<mapsto> n')) = pars ?ns" using attr_replace [of ?ns i n n'] n t(2) n' by simp_all
  ultimately show ?thesis using meta_inv_replace [OF inv n n'(1,2,8), of ?m] by (simp del: detachedOf_upd)
qed

lemma fs_acquire_law:
  assumes inv: "meta_inv goals m"
  shows "\<exists>st log m'. fs_acquire ctx i sid m = Some (st, log, m') \<and> meta_inv goals m'"
  using inv plain_attr_law [OF inv, of i] by (auto simp: fs_acquire_def refuse_def set_node_eq split: option.splits)

lemma fs_release_law:
  assumes inv: "meta_inv goals m"
  shows "\<exists>st log m'. fs_release goals ctx i sid m = Some (st, log, m') \<and> meta_inv goals m'"
proof (cases "nodeTable m i")
  case None
  then show ?thesis using inv by (simp add: fs_release_def refuse_def)
next
  case (Some n)
  define m1 where "m1 = set_node i (\<lambda>n. n\<lparr>n_sessionIds := remove1 sid (n_sessionIds n)\<rparr>) m"
  have m1: "meta_inv goals m1" "nodeTable m1 i = Some (n\<lparr>n_sessionIds := remove1 sid (n_sessionIds n)\<rparr>)"
    using plain_attr_law [OF inv Some, of "n\<lparr>n_sessionIds := remove1 sid (n_sessionIds n)\<rparr>"] Some by (simp_all add: m1_def set_node_eq)
  obtain r m2 where "purge goals (ctx_ts ctx) i m1 = Some (r, m2)" "meta_inv goals m2" using purge_law [OF m1] by blast
  then show ?thesis using inv Some m1(1) by (simp add: fs_release_def refuse_def m1_def [symmetric])
qed

lemma trash_session_cases:
  assumes "meta_inv goals m"
  obtains st where "getNodeForOperation ctx ExpectAny MODE_MASK_EMPTY i m = Some (Inl st)"
  | c n where "getNodeForOperation ctx ExpectAny MODE_MASK_EMPTY i m = Some (Inr c)" "nodeTable m c = Some n"
proof -
  obtain r where r: "getNodeForOperation ctx ExpectAny MODE_MASK_EMPTY i m = Some r"
      "\<And>c. r = Inr c \<Longrightarrow> \<exists>node. nodeTable m c = Some node"
    using getNodeForOperation_law [OF assms] by blast
  then show thesis using that by (cases r) blast+
qed

lemma rename_entry_law:
  assumes inv: "meta_inv goals m" and n: "nodeTable m i = Some n" "n_type n = kTrash" and h: "can_detach g (detached m)"
  shows "meta_inv goals (m\<lparr>detached := updateTrashNameEntry i n g (detached m)\<rparr>)"
proof -
  have s: "shelved (detachedOf (nodeTable m)) m" using inv by (simp add: meta_inv_def)
  then have pl: "placed (detachedOf (nodeTable m)) (detached m)" "detached_inv (detached m)" by (simp_all add: shelved_def)
  have "detachedOf (nodeTable m) i = Some n" using n by (simp add: detachedOf_def)
  then obtain h0 where "trash (detached m) (trashPathKey i n) = Some h0" using on_shelf(1) [OF pl(1) _ n(2)] by blast
  note l = updateTrashNameEntry_law [OF pl(2) this h]
  have "shelved (detachedOf (nodeTable m)) (m\<lparr>detached := updateTrashNameEntry i n g (detached m)\<rparr>)"
    using s l \<open>trash (detached m) _ = Some h0\<close> by (auto simp: shelved_def placed_def)
  then show ?thesis using inv by (simp add: meta_inv_def quota_inv_def)
qed

lemma fs_setTrashPath_law:
  assumes inv: "meta_inv goals m" and h: "nameToId (detached m) handle = None" "counter (detached m) < kMaxIdForTrashOrReservedName"
  shows "\<exists>st log m'. fs_setTrashPath ctx i path handle m = Some (st, log, m') \<and> meta_inv goals m'"
proof (cases rule: trash_session_cases [OF inv, of ctx i])
  case (1 st)
  then show ?thesis using inv by (auto simp: fs_setTrashPath_def refuse_def)
next
  case (2 c n)
  then show ?thesis
    using inv h rename_entry_law [OF inv 2(2), of "\<lparr>h_data = handle, h_path = path\<rparr>"] by (auto simp: fs_setTrashPath_def refuse_def can_detach_def)
qed

lemma fs_purge_law:
  assumes inv: "meta_inv goals m"
  shows "\<exists>st log m'. fs_purge goals ctx i m = Some (st, log, m') \<and> meta_inv goals m'"
proof (cases rule: trash_session_cases [OF inv, of ctx i])
  case (1 st)
  then show ?thesis using inv by (auto simp: fs_purge_def refuse_def)
next
  case (2 c n)
  then show ?thesis using inv purge_law [OF inv 2(2), of "ctx_ts ctx"] by (auto simp: fs_purge_def refuse_def)
qed

lemma fs_undel_law:
  assumes inv: "meta_inv goals m" and ids: "distinct ids" "set ids \<inter> dom (nodeTable m) = {}"
    and enough: "\<And>k h. trash (detached m) k = Some h \<Longrightarrow> slashes (h_path h) \<le> length ids"
  shows "\<exists>st log m'. fs_undel goals ctx i ids m = Some (st, log, m') \<and> meta_inv goals m'"
proof (cases rule: trash_session_cases [OF inv, of ctx i])
  case (1 st)
  then show ?thesis using inv by (auto simp: fs_undel_def refuse_def)
next
  case (2 c n)
  show ?thesis
  proof (cases "n_type n = kTrash")
    case True
    have "slashes (h_path h) \<le> length ids" if "trash (detached m) (trashPathKey c n) = Some h" for h using enough [OF that] .
    then obtain st created m' where "undel goals (ctx_ts ctx) c ids m = Some (st, created, m')" "meta_inv goals m'"
      using undel_law [OF inv 2(2) True ids] by blast
    then show ?thesis using inv 2 True by (simp add: fs_undel_def refuse_def)
  qed (use inv 2 in \<open>simp add: fs_undel_def refuse_def\<close>)
qed

section \<open>The cleaning of the trash\<close>

lemma purge_trash:
  assumes inv: "meta_inv goals m" and k: "k \<in> dom (trash (detached m))"
  obtains n r m1 where "nodeTable m (snd k) = Some n" "n_type n = kTrash" "purge goals ts (snd k) m = Some (r, m1)" "meta_inv goals m1"
    "dom (trash (detached m1)) = dom (trash (detached m)) - {k}"
proof -
  have pl: "dom (trash (detached m)) = trash_keys (detachedOf (nodeTable m))" if "meta_inv goals m" for m
    using that by (simp add: meta_inv_def shelved_def placed_def)
  obtain n where n: "detachedOf (nodeTable m) (snd k) = Some n" "n_type n = kTrash" "trashPathKey (snd k) n = k"
    using k unfolding pl [OF inv] by (auto simp: trash_keys_def)
  then have n': "nodeTable m (snd k) = Some n" by (auto simp: detachedOf_def split: option.splits if_splits)
  obtain r m1 where m1: "purge goals ts (snd k) m = Some (r, m1)" "meta_inv goals m1"
      "nodeTable m1 = (nodeTable m)(snd k \<mapsto> n\<lparr>n_type := kReserved\<rparr>) \<or> nodeTable m1 = (nodeTable m)(snd k := None)"
    using purge_law [OF inv n', of ts] n(2) by (auto split: if_splits)
  have "trash_keys (detachedOf (nodeTable m1)) = trash_keys (detachedOf (nodeTable m)) - {k}"
    using m1(3) n by (auto simp: trash_keys_def split: if_splits)
  then show thesis using that [OF n' n(2) m1(1,2)] pl [OF inv] pl [OF m1(2)] by simp
qed

definition expired :: "32 word \<Rightarrow> Metadata \<Rightarrow> TrashPathKey set" where
  "expired ts m = {k \<in> dom (trash (detached m)). fst k < ts}"

lemma finite_trash:
  assumes "meta_inv goals m"
  shows "finite (dom (trash (detached m)))"
proof -
  let ?dn = "detachedOf (nodeTable m)"
  have "dom (trash (detached m)) = trash_keys ?dn" "finite (dom ?dn)"
    using assms finite_detachedOf finite_dom by (auto simp: meta_inv_def shelved_def placed_def fs_inv_def)
  moreover have "trash_keys ?dn \<subseteq> (\<lambda>i. trashPathKey i (the (?dn i))) ` dom ?dn" by (force simp: trash_keys_def)
  ultimately show ?thesis by (simp add: finite_subset)
qed

lemma emptyTrash_loop_law:
  assumes "meta_inv goals m" "T \<le> ts"
  shows "\<exists>log' m'. emptyTrash_loop goals ts w log m = Some (log', m') \<and> meta_inv goals m' \<and>
    dom (trash (detached m')) \<subseteq> dom (trash (detached m)) \<and> {k \<in> dom (trash (detached m)). \<not> fst k < ts} \<subseteq> dom (trash (detached m')) \<and>
    (w = [] \<longrightarrow> expired ts m' = {}) \<and> (expired T m \<noteq> {} \<longrightarrow> expired T m' \<subset> expired T m)"
  using assms(1)
proof (induction "card (dom (trash (detached m)))" arbitrary: m w log rule: less_induct)
  case less
  let ?D = "dom (trash (detached m))"
  note fin = finite_trash [OF less.prems]
  show ?case
  proof (cases "?D = {} \<or> \<not> fst (Min ?D) < ts")
    case True
    have "\<not> fst k < ts" if "k \<in> ?D" for k
      using True that Min_le [OF fin that] by (auto simp: less_eq_prod_def)
    then have "expired ts m = {}" "expired T m = {}" using order_less_le_trans [OF _ assms(2)] unfolding expired_def by blast+
    then show ?thesis using True less.prems by (subst emptyTrash_loop.simps) (auto simp: trash_begin_def)
  next
    case False
    then have k: "Min ?D \<in> ?D" "fst (Min ?D) < ts" using Min_in [OF fin] by blast+
    obtain n r m1 where p: "nodeTable m (snd (Min ?D)) = Some n" "n_type n = kTrash" "purge goals ts (snd (Min ?D)) m = Some (r, m1)"
        "meta_inv goals m1" "dom (trash (detached m1)) = ?D - {Min ?D}"
      using purge_trash [OF less.prems k(1)] .
    have smaller: "card (dom (trash (detached m1))) < card ?D" unfolding p(5) by (rule card_Diff1_less [OF fin k(1)])
    note IH = less.hyps [OF smaller p(4)]
    have e1: "expired T m1 = expired T m - {Min ?D}" using p(5) by (auto simp: expired_def)
    have e2: "Min ?D \<in> expired T m" if ne: "expired T m \<noteq> {}"
    proof -
      obtain x where x: "x \<in> ?D" "fst x < T" using ne unfolding expired_def by blast
      then have "fst (Min ?D) \<le> fst x" using Min_le [OF fin x(1)] by (auto simp: less_eq_prod_def)
      then show ?thesis using x(2) k(1) by (simp add: expired_def)
    qed
    have dec: "expired T m' \<subset> expired T m" if ne: "expired T m \<noteq> {}" and sub: "dom (trash (detached m')) \<subseteq> dom (trash (detached m1))" for m'
    proof -
      have "expired T m' \<subseteq> expired T m1" using sub unfolding expired_def by blast
      then show ?thesis using e1 e2 [OF ne] by blast
    qed
    have keep: "{x \<in> ?D. \<not> fst x < ts} \<subseteq> X" if "{x \<in> dom (trash (detached m1)). \<not> fst x < ts} \<subseteq> X" for X
      using that p(5) k(2) by auto
    have step: "emptyTrash_loop goals ts w log m = (case w of [] \<Rightarrow> emptyTrash_loop goals ts [] (log @ [LogPurge ts (snd (Min ?D))]) m1
       | x # rest \<Rightarrow> if x then Some (log @ [LogPurge ts (snd (Min ?D))], m1) else emptyTrash_loop goals ts rest (log @ [LogPurge ts (snd (Min ?D))]) m1)"
      using k p(1-3) by (subst emptyTrash_loop.simps) (auto simp: trash_begin_def)
    show ?thesis
    proof (cases "\<exists>rest. w = True # rest")
      case True
      then show ?thesis using p(4,5) dec [of m1] k(2) by (auto simp: step)
    next
      case False
      then obtain w' where w': "emptyTrash_loop goals ts w log m = emptyTrash_loop goals ts w' (log @ [LogPurge ts (snd (Min ?D))]) m1"
          "w = [] \<Longrightarrow> w' = []" unfolding step by (cases w) auto
      from IH [of w' "log @ [LogPurge ts (snd (Min ?D))]"] obtain log' m' where
        m': "emptyTrash_loop goals ts w' (log @ [LogPurge ts (snd (Min ?D))]) m1 = Some (log', m')" "meta_inv goals m'"
          "dom (trash (detached m')) \<subseteq> dom (trash (detached m1))"
          "{x \<in> dom (trash (detached m1)). \<not> fst x < ts} \<subseteq> dom (trash (detached m'))" "w' = [] \<longrightarrow> expired ts m' = {}"
          "expired T m1 \<noteq> {} \<longrightarrow> expired T m' \<subset> expired T m1" by blast
      then show ?thesis using w' dec [OF _ m'(3)] keep [OF m'(4)] p(5) by auto
    qed
  qed
qed

lemma doEmptyTrash_law:
  assumes "meta_inv goals m" "T \<le> ts"
  shows "\<exists>log m'. doEmptyTrash goals ts w m = Some (log, m') \<and> meta_inv goals m' \<and>
    (w = [] \<longrightarrow> expired ts m' = {}) \<and> (expired T m \<noteq> {} \<longrightarrow> expired T m' \<subset> expired T m) \<and>
    dom (trash (detached m')) \<subseteq> dom (trash (detached m)) \<and> {k \<in> dom (trash (detached m)). \<not> fst k < ts} \<subseteq> dom (trash (detached m'))"
  unfolding doEmptyTrash_def using emptyTrash_loop_law [OF assms, of w "[]"] by blast

text \<open>Calls of the timer: the time of each and the answers of its watchdog.\<close>

fun timer_calls :: "goal_defs \<Rightarrow> (32 word \<times> bool list) list \<Rightarrow> Metadata \<Rightarrow> Metadata option" where
  "timer_calls goals [] m = Some m"
| "timer_calls goals ((ts, w) # calls) m = do { (log, m1) \<leftarrow> doEmptyTrash goals ts w m; timer_calls goals calls m1 }"

lemma timer_calls_law:
  assumes "meta_inv goals m" "list_all (\<lambda>c. T \<le> fst c) calls"
  shows "\<exists>m'. timer_calls goals calls m = Some m' \<and> meta_inv goals m' \<and> card (expired T m') \<le> card (expired T m) - length calls"
  using assms
proof (induction calls arbitrary: m)
  case (Cons c calls)
  obtain ts w where c: "c = (ts, w)" by (cases c)
  have fin: "finite (expired T m)" using finite_trash [OF Cons.prems(1)] by (simp add: expired_def)
  obtain log m1 where m1: "doEmptyTrash goals ts w m = Some (log, m1)" "meta_inv goals m1"
      "expired T m \<noteq> {} \<longrightarrow> expired T m1 \<subset> expired T m" "dom (trash (detached m1)) \<subseteq> dom (trash (detached m))"
    using doEmptyTrash_law [OF Cons.prems(1), of T ts w] Cons.prems(2) c by auto
  have sm: "card (expired T m1) \<le> card (expired T m) - 1"
  proof (cases "expired T m = {}")
    case False
    then have "card (expired T m1) < card (expired T m)" using m1(3) fin psubset_card_mono by blast
    then show ?thesis by linarith
  next
    case True
    then have "expired T m1 = {}" using m1(4) unfolding expired_def by blast
    then show ?thesis by simp
  qed
  then show ?case using Cons.IH [OF m1(2)] Cons.prems(2) m1(1) c by fastforce
qed simp

end
