(* ===== verification/FsAttr.thy ===== *)
theory FsAttr
  imports FsTrash
begin

text \<open>
  Attributes, lengths and access control lists (\<open>src/src/master/filesystem_operations.cc\<close>): \<open>setAttr\<close>, \<open>doSetLength\<close>,
  \<open>setAcl\<close> and \<open>deleteAcl\<close> for clients, and \<open>applyAttr\<close>, \<open>applyLength\<close>, \<open>applySetAcl\<close> and \<open>applySetRichAcl\<close>, by which a
  replica replays them. The lists go through the changelog as text. \<open>canMutateFileChunks\<close> and
  \<open>canTruncateFileChunks\<close> of this backend always agree.
\<close>

unbundle bit_operations_syntax

section \<open>Attributes\<close>

definition SET_MODE_FLAG :: "8 word" where "SET_MODE_FLAG = 0x02"
definition SET_UID_FLAG :: "8 word" where "SET_UID_FLAG = 0x04"
definition SET_GID_FLAG :: "8 word" where "SET_GID_FLAG = 0x08"
definition SET_MTIME_NOW_FLAG :: "8 word" where "SET_MTIME_NOW_FLAG = 0x10"
definition SET_MTIME_FLAG :: "8 word" where "SET_MTIME_FLAG = 0x20"
definition SET_ATIME_FLAG :: "8 word" where "SET_ATIME_FLAG = 0x40"
definition SET_ATIME_NOW_FLAG :: "8 word" where "SET_ATIME_NOW_FLAG = 0x80"
definition SESFLAG_MAPALL :: "8 word" where "SESFLAG_MAPALL = 0x10"

datatype SugidClearMode = kNever | kAlways | kOsx | kBsd | kExt | kSfs

text \<open>The mode of the node and the mode to be set, once the set-uid and set-gid bits have been cleared.\<close>

definition clearSugid :: "SugidClearMode \<Rightarrow> 32 word \<Rightarrow> 8 word \<Rightarrow> 32 word \<Rightarrow> FSNode \<Rightarrow> 16 word \<Rightarrow> 16 word \<times> 16 word" where
  "clearSugid clearMode uid setmask attrgid node attrmode =
     (let both = (n_mode node AND 0xF3FF, attrmode AND 0x3FF);
          suid = (n_mode node AND 0xF7FF, attrmode AND 0x7FF);
          keep = (n_mode node, attrmode);
          ext = (if n_mode node AND 0x8 \<noteq> 0 then both else suid)
      in if n_mode node AND 0xC00 \<noteq> 0 \<and> setmask AND (SET_UID_FLAG OR SET_GID_FLAG) \<noteq> 0 then
           (case clearMode of
              kAlways \<Rightarrow> both
            | kOsx \<Rightarrow> if uid \<noteq> 0 then both else keep
            | kBsd \<Rightarrow> if uid \<noteq> 0 \<and> setmask AND SET_GID_FLAG \<noteq> 0 \<and> n_gid node \<noteq> attrgid then both else keep
            | kExt \<Rightarrow> if \<not> is_dir node then ext else keep
            | kSfs \<Rightarrow> if \<not> is_dir node then ext else if uid \<noteq> 0 then both else keep
            | kNever \<Rightarrow> keep)
         else keep)"

text \<open>Why the user of a context may not set the attributes of a node, or \<open>SAUNAFS_STATUS_OK\<close>.\<close>

definition mayNotSetAttr :: "FsContext \<Rightarrow> inode \<Rightarrow> FSNode \<Rightarrow> 8 word \<Rightarrow> 32 word \<Rightarrow> 32 word \<Rightarrow> Metadata \<Rightarrow> status option" where
  "mayNotSetAttr ctx i node setmask attruid attrgid m =
     (let uid = ctx_uid ctx; has = (\<lambda>flag. setmask AND flag \<noteq> 0)
      in if uid \<noteq> 0 \<and> ctx_sesflags ctx AND SESFLAG_MAPALL \<noteq> 0 \<and> has (SET_UID_FLAG OR SET_GID_FLAG) then Some SAUNAFS_ERROR_EPERM
         else do {
           st \<leftarrow> (if n_mode node AND push_bit EATTR_BIT_OFFSET EATTR_NOOWNER = 0 \<and> uid \<noteq> 0 \<and> uid \<noteq> n_uid node then
                    (if has (SET_MODE_FLAG OR SET_UID_FLAG OR SET_GID_FLAG) then Some SAUNAFS_ERROR_EPERM
                     else if has SET_ATIME_FLAG \<and> \<not> has SET_ATIME_NOW_FLAG then Some SAUNAFS_ERROR_EPERM
                     else if has SET_MTIME_FLAG \<and> \<not> has SET_MTIME_NOW_FLAG then Some SAUNAFS_ERROR_EPERM
                     else if has (SET_ATIME_NOW_FLAG OR SET_MTIME_NOW_FLAG) then
                       do { ok \<leftarrow> fs_access ctx i MODE_MASK_W m; Some (if ok then SAUNAFS_STATUS_OK else SAUNAFS_ERROR_EACCES) }
                     else Some SAUNAFS_STATUS_OK)
                  else Some SAUNAFS_STATUS_OK);
           if st \<noteq> SAUNAFS_STATUS_OK then Some st
           else if uid \<noteq> 0 \<and> uid \<noteq> attruid \<and> has SET_UID_FLAG then Some SAUNAFS_ERROR_EPERM
           else if ctx_sesflags ctx AND SESFLAG_IGNOREGID = 0 \<and> uid \<noteq> 0 \<and> has SET_GID_FLAG \<and> attrgid \<notin> set (ctx_gids ctx)
             then Some SAUNAFS_ERROR_EPERM
           else Some SAUNAFS_STATUS_OK
         })"

text \<open>The changes of \<open>setAttr\<close>, after the checks.\<close>

definition storeAttr ::
  "goal_defs \<Rightarrow> FsContext \<Rightarrow> 32 word \<Rightarrow> inode \<Rightarrow> FSNode \<Rightarrow> 8 word \<Rightarrow> 16 word \<Rightarrow> 32 word \<Rightarrow> 32 word \<Rightarrow> 32 word \<Rightarrow> 32 word \<Rightarrow> SugidClearMode \<Rightarrow>
   Metadata \<Rightarrow> fs_result" where
  "storeAttr goals ctx timeStamp i node setmask attrmode attruid attrgid attratime attrmtime clearMode m =
     do {
       let has = (\<lambda>flag. setmask AND flag \<noteq> 0);
       let attrmode = (if has (SET_UID_FLAG OR SET_GID_FLAG) \<and> has SET_MODE_FLAG then attrmode OR (n_mode node AND 0xC00) else attrmode);
       let (mode, attrmode) = clearSugid clearMode (ctx_uid ctx) setmask attrgid node attrmode;
       let mode = (if has SET_MODE_FLAG then (attrmode AND 0xFFF) OR (mode AND 0xF000) else mode);
       let m1 = set_node i (\<lambda>n. n\<lparr>n_mode := mode\<rparr>) m;
       m2 \<leftarrow> (if has SET_MODE_FLAG then syncAclWithMode i m1 else Some m1);
       m3 \<leftarrow> (if has (SET_UID_FLAG OR SET_GID_FLAG)
              then changeUidGid goals i (if has SET_UID_FLAG then attruid else n_uid node) (if has SET_GID_FLAG then attrgid else n_gid node) m2
              else Some m2);
       let atime = (if has SET_ATIME_NOW_FLAG then timeStamp else if has SET_ATIME_FLAG then attratime else n_atime node);
       let mtime = (if has SET_MTIME_NOW_FLAG then timeStamp else if has SET_MTIME_FLAG then attrmtime else n_mtime node);
       let m4 = set_node i (\<lambda>n. n\<lparr>n_atime := atime, n_mtime := mtime\<rparr>) m3;
       node4 \<leftarrow> nodeTable m4 i;
       m5 \<leftarrow> updateCTime i timeStamp m4;
       Some (SAUNAFS_STATUS_OK, [LogAttr timeStamp i (ucast (n_mode node4 AND 0xFFF)) (n_uid node4) (n_gid node4) atime mtime], m5)
     }"

definition fs_setAttr ::
  "goal_defs \<Rightarrow> FsContext \<Rightarrow> 32 word \<Rightarrow> inode \<Rightarrow> 8 word \<Rightarrow> 16 word \<Rightarrow> 32 word \<Rightarrow> 32 word \<Rightarrow> 32 word \<Rightarrow> 32 word \<Rightarrow> SugidClearMode \<Rightarrow> Metadata \<Rightarrow> fs_result" where
  "fs_setAttr goals ctx timeStamp i setmask attrmode attruid attrgid attratime attrmtime clearMode m =
     (if verifySession ctx kReadWrite kNotMeta \<noteq> SAUNAFS_STATUS_OK then refuse (verifySession ctx kReadWrite kNotMeta) m
      else do {
        found \<leftarrow> getNodeForOperation ctx ExpectAny MODE_MASK_EMPTY i m;
        case found of
          Inl st \<Rightarrow> refuse st m
        | Inr c \<Rightarrow>
            do {
              node \<leftarrow> nodeTable m c;
              if \<not> ctx_hasSessionData ctx \<or> \<not> ctx_hasUidGidData ctx then None
              else do {
                st \<leftarrow> mayNotSetAttr ctx c node setmask attruid attrgid m;
                if st \<noteq> SAUNAFS_STATUS_OK then refuse st m
                else storeAttr goals ctx timeStamp c node setmask attrmode attruid attrgid attratime attrmtime clearMode m
              }
            }
      })"

definition applyAttr ::
  "goal_defs \<Rightarrow> 32 word \<Rightarrow> inode \<Rightarrow> 32 word \<Rightarrow> 32 word \<Rightarrow> 32 word \<Rightarrow> 32 word \<Rightarrow> 32 word \<Rightarrow> Metadata \<Rightarrow> (status \<times> Metadata) option" where
  "applyAttr goals timestamp i mode uid gid atime mtime m =
     (case nodeTable m i of
        None \<Rightarrow> Some (SAUNAFS_ERROR_ENOENT, m)
      | Some node \<Rightarrow>
          if mode > 0xFFF then Some (SAUNAFS_ERROR_EINVAL, m)
          else do {
            let m1 = set_node i (\<lambda>n. n\<lparr>n_mode := ucast mode OR (n_mode n AND 0xF000)\<rparr>) m;
            m2 \<leftarrow> syncAclWithMode i m1;
            m3 \<leftarrow> (if n_uid node \<noteq> uid \<or> n_gid node \<noteq> gid then changeUidGid goals i uid gid m2 else Some m2);
            let m4 = set_node i (\<lambda>n. n\<lparr>n_atime := atime, n_mtime := mtime\<rparr>) m3;
            m5 \<leftarrow> updateCTime i timestamp m4;
            Some (SAUNAFS_STATUS_OK, m5)
          })"

section \<open>Length\<close>

definition fs_doSetLength :: "goal_defs \<Rightarrow> FsContext \<Rightarrow> 32 word \<Rightarrow> inode \<Rightarrow> 64 word \<Rightarrow> Metadata \<Rightarrow> fs_result" where
  "fs_doSetLength goals ctx timeStamp i len m =
     (if verifySession ctx kReadWrite kAnySession \<noteq> SAUNAFS_STATUS_OK then refuse (verifySession ctx kReadWrite kAnySession) m
      else do {
        found \<leftarrow> getNodeForOperation ctx ExpectFile MODE_MASK_EMPTY i m;
        case found of
          Inl st \<Rightarrow> refuse st m
        | Inr c \<Rightarrow>
            do {
              m1 \<leftarrow> setLength goals c len True m;
              node \<leftarrow> nodeTable m1 c;
              m2 \<leftarrow> updateCTime c timeStamp (set_node c (\<lambda>n. n\<lparr>n_mtime := timeStamp\<rparr>) m1);
              Some (SAUNAFS_STATUS_OK, [LogLength timeStamp i (n_length node) True], m2)
            }
      })"

definition applyLength :: "goal_defs \<Rightarrow> 32 word \<Rightarrow> inode \<Rightarrow> 64 word \<Rightarrow> bool \<Rightarrow> Metadata \<Rightarrow> (status \<times> Metadata) option" where
  "applyLength goals timestamp i len eraseFurtherChunks m =
     (case nodeTable m i of
        None \<Rightarrow> Some (SAUNAFS_ERROR_ENOENT, m)
      | Some node \<Rightarrow>
          if n_type node \<noteq> kFile \<and> n_type node \<noteq> kTrash \<and> n_type node \<noteq> kReserved then Some (SAUNAFS_ERROR_EINVAL, m)
          else do {
            m1 \<leftarrow> setLength goals i len eraseFurtherChunks m;
            m2 \<leftarrow> updateCTime i timestamp (set_node i (\<lambda>n. n\<lparr>n_mtime := timestamp\<rparr>) m1);
            Some (SAUNAFS_STATUS_OK, m2)
          })"

section \<open>Access control lists\<close>

definition fs_deleteAcl :: "FsContext \<Rightarrow> inode \<Rightarrow> AclType \<Rightarrow> Metadata \<Rightarrow> fs_result" where
  "fs_deleteAcl ctx i type m =
     (if verifySession ctx kReadWrite kNotMeta \<noteq> SAUNAFS_STATUS_OK then refuse (verifySession ctx kReadWrite kNotMeta) m
      else do {
        found \<leftarrow> getNodeForOperation ctx ExpectAny MODE_MASK_EMPTY i m;
        case found of
          Inl st \<Rightarrow> refuse st m
        | Inr c \<Rightarrow>
            do {
              (st, m1) \<leftarrow> deleteAcl c type (ctx_ts ctx) m;
              Some (st, if ctx_master ctx \<and> st = SAUNAFS_STATUS_OK
                        then [LogDeleteAcl (ctx_ts ctx) c (case type of kAccess \<Rightarrow> CHR ''a'' | kDefault \<Rightarrow> CHR ''d'' | kRichACL \<Rightarrow> CHR ''r'')] else [], m1)
            }
      })"

definition fs_setRichAcl :: "FsContext \<Rightarrow> inode \<Rightarrow> RichACL \<Rightarrow> Metadata \<Rightarrow> fs_result" where
  "fs_setRichAcl ctx i acl m =
     (if verifySession ctx kReadWrite kNotMeta \<noteq> SAUNAFS_STATUS_OK then refuse (verifySession ctx kReadWrite kNotMeta) m
      else do {
        found \<leftarrow> getNodeForOperation ctx ExpectAny MODE_MASK_EMPTY i m;
        case found of
          Inl st \<Rightarrow> refuse st m
        | Inr c \<Rightarrow>
            do {
              (st, m1) \<leftarrow> setRichAcl c acl (ctx_ts ctx) m;
              Some (st, if ctx_master ctx \<and> st = SAUNAFS_STATUS_OK then [LogSetRichAcl (ctx_ts ctx) c (aclToString acl)] else [], m1)
            }
      })"

definition fs_setPosixAcl :: "FsContext \<Rightarrow> inode \<Rightarrow> AclType \<Rightarrow> AccessControlList \<Rightarrow> Metadata \<Rightarrow> fs_result" where
  "fs_setPosixAcl ctx i type acl m =
     (if verifySession ctx kReadWrite kNotMeta \<noteq> SAUNAFS_STATUS_OK then refuse (verifySession ctx kReadWrite kNotMeta) m
      else do {
        found \<leftarrow> getNodeForOperation ctx ExpectAny MODE_MASK_EMPTY i m;
        case found of
          Inl st \<Rightarrow> refuse st m
        | Inr c \<Rightarrow>
            do {
              (st, m1) \<leftarrow> setPosixAcl c type acl (ctx_ts ctx) m;
              Some (st, if ctx_master ctx \<and> st = SAUNAFS_STATUS_OK
                        then [LogSetAcl (ctx_ts ctx) c (if type = kAccess then CHR ''a'' else CHR ''d'') (posixToString acl)] else [], m1)
            }
      })"

definition fs_getAcl :: "FsContext \<Rightarrow> inode \<Rightarrow> Metadata \<Rightarrow> (status + RichACL) option" where
  "fs_getAcl ctx i m =
     (if verifySession ctx kReadOnly kAnySession \<noteq> SAUNAFS_STATUS_OK then Some (Inl (verifySession ctx kReadOnly kAnySession))
      else do {
        found \<leftarrow> getNodeForOperation ctx ExpectAny MODE_MASK_EMPTY i m;
        case found of Inl st \<Rightarrow> Some (Inl st) | Inr c \<Rightarrow> getAcl c m
      })"

definition applySetAcl :: "32 word \<Rightarrow> inode \<Rightarrow> char \<Rightarrow> string \<Rightarrow> Metadata \<Rightarrow> (status \<times> Metadata) option" where
  "applySetAcl timestamp i aclType aclString m =
     (case posixFromString aclString of
        Inl e \<Rightarrow> Some (SAUNAFS_ERROR_EINVAL, m)
      | Inr acl \<Rightarrow>
          if nodeTable m i = None then Some (SAUNAFS_ERROR_ENOENT, m)
          else if aclType = CHR ''d'' then setPosixAcl i kDefault acl timestamp m
          else if aclType = CHR ''a'' then setPosixAcl i kAccess acl timestamp m
          else Some (SAUNAFS_ERROR_EINVAL, m))"

definition applySetRichAcl :: "32 word \<Rightarrow> inode \<Rightarrow> string \<Rightarrow> Metadata \<Rightarrow> (status \<times> Metadata) option" where
  "applySetRichAcl timestamp i aclString m =
     (case fromString aclString of
        Inl e \<Rightarrow> Some (SAUNAFS_ERROR_EINVAL, m)
      | Inr acl \<Rightarrow> if nodeTable m i = None then Some (SAUNAFS_ERROR_ENOENT, m) else setRichAcl i acl timestamp m)"

section \<open>The invariant\<close>

lemma sync_mode_law:
  assumes inv: "meta_inv goals m" and n: "nodeTable m i = Some n"
  shows "\<exists>m'. syncAclWithMode i (set_node i (\<lambda>n. n\<lparr>n_mode := mode\<rparr>) m) = Some m' \<and> meta_inv goals m' \<and>
    nodeTable m' = (nodeTable m)(i \<mapsto> n\<lparr>n_mode := mode\<rparr>) \<and>
    acl_of (aclStorage m') = (acl_of (aclStorage m))(i := map_option (setMode mode (is_dir n)) (acl_of (aclStorage m) i))"
proof -
  let ?m = "m\<lparr>nodeTable := (nodeTable m)(i \<mapsto> n\<lparr>n_mode := mode\<rparr>)\<rparr>"
  obtain acls where acls: "acl_setMode i mode (is_dir n) (aclStorage m) = Some acls" "acl_inv acls"
      "acl_of acls = (acl_of (aclStorage m))(i := map_option (setMode mode (is_dir n)) (acl_of (aclStorage m) i))"
    using acl_setMode_law [OF acl_facts(1) [OF inv]] by blast
  have "meta_inv goals (?m\<lparr>aclStorage := acls\<rparr>)"
    using mode_acl_law [OF inv n acls(2,3), of mode] by (force simp: getMode_setMode kStandardPermissionsMask_def)
  moreover have "syncAclWithMode i (set_node i (\<lambda>n. n\<lparr>n_mode := mode\<rparr>) m) = Some (?m\<lparr>aclStorage := acls\<rparr>)"
    using n acls(1) by (simp add: syncAclWithMode_def set_node_eq)
  ultimately show ?thesis using acls(3) by auto
qed

text \<open>A mode that keeps the permissions.\<close>

lemma keep_mode_law:
  assumes inv: "meta_inv goals m" and n: "nodeTable m i = Some n" and "mode AND kStandardPermissionsMask = n_mode n AND kStandardPermissionsMask"
  shows "meta_inv goals (set_node i (\<lambda>n. n\<lparr>n_mode := mode\<rparr>) m)"
  using mode_acl_law [OF inv n acl_facts(1) [OF inv], of "acl_of (aclStorage m) i" mode] acl_facts(3) [OF inv n] assms(3)
  by (simp add: set_node_eq [OF n])

lemma clearSugid_permissions: "fst (clearSugid c uid setmask gid node attrmode) AND kStandardPermissionsMask = n_mode node AND kStandardPermissionsMask"
proof -
  have "(w AND 0xF3FF) AND kStandardPermissionsMask = w AND kStandardPermissionsMask"
    "(w AND 0xF7FF) AND kStandardPermissionsMask = w AND kStandardPermissionsMask" for w :: "16 word"
    by (simp_all add: and.assoc kStandardPermissionsMask_def)
  then show ?thesis by (simp add: clearSugid_def Let_def split: SugidClearMode.split)
qed

text \<open>The end of \<open>setAttr\<close> and of \<open>applyAttr\<close>: owner, times, and the time of the change.\<close>

lemma attr_end_law:
  assumes inv: "meta_inv goals m" and n: "nodeTable m i = Some n"
  shows "\<exists>m3 n3 m' n'. (if b then changeUidGid goals i uid gid m else Some m) = Some m3 \<and> nodeTable m3 i = Some n3 \<and>
    updateCTime i ts (set_node i (\<lambda>n. n\<lparr>n_atime := atime, n_mtime := mtime\<rparr>) m3) = Some m' \<and> meta_inv goals m' \<and>
    aclStorage m' = aclStorage m \<and> n_mode n3 = n_mode n \<and> nodeTable m' i = Some n' \<and>
    n' = n\<lparr>n_uid := if b then uid else n_uid n, n_gid := if b then gid else n_gid n, n_atime := atime, n_mtime := mtime, n_ctime := ts\<rparr>"
proof -
  let ?n3 = "n\<lparr>n_uid := if b then uid else n_uid n, n_gid := if b then gid else n_gid n\<rparr>"
  obtain m3 where m3: "(if b then changeUidGid goals i uid gid m else Some m) = Some m3" "meta_inv goals m3" "nodeTable m3 i = Some ?n3"
      "aclStorage m3 = aclStorage m"
  proof (cases b)
    case True
    obtain m3 where m3: "changeUidGid goals i uid gid m = Some m3" "meta_inv goals m3" "nodeTable m3 = (nodeTable m)(i \<mapsto> n\<lparr>n_uid := uid, n_gid := gid\<rparr>)"
      using changeUidGid_law [OF inv n] by blast
    moreover have "aclStorage m3 = aclStorage m" using m3(1) n by (auto simp: changeUidGid_def quota_change_def set_node_def Let_def)
    ultimately show ?thesis using that True by simp
  qed (use that inv n in simp)
  let ?m4 = "set_node i (\<lambda>n. n\<lparr>n_atime := atime, n_mtime := mtime\<rparr>) m3" and ?n4 = "?n3\<lparr>n_atime := atime, n_mtime := mtime\<rparr>"
  have m4: "meta_inv goals ?m4" "nodeTable ?m4 i = Some ?n4" "aclStorage ?m4 = aclStorage m"
    using plain_attr_law [OF m3(2,3), of ?n4] m3(3,4) by (simp_all add: set_node_eq)
  obtain m' where m': "updateCTime i ts ?m4 = Some m'" "meta_inv goals m'" "nodeTable m' = (nodeTable ?m4)(i \<mapsto> ?n4\<lparr>n_ctime := ts\<rparr>)"
    using updateCTime_law [OF m4(1,2)] by blast
  moreover have "aclStorage m' = aclStorage m" using m'(1) m4 by (auto simp: updateCTime_def set_node_def Let_def split: if_splits)
  ultimately show ?thesis using m3 by auto
qed

lemma storeAttr_law:
  assumes inv: "meta_inv goals m" and n: "nodeTable m i = Some n"
  shows "\<exists>st log m'. storeAttr goals ctx ts i n setmask attrmode attruid attrgid attratime attrmtime c m = Some (st, log, m') \<and> meta_inv goals m'"
proof -
  let ?has = "\<lambda>flag. setmask AND flag \<noteq> 0"
  let ?am = "if ?has (SET_UID_FLAG OR SET_GID_FLAG) \<and> ?has SET_MODE_FLAG then attrmode OR (n_mode n AND 0xC00) else attrmode"
  obtain mode0 am where cl: "clearSugid c (ctx_uid ctx) setmask attrgid n ?am = (mode0, am)" by fastforce
  define mode where "mode = (if ?has SET_MODE_FLAG then (am AND 0xFFF) OR (mode0 AND 0xF000) else mode0)"
  have low: "mode0 AND kStandardPermissionsMask = n_mode n AND kStandardPermissionsMask"
    using clearSugid_permissions [of c "ctx_uid ctx" setmask attrgid n ?am] cl by simp
  obtain m2 where m2: "(if ?has SET_MODE_FLAG then syncAclWithMode i (set_node i (\<lambda>n. n\<lparr>n_mode := mode\<rparr>) m)
      else Some (set_node i (\<lambda>n. n\<lparr>n_mode := mode\<rparr>) m)) = Some m2" "meta_inv goals m2" "nodeTable m2 i = Some (n\<lparr>n_mode := mode\<rparr>)"
  proof (cases "?has SET_MODE_FLAG")
    case True
    then show ?thesis using that sync_mode_law [OF inv n, of mode] by auto
  next
    case False
    then show ?thesis using that keep_mode_law [OF inv n, of mode] low n by (simp add: mode_def set_node_eq)
  qed
  define atime where "atime = (if ?has SET_ATIME_NOW_FLAG then ts else if ?has SET_ATIME_FLAG then attratime else n_atime n)"
  define mtime where "mtime = (if ?has SET_MTIME_NOW_FLAG then ts else if ?has SET_MTIME_FLAG then attrmtime else n_mtime n)"
  define uid where "uid = (if ?has SET_UID_FLAG then attruid else n_uid n)"
  define gid where "gid = (if ?has SET_GID_FLAG then attrgid else n_gid n)"
  obtain m3 n3 m' where e: "(if ?has (SET_UID_FLAG OR SET_GID_FLAG) then changeUidGid goals i uid gid m2 else Some m2) = Some m3"
      "nodeTable m3 i = Some n3" "updateCTime i ts (set_node i (\<lambda>n. n\<lparr>n_atime := atime, n_mtime := mtime\<rparr>) m3) = Some m'" "meta_inv goals m'"
    using attr_end_law [OF m2(2,3)] by blast
  show ?thesis
    unfolding storeAttr_def Let_def cl prod.case mode_def [symmetric] atime_def [symmetric] mtime_def [symmetric]
      uid_def [symmetric] gid_def [symmetric]
    using e(2,4) by (simp only: m2(1) e(1,3) option.simps bind.simps) (simp add: set_node_eq)
qed

lemma node_cases:
  assumes "meta_inv goals m"
  obtains st where "getNodeForOperation ctx expected modeMask i m = Some (Inl st)"
  | c node where "getNodeForOperation ctx expected modeMask i m = Some (Inr c)" "nodeTable m c = Some node"
      "expectedType expected node = SAUNAFS_STATUS_OK"
proof -
  obtain r where r: "getNodeForOperation ctx expected modeMask i m = Some r"
      "\<And>c. r = Inr c \<Longrightarrow> \<exists>node. nodeTable m c = Some node \<and> expectedType expected node = SAUNAFS_STATUS_OK"
    using getNodeForOperation_law [OF assms] by blast
  then show thesis using that by (cases r) blast+
qed

lemma mayNotSetAttr_ends:
  assumes "meta_inv goals m" "nodeTable m i = Some node" "ctx_hasSessionData ctx" "ctx_hasUidGidData ctx"
  obtains st where "mayNotSetAttr ctx i node setmask attruid attrgid m = Some st"
proof -
  have "\<exists>st. mayNotSetAttr ctx i node setmask attruid attrgid m = Some st"
    using fs_access_law [OF assms] by (auto simp: mayNotSetAttr_def Let_def)
  then show thesis using that by blast
qed

lemma fs_setAttr_law:
  assumes inv: "meta_inv goals m" and ctx: "user_context ctx" "ctx_hasSessionData ctx"
  shows "\<exists>st log m'. fs_setAttr goals ctx ts i setmask attrmode attruid attrgid attratime attrmtime c m = Some (st, log, m') \<and> meta_inv goals m'"
proof (cases rule: node_cases [OF inv, of ctx ExpectAny MODE_MASK_EMPTY i])
  case (1 st)
  then show ?thesis using inv by (auto simp: fs_setAttr_def refuse_def)
next
  case (2 k node)
  have u: "ctx_hasSessionData ctx" "ctx_hasUidGidData ctx" using ctx by (auto simp: user_context_def)
  obtain st where "mayNotSetAttr ctx k node setmask attruid attrgid m = Some st" using mayNotSetAttr_ends [OF inv 2(2) u] .
  then show ?thesis
    using inv 2 ctx storeAttr_law [OF inv 2(2)] by (auto simp: fs_setAttr_def refuse_def user_context_def)
qed

lemma applyAttr_law:
  assumes inv: "meta_inv goals m"
  shows "\<exists>st m'. applyAttr goals ts i mode uid gid atime mtime m = Some (st, m') \<and> meta_inv goals m'"
proof (cases "nodeTable m i")
  case (Some n)
  let ?mode = "ucast mode OR (n_mode n AND 0xF000)"
  obtain m2 where m2: "syncAclWithMode i (set_node i (\<lambda>n. n\<lparr>n_mode := ?mode\<rparr>) m) = Some m2" "meta_inv goals m2"
      "nodeTable m2 i = Some (n\<lparr>n_mode := ?mode\<rparr>)"
    using sync_mode_law [OF inv Some] by fastforce
  have eq: "set_node i (\<lambda>n. n\<lparr>n_mode := ucast mode OR (n_mode n AND 0xF000)\<rparr>) m = set_node i (\<lambda>n. n\<lparr>n_mode := ?mode\<rparr>) m"
    using Some by (simp add: set_node_eq)
  obtain m3 m' where e: "(if n_uid n \<noteq> uid \<or> n_gid n \<noteq> gid then changeUidGid goals i uid gid m2 else Some m2) = Some m3"
      "updateCTime i ts (set_node i (\<lambda>n. n\<lparr>n_atime := atime, n_mtime := mtime\<rparr>) m3) = Some m'" "meta_inv goals m'"
    using attr_end_law [OF m2(2,3)] by blast
  show ?thesis
    unfolding applyAttr_def Let_def Some option.case eq m2(1) bind.simps e(1,2) using inv e(3) by auto
qed (use inv in \<open>simp add: applyAttr_def\<close>)

lemma file_mtime_law:
  assumes inv: "meta_inv goals m" and n: "nodeTable m i = Some n" "is_file n"
  shows "\<exists>m1 m2 n1. setLength goals i len erase m = Some m1 \<and> nodeTable m1 i = Some n1 \<and> n_length n1 = len \<and>
    updateCTime i ts (set_node i (\<lambda>n. n\<lparr>n_mtime := ts\<rparr>) m1) = Some m2 \<and> meta_inv goals m2"
proof -
  obtain m1 n1 where m1: "setLength goals i len erase m = Some m1" "meta_inv goals m1" "nodeTable m1 i = Some n1" "n_length n1 = len"
    using setLength_law [OF inv n] by blast
  have "meta_inv goals (set_node i (\<lambda>n. n\<lparr>n_mtime := ts\<rparr>) m1)" "nodeTable (set_node i (\<lambda>n. n\<lparr>n_mtime := ts\<rparr>) m1) i = Some (n1\<lparr>n_mtime := ts\<rparr>)"
    using plain_attr_law [OF m1(2,3), of "n1\<lparr>n_mtime := ts\<rparr>"] m1(3) by (simp_all add: set_node_eq)
  then show ?thesis using updateCTime_law m1 by blast
qed

lemma fs_doSetLength_law:
  assumes inv: "meta_inv goals m"
  shows "\<exists>st log m'. fs_doSetLength goals ctx ts i len m = Some (st, log, m') \<and> meta_inv goals m'"
proof (cases rule: node_cases [OF inv, of ctx ExpectFile MODE_MASK_EMPTY i])
  case (1 st)
  then show ?thesis using inv by (auto simp: fs_doSetLength_def refuse_def)
next
  case (2 k node)
  have "is_file node" using 2(3) by (auto simp: expectedType_def is_file_def split: if_splits)
  then obtain m1 m2 n1 where "setLength goals k len True m = Some m1" "nodeTable m1 k = Some n1"
      "updateCTime k ts (set_node k (\<lambda>n. n\<lparr>n_mtime := ts\<rparr>) m1) = Some m2" "meta_inv goals m2"
    using file_mtime_law [OF inv 2(2)] by blast
  then show ?thesis using inv 2 by (simp add: fs_doSetLength_def refuse_def)
qed

lemma applyLength_law:
  assumes inv: "meta_inv goals m"
  shows "\<exists>st m'. applyLength goals ts i len erase m = Some (st, m') \<and> meta_inv goals m'"
proof (cases "\<exists>n. nodeTable m i = Some n \<and> is_file n")
  case True
  then obtain n m1 m2 where "nodeTable m i = Some n" "is_file n" "setLength goals i len erase m = Some m1"
      "updateCTime i ts (set_node i (\<lambda>n. n\<lparr>n_mtime := ts\<rparr>) m1) = Some m2" "meta_inv goals m2"
    using file_mtime_law [OF inv] by blast
  then show ?thesis by (auto simp: applyLength_def is_file_def)
qed (use inv in \<open>auto simp: applyLength_def is_file_def split: option.splits\<close>)

lemma fs_deleteAcl_law:
  assumes inv: "meta_inv goals m"
  shows "\<exists>st log m'. fs_deleteAcl ctx i type m = Some (st, log, m') \<and> meta_inv goals m'"
proof (cases rule: node_cases [OF inv, of ctx ExpectAny MODE_MASK_EMPTY i])
  case (2 k node)
  then show ?thesis using inv deleteAcl_law [OF inv 2(2), of type "ctx_ts ctx"] by (auto simp: fs_deleteAcl_def refuse_def)
qed (use inv in \<open>auto simp: fs_deleteAcl_def refuse_def\<close>)

lemma fs_setRichAcl_law:
  assumes inv: "meta_inv goals m"
  shows "\<exists>st log m'. fs_setRichAcl ctx i acl m = Some (st, log, m') \<and> meta_inv goals m'"
proof (cases rule: node_cases [OF inv, of ctx ExpectAny MODE_MASK_EMPTY i])
  case (2 k node)
  then show ?thesis using inv setRichAcl_law [OF inv 2(2), of acl "ctx_ts ctx"] by (auto simp: fs_setRichAcl_def refuse_def)
qed (use inv in \<open>auto simp: fs_setRichAcl_def refuse_def\<close>)

lemma fs_setPosixAcl_law:
  assumes inv: "meta_inv goals m"
  shows "\<exists>st log m'. fs_setPosixAcl ctx i type acl m = Some (st, log, m') \<and> meta_inv goals m'"
proof (cases rule: node_cases [OF inv, of ctx ExpectAny MODE_MASK_EMPTY i])
  case (2 k node)
  then show ?thesis using inv setPosixAcl_law [OF inv 2(2), of type acl "ctx_ts ctx"] by (auto simp: fs_setPosixAcl_def refuse_def)
qed (use inv in \<open>auto simp: fs_setPosixAcl_def refuse_def\<close>)

lemma fs_getAcl_law:
  assumes inv: "meta_inv goals m"
  shows "\<exists>r. fs_getAcl ctx i m = Some r"
proof (cases rule: node_cases [OF inv, of ctx ExpectAny MODE_MASK_EMPTY i])
  case (2 k node)
  then show ?thesis using getAcl_law [OF inv 2(2)] by (auto simp: fs_getAcl_def)
qed (auto simp: fs_getAcl_def)

end
