(* ===== verification/Spec2Isabelle.thy ===== *)
theory Spec2Isabelle
  imports LockService FsAttr
begin

text \<open>
  LeilFS is a distributed file system: a metadata server (\<open>src/src/master\<close>) keeps the name space,
  the locks, the quotas and the chunk map, chunk servers keep the data, clients mount the tree. This
  development models parts of the metadata server and of the common library it uses.

  \<^item> \<open>LeilFS_Prelude\<close>: the standard-library algorithms the code calls and the status codes.
  \<^item> \<open>Locks\<close>, \<open>FileLocks\<close>, \<open>LockService\<close>: byte-range locks (\<open>master/locks.h\<close>, \<open>master/locks.cc\<close>),
    the lock manager with its queues, its metadata image and its listings, and the lock operations
    with their changelog and replay (\<open>master/filesystem_operations.cc\<close>, \<open>master/restore.cc\<close>,
    \<open>master/matoclserv.cc\<close>).
  \<^item> \<open>RichACL\<close>, \<open>RichACL_Mode\<close>, \<open>RichACL_Compat\<close>: access control lists (\<open>common/richacl.h\<close>,
    \<open>common/richacl.cc\<close>, \<open>common/richacl_compat.cc\<close>).
\<close>

end
